(* ===== verification/Prelude.thy ===== *)
theory Prelude
  imports Main "HOL-Library.Word"
begin

text \<open>
  What every component of the development shares: the machine types, the error values, the
  error-propagating composition \<open>bindE\<close> that stands for Go's
  \<open>if err != nil { return ..., err }\<close>, and generic facts on lists and words.  The named
  collections \<open>result_simps\<close> (how a result flows through \<open>bindE\<close>) and
  \<open>byte_simps\<close> (big-endian fields) are used by the component theories.
\<close>

unbundle bit_operations_syntax

section \<open>Machine types\<close>

type_synonym byte = "8 word"
type_synonym u16 = "16 word"
type_synonym u32 = "32 word"
type_synonym u64 = "64 word"
type_synonym bytes = "byte list"

named_theorems result_simps
named_theorems byte_simps

section \<open>Errors as values\<close>

text \<open>
  The error values of the program.  The first two are the ones of Go's package \<open>io\<close>, the
  next seven are the error variables of package \<open>dns\<close>, \<open>Errorf\<close> is an error made with
  \<open>fmt.Errorf\<close> or \<open>errors.New\<close> (its text is only logged), and \<open>Panic\<close> is a run-time
  panic: it unwinds like an error, and no code of the repository recovers it.
\<close>

datatype err =
    EOF
  | ErrUnexpectedEOF
  | ErrZeroLengthLabel
  | ErrLabelTooLong
  | ErrNameTooLong
  | ErrReservedLabelType
  | ErrTooManyPointers
  | ErrTrailingBytes
  | ErrIntegerOverflow
  | Errorf
  | Panic

definition bindE :: "'e + 'a \<Rightarrow> ('a \<Rightarrow> 'e + 'b) \<Rightarrow> 'e + 'b" where
  "bindE m f = (case m of Inl e \<Rightarrow> Inl e | Inr x \<Rightarrow> f x)"

lemma bindE_Inr [simp, result_simps]: "bindE (Inr x) f = f x"
  by (simp add: bindE_def)

lemma bindE_Inl [simp, result_simps]: "bindE (Inl e) f = Inl e"
  by (simp add: bindE_def)

lemma bindE_eq_Inr [result_simps]: "bindE m f = Inr y \<longleftrightarrow> (\<exists>x. m = Inr x \<and> f x = Inr y)"
  by (cases m) auto

lemma bindE_eq_Inl [result_simps]:
  "bindE m f = Inl e \<longleftrightarrow> m = Inl e \<or> (\<exists>x. m = Inr x \<and> f x = Inl e)"
  by (cases m) auto

lemma bindE_cong [fundef_cong]:
  assumes "m = m'" and "\<And>x. m' = Inr x \<Longrightarrow> f x = f' x"
  shows "bindE m f = bindE m' f'"
  using assms by (cases m') auto

section \<open>Lists\<close>

lemma take_drop_append_exact [simp]:
  "take (length xs) (drop (length pre) (pre @ xs @ rest)) = xs"
  by simp

lemma drop_length_append [simp]: "drop (length xs) (xs @ ys) = ys"
  by simp

lemma split_at_separator:
  assumes "xs @ c # us = ys @ c # vs" and "c \<notin> set xs" and "c \<notin> set ys"
  shows "xs = ys \<and> us = vs"
  using assms
proof (induction xs arbitrary: ys)
  case Nil
  then show ?case by (cases ys) auto
next
  case (Cons x xs)
  then show ?case by (cases ys) auto
qed

lemma nth_length_append [simp]: "(xs @ y # ys) ! length xs = y"
  by simp

lemma sum_list_Suc_length: "sum_list (map (\<lambda>l. Suc (length l)) ls) = length ls + length (concat ls)"
  by (induction ls) auto

section \<open>Big-endian fields\<close>

definition be16 :: "u16 \<Rightarrow> bytes" where
  "be16 x = [ucast (drop_bit 8 x), ucast x]"

definition be32 :: "u32 \<Rightarrow> bytes" where
  "be32 x = [ucast (drop_bit 24 x), ucast (drop_bit 16 x), ucast (drop_bit 8 x), ucast x]"

definition of_be16 :: "byte \<Rightarrow> byte \<Rightarrow> u16" where
  "of_be16 a b = push_bit 8 (ucast a) OR ucast b"

definition of_be32 :: "byte \<Rightarrow> byte \<Rightarrow> byte \<Rightarrow> byte \<Rightarrow> u32" where
  "of_be32 a b c d =
     push_bit 24 (ucast a) OR push_bit 16 (ucast b) OR push_bit 8 (ucast c) OR ucast d"

lemma length_be16 [simp, byte_simps]: "length (be16 x) = 2"
  by (simp add: be16_def)

lemma length_be32 [simp, byte_simps]: "length (be32 x) = 4"
  by (simp add: be32_def)

lemma of_be16_split [byte_simps]: "of_be16 (ucast (drop_bit 8 x)) (ucast x) = x"
  unfolding of_be16_def by (rule bit_word_eqI) (auto simp: bit_simps)

lemma of_be32_split [byte_simps]:
  "of_be32 (ucast (drop_bit 24 x)) (ucast (drop_bit 16 x)) (ucast (drop_bit 8 x)) (ucast x) = x"
proof (rule bit_word_eqI)
  fix n assume "n < LENGTH(32)"
  then show "bit (of_be32 (ucast (drop_bit 24 x)) (ucast (drop_bit 16 x))
                 (ucast (drop_bit 8 x)) (ucast x)) n = bit x n"
    by (cases "n < 8"; cases "n < 16"; cases "n < 24") (auto simp: of_be32_def bit_simps)
qed

lemma byte_no_high_bit [simp]: "\<not> bit (b :: byte) (8 + n)"
  using bit_imp_le_length [of b "8 + n"] by auto

lemma be16_of_be16 [byte_simps]: "be16 (of_be16 a b) = [a, b]"
  unfolding be16_def of_be16_def
  by (auto intro!: bit_word_eqI simp: bit_simps)

lemma unat_of_nat_u16 [simp]: "n < 65536 \<Longrightarrow> unat (of_nat n :: u16) = n"
  by (simp add: unat_of_nat take_bit_eq_mod)

lemma unat_of_nat_byte [simp]: "n < 256 \<Longrightarrow> unat (of_nat n :: byte) = n"
  by (simp add: unat_of_nat take_bit_eq_mod)

lemma unat_byte_lt [simp]: "unat (b :: byte) < 256"
  using unsigned_less [of b, where ?'a = nat] by simp

lemma unat_u16_lt [simp]: "unat (x :: u16) < 65536"
  using unsigned_less [of x, where ?'a = nat] by simp

end
