(* ===== verification/GoStd.thy ===== *)
theory GoStd
  imports Prelude
begin

text \<open>
  The parts of Go's standard library that the program calls, as functions: reading exactly
  \<open>n\<close> bytes (\<open>io.ReadFull\<close>, and \<open>binary.Read\<close> on top of it), the ASCII case maps and the
  splitting functions of package \<open>bytes\<close>, and hexadecimal text.

  A reader that is only read forward is the list of the bytes still to be read.  A failed read is
  an error: every caller in the program abandons the reader then.
\<close>

section \<open>io.ReadFull and binary.Read\<close>

definition ReadFull :: "nat \<Rightarrow> bytes \<Rightarrow> err + bytes \<times> bytes" where
  "ReadFull n s =
     (if n = 0 then Inr ([], s)
      else if s = [] then Inl EOF
      else if length s < n then Inl ErrUnexpectedEOF
      else Inr (take n s, drop n s))"

definition read_byte :: "bytes \<Rightarrow> err + byte \<times> bytes" where
  "read_byte s = (case s of [] \<Rightarrow> Inl EOF | b # r \<Rightarrow> Inr (b, r))"

definition read_u16 :: "bytes \<Rightarrow> err + u16 \<times> bytes" where
  "read_u16 s = bindE (ReadFull 2 s) (\<lambda>(p, r). Inr (of_be16 (p ! 0) (p ! 1), r))"

text \<open>The conversion \<open>if err == io.EOF { err = io.ErrUnexpectedEOF }\<close>.\<close>

definition unexpected :: "err \<Rightarrow> err" where
  "unexpected e = (if e = EOF then ErrUnexpectedEOF else e)"

definition unexpectedE :: "err + 'a \<Rightarrow> err + 'a" where
  "unexpectedE m = (case m of Inl e \<Rightarrow> Inl (unexpected e) | Inr x \<Rightarrow> Inr x)"

lemma unexpectedE_simps [simp]:
  "unexpectedE (Inr x) = Inr x" "unexpectedE (Inl e) = Inl (unexpected e)"
  by (simp_all add: unexpectedE_def)

lemma unexpectedE_eq_Inr [simp]: "unexpectedE m = Inr x \<longleftrightarrow> m = Inr x"
  by (cases m) auto

lemma unexpectedE_not_EOF [simp]: "unexpectedE m \<noteq> Inl EOF"
  by (cases m) (auto simp: unexpected_def)

lemma ReadFull_append [simp]: "length p = n \<Longrightarrow> ReadFull n (p @ rest) = Inr (p, rest)"
  by (auto simp: ReadFull_def)

lemma ReadFull_eq_Inr:
  "ReadFull n s = Inr (p, rest) \<longleftrightarrow> s = p @ rest \<and> length p = n"
  by (auto simp: ReadFull_def split: if_splits)

lemma ReadFull_short: "length s < n \<Longrightarrow> \<exists>e. ReadFull n s = Inl e"
  by (auto simp: ReadFull_def)

lemma read_u16_be16 [simp]: "read_u16 (be16 x @ rest) = Inr (x, rest)"
  by (simp add: read_u16_def) (simp add: be16_def byte_simps)

lemma read_u16_Nil [simp]: "read_u16 [] = Inl EOF"
  by (simp add: read_u16_def ReadFull_def)

lemma read_u16_shrinks: "read_u16 s = Inr (x, rest) \<Longrightarrow> length s = length rest + 2"
  by (auto simp: read_u16_def ReadFull_eq_Inr result_simps split: prod.splits)

section \<open>ASCII case maps\<close>

text \<open>
  \<open>bytes.ToLower\<close> and \<open>bytes.ToUpper\<close> map ASCII letters when every byte is below
  \<open>0x80\<close>; otherwise they go through the Unicode tables, which are the parameter
  \<open>casemap\<close> of the model.
\<close>

record casemap =
  uniLower :: "bytes \<Rightarrow> bytes"
  uniUpper :: "bytes \<Rightarrow> bytes"

definition isASCII :: "bytes \<Rightarrow> bool" where
  "isASCII s = list_all (\<lambda>b. b < 0x80) s"

definition lower_byte :: "byte \<Rightarrow> byte" where
  "lower_byte b = (if 65 \<le> b \<and> b \<le> 90 then b + 32 else b)"

definition upper_byte :: "byte \<Rightarrow> byte" where
  "upper_byte b = (if 97 \<le> b \<and> b \<le> 122 then b - 32 else b)"

definition ToLower :: "casemap \<Rightarrow> bytes \<Rightarrow> bytes" where
  "ToLower u s = (if isASCII s then map lower_byte s else uniLower u s)"

definition ToUpper :: "casemap \<Rightarrow> bytes \<Rightarrow> bytes" where
  "ToUpper u s = (if isASCII s then map upper_byte s else uniUpper u s)"

section \<open>Splitting\<close>

fun splitOn :: "byte \<Rightarrow> bytes \<Rightarrow> bytes list" where
  "splitOn c [] = [[]]"
| "splitOn c (x # xs) =
     (if x = c then [] # splitOn c xs
      else (case splitOn c xs of [] \<Rightarrow> [[x]] | h # t \<Rightarrow> (x # h) # t))"

definition trimSuffixByte :: "byte \<Rightarrow> bytes \<Rightarrow> bytes" where
  "trimSuffixByte c s = (if s \<noteq> [] \<and> last s = c then butlast s else s)"

lemma splitOn_no_sep: "c \<notin> set xs \<Longrightarrow> splitOn c xs = [xs]"
  by (induction xs) auto

lemma splitOn_append: "c \<notin> set xs \<Longrightarrow> splitOn c (xs @ c # ys) = xs # splitOn c ys"
  by (induction xs) auto

section \<open>Hexadecimal text\<close>

definition hexdigit :: "byte \<Rightarrow> byte" where
  "hexdigit v = (if v < 10 then 48 + v else 87 + v)"

definition hex_byte :: "byte \<Rightarrow> bytes" where
  "hex_byte b = [hexdigit (drop_bit 4 b), hexdigit (b AND 15)]"

definition hex_encode :: "bytes \<Rightarrow> bytes" where
  "hex_encode s = concat (map hex_byte s)"

definition unhexdigit :: "byte \<Rightarrow> byte option" where
  "unhexdigit c =
     (if 48 \<le> c \<and> c \<le> 57 then Some (c - 48)
      else if 97 \<le> c \<and> c \<le> 102 then Some (c - 87)
      else if 65 \<le> c \<and> c \<le> 70 then Some (c - 55)
      else None)"

fun hex_decode :: "bytes \<Rightarrow> err + bytes" where
  "hex_decode [] = Inr []"
| "hex_decode [_] = Inl Errorf"
| "hex_decode (a # b # r) =
     (case (unhexdigit a, unhexdigit b) of
        (Some h, Some l) \<Rightarrow> bindE (hex_decode r) (\<lambda>s. Inr ((push_bit 4 h OR l) # s))
      | _ \<Rightarrow> Inl Errorf)"

lemma nibble_cases:
  assumes "(v :: byte) < 16"
  shows "v \<in> {0, 1, 2, 3, 4, 5, 6, 7, 8, 9, 10, 11, 12, 13, 14, 15}"
proof -
  obtain n where n: "n < 16" and v: "v = of_nat n"
  proof
    show "unat v < 16" using assms by (simp add: word_less_nat_alt)
    show "v = of_nat (unat v)" by simp
  qed
  from n have "n \<in> set [0..<16]" by simp
  then have "n \<in> {0, 1, 2, 3, 4, 5, 6, 7, 8, 9, 10, 11, 12, 13, 14, 15}"
    by (simp add: upt_rec numeral_eq_Suc)
  then show ?thesis unfolding v by (elim insertE emptyE) simp_all
qed

lemma unhexdigit_hexdigit: "v < 16 \<Longrightarrow> unhexdigit (hexdigit v) = Some v"
  by (drule nibble_cases) (elim insertE emptyE; simp add: hexdigit_def unhexdigit_def)

lemma high_nibble_lt [simp]: "drop_bit 4 (b :: byte) < 16"
proof -
  have "unat (drop_bit 4 b) = unat b div 16"
    by (simp add: drop_bit_eq_div unat_div)
  moreover have "unat b div 16 < 16" using unat_byte_lt [of b] by linarith
  ultimately show ?thesis by (simp add: word_less_nat_alt)
qed

lemma low_nibble_lt [simp]: "(b :: byte) AND 15 < 16"
  using word_and_le1 [of b 15] by (rule le_less_trans) simp

lemma nibbles_join: "push_bit 4 (drop_bit 4 b) OR (b AND 15) = (b :: byte)"
proof -
  have "b AND 15 = take_bit 4 b" by (simp add: take_bit_eq_mask mask_eq_exp_minus_1)
  then show ?thesis by (auto intro!: bit_word_eqI simp: bit_simps)
qed

lemma hex_byte_inj: "hex_byte a = hex_byte b \<longleftrightarrow> a = b"
proof
  assume "hex_byte a = hex_byte b"
  then have "unhexdigit (hexdigit (drop_bit 4 a)) = unhexdigit (hexdigit (drop_bit 4 b))"
    and "unhexdigit (hexdigit (a AND 15)) = unhexdigit (hexdigit (b AND 15))"
    by (simp_all add: hex_byte_def)
  then have "drop_bit 4 a = drop_bit 4 b" and "a AND 15 = b AND 15"
    by (simp_all add: unhexdigit_hexdigit)
  then show "a = b" using nibbles_join by metis
qed simp

lemma hexdigit_values: "v < 16 \<Longrightarrow> hexdigit v \<in> {48, 49, 50, 51, 52, 53, 54, 55, 56, 57, 97, 98, 99, 100, 101, 102}"
  by (drule nibble_cases) (elim insertE emptyE; simp add: hexdigit_def)

lemma hex_encode_chars:
  "set (hex_encode s) \<subseteq> {48, 49, 50, 51, 52, 53, 54, 55, 56, 57, 97, 98, 99, 100, 101, 102}"
proof (induction s)
  case (Cons b s)
  then show ?case using hexdigit_values [OF high_nibble_lt, of b] hexdigit_values [OF low_nibble_lt, of b]
    by (simp add: hex_encode_def hex_byte_def)
qed (simp add: hex_encode_def)

lemma hex_decode_encode [simp]: "hex_decode (hex_encode s) = Inr s"
  by (induction s) (simp_all add: hex_encode_def hex_byte_def unhexdigit_hexdigit nibbles_join)

lemma length_hex_encode [simp]: "length (hex_encode s) = 2 * length s"
  by (induction s) (simp_all add: hex_encode_def hex_byte_def)

lemma hex_decode_length: "hex_decode s = Inr k \<Longrightarrow> length s = 2 * length k"
  by (induction s arbitrary: k rule: hex_decode.induct)
    (auto simp: result_simps split: option.splits prod.splits)

section \<open>strconv.ParseUint with base 10 and 32 bits\<close>

definition decimal :: "bytes \<Rightarrow> nat" where
  "decimal s = foldl (\<lambda>n d. n * 10 + unat (d - 48)) 0 s"

definition ParseUint32 :: "bytes \<Rightarrow> err + u32" where
  "ParseUint32 s =
     (if s = [] \<or> \<not> list_all (\<lambda>d. 48 \<le> d \<and> d \<le> 57) s \<or> decimal s \<ge> 2 ^ 32 then Inl Errorf
      else Inr (of_nat (decimal s)))"

lemma ParseUint32_not_Panic [simp]: "ParseUint32 s \<noteq> Inl Panic" "ParseUint32 s \<noteq> Inl EOF"
  by (auto simp: ParseUint32_def)

section \<open>Addresses of resolvers\<close>

text \<open>\<open>":53"\<close> is added to the address of a resolver without a colon, wherever the program uses one.\<close>

definition with_port :: "bytes \<Rightarrow> bytes" where
  "with_port resolver = (if 58 \<in> set resolver then resolver else resolver @ [58, 53, 51])"

end
