(* ===== verification/DnsName.thy ===== *)
theory DnsName
  imports GoStd
begin

text \<open>
  Domain names and the message builder of \<open>src/dns/dns.go\<close>: \<open>Name\<close>, its textual form
  \<open>Name.String\<close>, \<open>NewName\<close>, \<open>ParseName\<close>, \<open>Name.TrimSuffix\<close>, and
  \<open>messageBuilder.WriteName\<close> with its cache of names already written (DNS name compression).
  The lemmas show that the textual form identifies a name, so a cache hit is a hit of the same
  name, and that \<open>NewName\<close> accepts exactly the names of 1 to 63 octet labels and at most 255
  octets in all.
\<close>

section \<open>Names and their textual form\<close>

type_synonym Name = "bytes list"

definition isNameChar :: "byte \<Rightarrow> bool" where
  "isNameChar b \<longleftrightarrow>
     b = 45 \<or> (48 \<le> b \<and> b \<le> 57) \<or> (65 \<le> b \<and> b \<le> 90) \<or> (97 \<le> b \<and> b \<le> 122)"

definition escape_byte :: "byte \<Rightarrow> bytes" where
  "escape_byte b = (if isNameChar b then [b] else [92, 120] @ hex_byte b)"

definition escape_label :: "bytes \<Rightarrow> bytes" where
  "escape_label l = concat (map escape_byte l)"

fun Name_labels_String :: "Name \<Rightarrow> bytes" where
  "Name_labels_String [] = []"
| "Name_labels_String [l] = escape_label l"
| "Name_labels_String (l # ls) = escape_label l @ 46 # Name_labels_String ls"

definition Name_String :: "Name \<Rightarrow> bytes" where
  "Name_String name = (if name = [] then [46] else Name_labels_String name)"

subsection \<open>The textual form identifies the name\<close>

lemma hexdigit_not_dot: "v < 16 \<Longrightarrow> hexdigit v \<noteq> 46"
  by (drule nibble_cases) (auto simp: hexdigit_def)

lemma escape_byte_no_dot: "46 \<notin> set (escape_byte b)"
proof (cases "isNameChar b")
  case True
  then have "b \<noteq> 46" by (auto simp: isNameChar_def)
  with True show ?thesis by (simp add: escape_byte_def)
next
  case False
  have "hexdigit (drop_bit 4 b) \<noteq> 46" and "hexdigit (b AND 15) \<noteq> 46"
    by (simp_all add: hexdigit_not_dot)
  with False show ?thesis by (simp add: escape_byte_def hex_byte_def)
qed

lemma escape_label_no_dot: "46 \<notin> set (escape_label l)"
  using escape_byte_no_dot by (auto simp: escape_label_def)

lemma length_hex_byte [simp]: "length (hex_byte b) = 2"
  by (simp add: hex_byte_def)

lemma escape_byte_prefix_free:
  assumes eq: "escape_byte a @ u = escape_byte b @ v"
  shows "a = b \<and> u = v"
proof (cases "isNameChar a = isNameChar b")
  case True
  show ?thesis
  proof (cases "isNameChar a")
    case True
    with eq \<open>isNameChar a = isNameChar b\<close> show ?thesis by (simp add: escape_byte_def)
  next
    case False
    with eq \<open>isNameChar a = isNameChar b\<close> have "hex_byte a @ u = hex_byte b @ v"
      by (simp add: escape_byte_def)
    then show ?thesis by (simp add: hex_byte_inj)
  qed
next
  case False
  have "\<not> isNameChar 92" by (simp add: isNameChar_def)
  with False eq show ?thesis
    by (cases "isNameChar a") (auto simp: escape_byte_def)
qed

lemma escape_byte_not_Nil [simp]: "escape_byte b \<noteq> []"
  by (simp add: escape_byte_def)

lemma escape_label_inj: "escape_label l = escape_label l' \<Longrightarrow> l = l'"
proof (induction l arbitrary: l')
  case Nil
  then show ?case by (cases l') (auto simp: escape_label_def)
next
  case (Cons a l)
  then obtain b m where l': "l' = b # m" by (cases l') (auto simp: escape_label_def)
  from Cons.prems have "escape_byte a @ escape_label l = escape_byte b @ escape_label m"
    by (simp add: l' escape_label_def)
  then have "a = b" and "escape_label l = escape_label m"
    using escape_byte_prefix_free by blast+
  with Cons.IH l' show ?case by blast
qed

lemma escape_label_eq_Nil [simp]:
  "escape_label l = [] \<longleftrightarrow> l = []" "[] = escape_label l \<longleftrightarrow> l = []"
  by (cases l; auto simp: escape_label_def)+

lemma Name_labels_String_Cons:
  "ls \<noteq> [] \<Longrightarrow> Name_labels_String (l # ls) = escape_label l @ 46 # Name_labels_String ls"
  by (cases ls) auto

lemma Name_labels_String_inj:
  "\<lbrakk>Name_labels_String n = Name_labels_String m; [] \<notin> set n; [] \<notin> set m\<rbrakk> \<Longrightarrow> n = m"
proof (induction n arbitrary: m)
  case Nil
  then show ?case by (cases m rule: Name_labels_String.cases) auto
next
  case (Cons a n)
  from Cons.prems obtain b k where m: "m = b # k"
    by (cases m) (cases n, auto)
  have dots: "46 \<notin> set (escape_label a)" "46 \<notin> set (escape_label b)"
    using escape_label_no_dot by blast+
  consider "n = []" "k = []" | "n = []" "k \<noteq> []" | "n \<noteq> []" "k = []" | "n \<noteq> []" "k \<noteq> []"
    by blast
  then show ?case
  proof cases
    case 1
    with Cons.prems m show ?thesis by (simp add: escape_label_inj)
  next
    case 2
    with Cons.prems(1) m dots show ?thesis by (auto simp: Name_labels_String_Cons)
  next
    case 3
    with Cons.prems(1) m dots show ?thesis
      by (metis Name_labels_String.simps(2) Name_labels_String_Cons in_set_conv_decomp)
  next
    case 4
    with Cons.prems(1) m
    have "escape_label a @ 46 # Name_labels_String n = escape_label b @ 46 # Name_labels_String k"
      by (simp add: Name_labels_String_Cons)
    from split_at_separator [OF this dots] Cons.IH Cons.prems m show ?thesis
      by (auto simp: escape_label_inj)
  qed
qed

lemma Name_String_inj:
  assumes "Name_String n = Name_String m" and "[] \<notin> set n" and "[] \<notin> set m"
  shows "n = m"
proof -
  have dot: "Name_labels_String k \<noteq> [46]" if "[] \<notin> set k" for k
    using that escape_label_no_dot
    by (cases k rule: Name_labels_String.cases)
      (auto simp: Cons_eq_append_conv append_eq_Cons_conv, metis list.set_intros(1))
  show ?thesis
    using assms dot [of n] dot [of m] Name_labels_String_inj [of n m]
    by (auto simp: Name_String_def split: if_splits)
qed

section \<open>The message builder and WriteName\<close>

record messageBuilder =
  builder_w :: bytes
  builder_nameCache :: "bytes \<rightharpoonup> nat"

definition newMessageBuilder :: messageBuilder where
  "newMessageBuilder = \<lparr>builder_w = [], builder_nameCache = Map.empty\<rparr>"

definition builder_Write :: "bytes \<Rightarrow> messageBuilder \<Rightarrow> messageBuilder" where
  "builder_Write p b = b\<lparr>builder_w := builder_w b @ p\<rparr>"

text \<open>
  A cache entry is used when it fits the 14 bits of a compression pointer
  (\<open>ptr\&0x3fff == ptr\<close> in the code).
\<close>

definition cachedPtr :: "messageBuilder \<Rightarrow> Name \<Rightarrow> nat option" where
  "cachedPtr b name =
     (case builder_nameCache b (Name_String name) of
        None \<Rightarrow> None
      | Some ptr \<Rightarrow> if ptr AND 0x3fff = ptr then Some ptr else None)"

fun WriteName :: "Name \<Rightarrow> messageBuilder \<Rightarrow> err + messageBuilder" where
  "WriteName [] b = Inr (builder_Write [0] b)"
| "WriteName (l # ls) b =
     (case cachedPtr b (l # ls) of
        Some ptr \<Rightarrow> Inr (builder_Write (be16 (0xc000 OR of_nat ptr)) b)
      | None \<Rightarrow>
          (let b' = b\<lparr>builder_nameCache :=
                       (builder_nameCache b)(Name_String (l # ls) \<mapsto> length (builder_w b))\<rparr>
           in if l = [] \<or> length l > 63 then Inl Panic
              else WriteName ls (builder_Write (of_nat (length l) # l) b')))"

section \<open>NewName, ParseName and TrimSuffix\<close>

fun checkLabels :: "Name \<Rightarrow> err + unit" where
  "checkLabels [] = Inr ()"
| "checkLabels (label # labels) =
     (if label = [] then Inl ErrZeroLengthLabel
      else if length label > 63 then Inl ErrLabelTooLong
      else checkLabels labels)"

definition NewName :: "Name \<Rightarrow> err + Name" where
  "NewName labels =
     bindE (checkLabels labels) (\<lambda>_.
     bindE (WriteName labels newMessageBuilder) (\<lambda>builder.
       if length (builder_w builder) > 255 then Inl ErrNameTooLong else Inr labels))"

definition ParseName :: "bytes \<Rightarrow> err + Name" where
  "ParseName s =
     (let b = trimSuffixByte 46 s
      in if b = [] then NewName [] else NewName (splitOn 46 b))"

definition Name_TrimSuffix :: "casemap \<Rightarrow> Name \<Rightarrow> Name \<Rightarrow> Name option" where
  "Name_TrimSuffix u name suffix =
     (if length name < length suffix then None
      else
        let split = length name - length suffix;
            fore = take split name; aft = drop split name
        in if list_all2 (\<lambda>a s. ToLower u a = ToLower u s) aft suffix then Some fore else None)"

subsection \<open>Which names are accepted\<close>

text \<open>The limits of RFC 1035 on a name, independent of how the code checks them.\<close>

definition valid_label :: "bytes \<Rightarrow> bool" where
  "valid_label l \<longleftrightarrow> l \<noteq> [] \<and> length l \<le> 63"

definition name_octets :: "Name \<Rightarrow> nat" where
  "name_octets ls = sum_list (map (\<lambda>l. Suc (length l)) ls) + 1"

definition valid_name :: "Name \<Rightarrow> bool" where
  "valid_name ls \<longleftrightarrow> list_all valid_label ls \<and> name_octets ls \<le> 255"

text \<open>The plain wire form of a name, without compression.\<close>

definition plain_name :: "Name \<Rightarrow> bytes" where
  "plain_name ls = concat (map (\<lambda>l. of_nat (length l) # l) ls) @ [0]"

lemma length_plain_name [simp]: "length (plain_name ls) = name_octets ls"
  by (induction ls) (simp_all add: plain_name_def name_octets_def)

lemma builder_Write_simps [simp]:
  "builder_w (builder_Write p b) = builder_w b @ p"
  "builder_nameCache (builder_Write p b) = builder_nameCache b"
  by (simp_all add: builder_Write_def)

lemma newMessageBuilder_simps [simp]:
  "builder_w newMessageBuilder = []" "builder_nameCache newMessageBuilder = Map.empty"
  by (simp_all add: newMessageBuilder_def)

lemma fits_pointer: "ptr AND 0x3fff = ptr \<longleftrightarrow> ptr < (0x4000 :: nat)"
proof -
  have "ptr AND 0x3fff = take_bit 14 ptr"
    by (simp add: take_bit_eq_mask mask_eq_exp_minus_1)
  then have "ptr AND 0x3fff = ptr mod 0x4000" by (simp add: take_bit_eq_mod)
  then show ?thesis by (simp add: mod_eq_self_iff_div_eq_0 div_eq_0_iff)
qed

lemma cachedPtr_eq_Some:
  "cachedPtr b n = Some p \<longleftrightarrow> builder_nameCache b (Name_String n) = Some p \<and> p < 0x4000"
  unfolding cachedPtr_def using fits_pointer by (auto split: option.splits)

lemma list_all_valid_no_Nil: "list_all valid_label ls \<Longrightarrow> [] \<notin> set ls"
  by (auto simp: list_all_iff valid_label_def)

lemma checkLabels_ok: "checkLabels ls = Inr () \<longleftrightarrow> list_all valid_label ls"
  by (induction ls) (auto simp: valid_label_def)

lemma checkLabels_not_Panic: "checkLabels ls \<noteq> Inl Panic"
  by (induction ls) auto

text \<open>
  A name whose suffixes are not in the cache is written in full.  The suffixes of a valid name
  have pairwise different texts, so in particular a fresh builder never compresses.
\<close>

lemma WriteName_plain:
  assumes "list_all valid_label ls"
    and "\<And>k. k < length ls \<Longrightarrow> builder_nameCache b (Name_String (drop k ls)) = None"
  shows "\<exists>c. WriteName ls b = Inr \<lparr>builder_w = builder_w b @ plain_name ls, builder_nameCache = c\<rparr>"
  using assms
proof (induction ls arbitrary: b)
  case Nil
  then show ?case by (cases b) (auto simp: builder_Write_def plain_name_def)
next
  case (Cons l ls)
  let ?b = "builder_Write (of_nat (length l) # l)
    (b\<lparr>builder_nameCache := (builder_nameCache b)(Name_String (l # ls) \<mapsto> length (builder_w b))\<rparr>)"
  have none: "cachedPtr b (l # ls) = None"
    using Cons.prems(2) [of 0] by (simp add: cachedPtr_def)
  have "builder_nameCache ?b (Name_String (drop k ls)) = None" if "k < length ls" for k
  proof -
    have "Name_String (drop k ls) \<noteq> Name_String (l # ls)"
    proof
      assume eq: "Name_String (drop k ls) = Name_String (l # ls)"
      have "[] \<notin> set (drop k ls)" and "[] \<notin> set (l # ls)"
        using list_all_valid_no_Nil [OF Cons.prems(1)] by (auto dest: in_set_dropD)
      with eq have "drop k ls = l # ls" by (rule Name_String_inj)
      then have "length (drop k ls) = Suc (length ls)" by simp
      then show False by simp
    qed
    then show ?thesis using Cons.prems(2) [of "Suc k"] that by simp
  qed
  with Cons.IH [of ?b] Cons.prems(1) obtain c
    where "WriteName ls ?b = Inr \<lparr>builder_w = builder_w ?b @ plain_name ls, builder_nameCache = c\<rparr>"
    by auto
  with none Cons.prems(1) show ?case
    by (auto simp: Let_def valid_label_def plain_name_def)
qed

lemma WriteName_fresh:
  assumes "list_all valid_label ls"
  shows "\<exists>c. WriteName ls newMessageBuilder = Inr \<lparr>builder_w = plain_name ls, builder_nameCache = c\<rparr>"
  using WriteName_plain [OF assms, of newMessageBuilder] by simp

lemma NewName_eq_Inr: "NewName ls = Inr n \<longleftrightarrow> n = ls \<and> valid_name ls"
proof (cases "list_all valid_label ls")
  case True
  from WriteName_fresh [OF this] obtain c
    where "WriteName ls newMessageBuilder = Inr \<lparr>builder_w = plain_name ls, builder_nameCache = c\<rparr>" ..
  with True show ?thesis by (auto simp: NewName_def checkLabels_ok [symmetric] valid_name_def)
next
  case False
  then show ?thesis
    by (auto simp: NewName_def valid_name_def checkLabels_ok [symmetric] result_simps)
qed

lemma NewName_valid [simp]: "valid_name ls \<Longrightarrow> NewName ls = Inr ls"
  by (simp add: NewName_eq_Inr)

lemma NewName_not_Panic: "NewName ls \<noteq> Inl Panic"
proof (cases "list_all valid_label ls")
  case True
  from WriteName_fresh [OF this] show ?thesis
    using True by (auto simp: NewName_def checkLabels_ok [symmetric] result_simps)
next
  case False
  then show ?thesis
    using checkLabels_not_Panic [of ls] by (auto simp: NewName_def result_simps checkLabels_ok)
qed

end
