(* ===== verification/DnsMessage.thy ===== *)
theory DnsMessage
  imports DnsName
begin

text \<open>
  DNS messages of \<open>src/dns/dns.go\<close>: the message types, the parser \<open>MessageFromWireFormat\<close>
  with its functions \<open>readName\<close>, \<open>readQuestion\<close>, \<open>readRR\<close>, \<open>readMessage\<close>, and the
  serializer \<open>WireFormat\<close> on the message builder.  A \<open>reader\<close> is Go's \<open>bytes.Reader\<close>:
  the whole buffer and the offset of the next byte, which \<open>Seek\<close> sets to any value.
\<close>

section \<open>Data\<close>

record Question =
  q_Name :: Name
  q_Type :: u16
  q_Class :: u16

record RR =
  rr_Name :: Name
  rr_Type :: u16
  rr_Class :: u16
  rr_TTL :: u32
  rr_Data :: bytes

record Message =
  msg_ID :: u16
  msg_Flags :: u16
  msg_Question :: "Question list"
  msg_Answer :: "RR list"
  msg_Authority :: "RR list"
  msg_Additional :: "RR list"

definition Opcode :: "Message \<Rightarrow> u16" where
  "Opcode message = drop_bit 11 (msg_Flags message) AND 0xf"

definition Rcode :: "Message \<Rightarrow> u16" where
  "Rcode message = msg_Flags message AND 0x000f"

abbreviation (input) RRTypeTXT :: u16 where "RRTypeTXT \<equiv> 16"
abbreviation (input) RRTypeOPT :: u16 where "RRTypeOPT \<equiv> 41"
abbreviation (input) ClassIN :: u16 where "ClassIN \<equiv> 1"
abbreviation (input) RcodeNoError :: u16 where "RcodeNoError \<equiv> 0"
abbreviation (input) RcodeFormatError :: u16 where "RcodeFormatError \<equiv> 1"
abbreviation (input) RcodeNameError :: u16 where "RcodeNameError \<equiv> 3"
abbreviation (input) RcodeNotImplemented :: u16 where "RcodeNotImplemented \<equiv> 4"
abbreviation (input) ExtendedRcodeBadVers :: nat where "ExtendedRcodeBadVers \<equiv> 16"

section \<open>The parser\<close>

record reader =
  r_buf :: bytes
  r_pos :: nat

definition r_ReadFull :: "nat \<Rightarrow> reader \<Rightarrow> err + bytes \<times> reader" where
  "r_ReadFull n r =
     bindE (ReadFull n (drop (r_pos r) (r_buf r))) (\<lambda>(p, _). Inr (p, r\<lparr>r_pos := r_pos r + n\<rparr>))"

definition r_read_u8 :: "reader \<Rightarrow> err + byte \<times> reader" where
  "r_read_u8 r = bindE (r_ReadFull 1 r) (\<lambda>(p, r). Inr (p ! 0, r))"

definition r_read_u16 :: "reader \<Rightarrow> err + u16 \<times> reader" where
  "r_read_u16 r = bindE (r_ReadFull 2 r) (\<lambda>(p, r). Inr (of_be16 (p ! 0) (p ! 1), r))"

definition r_read_u32 :: "reader \<Rightarrow> err + u32 \<times> reader" where
  "r_read_u32 r =
     bindE (r_ReadFull 4 r) (\<lambda>(p, r). Inr (of_be32 (p ! 0) (p ! 1) (p ! 2) (p ! 3), r))"

definition r_Seek :: "nat \<Rightarrow> reader \<Rightarrow> reader" where
  "r_Seek n r = r\<lparr>r_pos := n\<rparr>"

definition compressionPointerLimit :: nat where
  "compressionPointerLimit = 10"

lemma r_ReadFull_eq_Inr:
  "r_ReadFull n r = Inr (p, r') \<longleftrightarrow>
     r' = r\<lparr>r_pos := r_pos r + n\<rparr> \<and> length p = n \<and>
     (\<exists>rest. drop (r_pos r) (r_buf r) = p @ rest)"
  by (auto simp: r_ReadFull_def result_simps ReadFull_eq_Inr split: prod.splits)

lemma r_ReadFull_advances:
  assumes "r_ReadFull n r = Inr (p, r')" and "0 < n"
  shows "r_buf r' = r_buf r" and "r_pos r' = r_pos r + n" and "r_pos r' \<le> length (r_buf r)"
proof -
  from assms(1) obtain rest where r': "r' = r\<lparr>r_pos := r_pos r + n\<rparr>"
    and "drop (r_pos r) (r_buf r) = p @ rest" and "length p = n"
    by (auto simp: r_ReadFull_eq_Inr)
  then have d: "length (drop (r_pos r) (r_buf r)) \<ge> n" by (simp del: length_drop)
  show "r_buf r' = r_buf r" "r_pos r' = r_pos r + n" by (simp_all add: r')
  from d assms(2) show "r_pos r' \<le> length (r_buf r)" by (simp add: r')
qed

text \<open>
  The loop of \<open>readName\<close>, with its variables \<open>labels\<close>, \<open>numPointers\<close> and \<open>seekTo\<close>.
  It returns the labels and the reader after the name; the final seek is part of the \<open>break\<close>
  branch.  The loop ends because every label moves the reader forward inside the buffer and at
  most ten pointers move it elsewhere.
\<close>

function readName_loop ::
  "Name \<Rightarrow> nat \<Rightarrow> nat \<Rightarrow> reader \<Rightarrow> err + Name \<times> reader" where
  "readName_loop labels numPointers seekTo r =
     bindE (r_read_u8 r) (\<lambda>(labelType, r1).
       if labelType AND 0xc0 = 0x00 then
         (let len = unat (labelType AND 0x3f) in
          if len = 0 then Inr (labels, if numPointers > 0 then r_Seek seekTo r1 else r1)
          else bindE (r_ReadFull len r1) (\<lambda>(label, r2).
                 readName_loop (labels @ [label]) numPointers seekTo r2))
       else if labelType AND 0xc0 = 0xc0 then
         bindE (r_read_u8 r1) (\<lambda>(lower, r2).
           let upper = labelType AND 0x3f;
               offset = unat (push_bit 8 (ucast upper :: u16) OR ucast lower);
               seekTo' = (if numPointers = 0 then r_pos r2 else seekTo)
           in if numPointers + 1 > compressionPointerLimit then Inl ErrTooManyPointers
              else readName_loop labels (numPointers + 1) seekTo' (r_Seek offset r2))
       else Inl ErrReservedLabelType)"
  by pat_completeness auto
termination
proof (relation "measures [\<lambda>(labels, n, seekTo, r). compressionPointerLimit - n,
                           \<lambda>(labels, n, seekTo, r). length (r_buf r) - r_pos r]", goal_cases)
  case 1
  show ?case by simp
next
  case (2 labels n seekTo r x labelType r1 len y label r2)
  then have "r_read_u8 r = Inr (labelType, r1)" and two: "r_ReadFull len r1 = Inr (label, r2)"
    and "len \<noteq> 0" by simp_all
  then obtain p where one: "r_ReadFull 1 r = Inr (p, r1)"
    by (auto simp: r_read_u8_def result_simps split: prod.splits)
  from r_ReadFull_advances [OF one] r_ReadFull_advances [OF two] \<open>len \<noteq> 0\<close>
  show ?case by auto
next
  case 3
  then show ?case by (auto simp: compressionPointerLimit_def)
qed

declare readName_loop.simps [simp del]

definition readName :: "reader \<Rightarrow> err + Name \<times> reader" where
  "readName r =
     bindE (readName_loop [] 0 0 r) (\<lambda>(labels, r'). bindE (NewName labels) (\<lambda>name. Inr (name, r')))"

definition readQuestion :: "reader \<Rightarrow> err + Question \<times> reader" where
  "readQuestion r =
     bindE (readName r) (\<lambda>(name, r).
     bindE (r_read_u16 r) (\<lambda>(typ, r).
     bindE (r_read_u16 r) (\<lambda>(cls, r).
       Inr (\<lparr>q_Name = name, q_Type = typ, q_Class = cls\<rparr>, r))))"

definition readRR :: "reader \<Rightarrow> err + RR \<times> reader" where
  "readRR r =
     bindE (readName r) (\<lambda>(name, r).
     bindE (r_read_u16 r) (\<lambda>(typ, r).
     bindE (r_read_u16 r) (\<lambda>(cls, r).
     bindE (r_read_u32 r) (\<lambda>(ttl, r).
     bindE (r_read_u16 r) (\<lambda>(rdLength, r).
     bindE (r_ReadFull (unat rdLength) r) (\<lambda>(rdata, r).
       Inr (\<lparr>rr_Name = name, rr_Type = typ, rr_Class = cls, rr_TTL = ttl, rr_Data = rdata\<rparr>, r)))))))"

text \<open>The counted loops \<open>for i := 0; i < int(count); i++\<close> over a section.\<close>

fun read_each :: "(reader \<Rightarrow> err + 'a \<times> reader) \<Rightarrow> nat \<Rightarrow> reader \<Rightarrow> err + 'a list \<times> reader" where
  "read_each f 0 r = Inr ([], r)"
| "read_each f (Suc n) r =
     bindE (f r) (\<lambda>(x, r). bindE (read_each f n r) (\<lambda>(xs, r). Inr (x # xs, r)))"

definition readMessage :: "reader \<Rightarrow> err + Message \<times> reader" where
  "readMessage r =
     bindE (r_read_u16 r) (\<lambda>(ident, r).
     bindE (r_read_u16 r) (\<lambda>(flags, r).
     bindE (r_read_u16 r) (\<lambda>(qdCount, r).
     bindE (r_read_u16 r) (\<lambda>(anCount, r).
     bindE (r_read_u16 r) (\<lambda>(nsCount, r).
     bindE (r_read_u16 r) (\<lambda>(arCount, r).
     bindE (read_each readQuestion (unat qdCount) r) (\<lambda>(questions, r).
     bindE (read_each readRR (unat anCount) r) (\<lambda>(answers, r).
     bindE (read_each readRR (unat nsCount) r) (\<lambda>(authorities, r).
     bindE (read_each readRR (unat arCount) r) (\<lambda>(additionals, r).
       Inr (\<lparr>msg_ID = ident, msg_Flags = flags, msg_Question = questions, msg_Answer = answers,
             msg_Authority = authorities, msg_Additional = additionals\<rparr>, r)))))))))))"

definition MessageFromWireFormat :: "bytes \<Rightarrow> err + Message" where
  "MessageFromWireFormat buf =
     bindE (unexpectedE (readMessage \<lparr>r_buf = buf, r_pos = 0\<rparr>)) (\<lambda>(message, r).
       (case r_read_u8 r of
          Inl e \<Rightarrow> if e = EOF then Inr message else Inl e
        | Inr _ \<Rightarrow> Inl ErrTrailingBytes))"

section \<open>The serializer\<close>

definition WriteQuestion :: "Question \<Rightarrow> messageBuilder \<Rightarrow> err + messageBuilder" where
  "WriteQuestion question b =
     bindE (WriteName (q_Name question) b) (\<lambda>b.
       Inr (builder_Write (be16 (q_Type question) @ be16 (q_Class question)) b))"

definition WriteRR :: "RR \<Rightarrow> messageBuilder \<Rightarrow> err + messageBuilder" where
  "WriteRR rr b =
     bindE (WriteName (rr_Name rr) b) (\<lambda>b.
       let b = builder_Write (be16 (rr_Type rr) @ be16 (rr_Class rr) @ be32 (rr_TTL rr)) b;
           rdLength = (of_nat (length (rr_Data rr)) :: u16)
       in if unat rdLength \<noteq> length (rr_Data rr) then Inl ErrIntegerOverflow
          else Inr (builder_Write (be16 rdLength @ rr_Data rr) b))"

fun write_each :: "('a \<Rightarrow> messageBuilder \<Rightarrow> err + messageBuilder) \<Rightarrow> 'a list \<Rightarrow>
    messageBuilder \<Rightarrow> err + messageBuilder" where
  "write_each f [] b = Inr b"
| "write_each f (x # xs) b = bindE (f x b) (write_each f xs)"

definition WriteCount :: "nat \<Rightarrow> messageBuilder \<Rightarrow> err + messageBuilder" where
  "WriteCount count b =
     (let count16 = (of_nat count :: u16)
      in if unat count16 \<noteq> count then Inl ErrIntegerOverflow
         else Inr (builder_Write (be16 count16) b))"

definition WriteMessage :: "Message \<Rightarrow> messageBuilder \<Rightarrow> err + messageBuilder" where
  "WriteMessage message b =
     bindE (write_each WriteCount
              [length (msg_Question message), length (msg_Answer message),
               length (msg_Authority message), length (msg_Additional message)]
              (builder_Write (be16 (msg_ID message) @ be16 (msg_Flags message)) b)) (\<lambda>b.
     bindE (write_each WriteQuestion (msg_Question message) b) (\<lambda>b.
     write_each WriteRR (msg_Answer message @ msg_Authority message @ msg_Additional message) b))"

definition WireFormat :: "Message \<Rightarrow> err + bytes" where
  "WireFormat message =
     bindE (WriteMessage message newMessageBuilder) (\<lambda>builder. Inr (builder_w builder))"

end
