(* ===== verification/DnsRoundtrip.thy ===== *)
theory DnsRoundtrip
  imports DnsMessage
begin

text \<open>
  Name compression is correct.  \<open>enc_at buf pos d name e\<close> says, without reference to the
  parser's loop, that \<open>buf\<close> holds at offset \<open>pos\<close> an encoding of \<open>name\<close> that ends at
  \<open>e\<close> and follows \<open>d\<close> compression pointers.  \<open>WriteName\<close> keeps every cache entry
  pointing to such an encoding, \<open>readName\<close> reads every such encoding of at most ten pointers,
  and the locale \<open>section_codec\<close> lifts a writer and a reader of one entry to a whole section.
  The result is the round trip of messages with at most eleven entries.
\<close>

section \<open>Encodings in a buffer\<close>

inductive enc_at :: "bytes \<Rightarrow> nat \<Rightarrow> nat \<Rightarrow> Name \<Rightarrow> nat \<Rightarrow> bool" where
  root: "drop pos buf = 0 # rest \<Longrightarrow> enc_at buf pos 0 [] (pos + 1)"
| label: "\<lbrakk>drop pos buf = of_nat (length l) # l @ rest; valid_label l;
           enc_at buf (pos + 1 + length l) d ls e\<rbrakk> \<Longrightarrow> enc_at buf pos d (l # ls) e"
| pointer: "\<lbrakk>drop pos buf = be16 (0xc000 OR of_nat p) @ rest; p < 0x4000;
             enc_at buf p d name e'\<rbrakk> \<Longrightarrow> enc_at buf pos (Suc d) name (pos + 2)"

lemma drop_append_nonempty:
  assumes "drop pos buf = xs" and "xs \<noteq> []"
  shows "drop pos (buf @ ys) = xs @ ys"
proof -
  from assms have "pos < length buf" by (metis drop_eq_Nil leI)
  with assms show ?thesis by simp
qed

lemma enc_at_append: "enc_at buf pos d name e \<Longrightarrow> enc_at (buf @ ys) pos d name e"
proof (induction rule: enc_at.induct)
  case (root pos buf rest)
  from drop_append_nonempty [OF root] have "drop pos (buf @ ys) = 0 # rest @ ys" by simp
  then show ?case by (rule enc_at.root)
next
  case (label pos buf l rest d ls e)
  from drop_append_nonempty [OF label.hyps(1)] label show ?case
    by (auto intro: enc_at.label)
next
  case (pointer pos buf p rest d name e')
  have "be16 (0xc000 OR of_nat p) @ rest \<noteq> []" by (simp add: be16_def)
  from drop_append_nonempty [OF pointer.hyps(1) this]
  have "drop pos (buf @ ys) = be16 (0xc000 OR of_nat p) @ rest @ ys" by simp
  then show ?case using pointer.hyps(2) pointer.IH by (rule enc_at.pointer)
qed

section \<open>The parser reads encodings\<close>

lemma label_type_bits:
  assumes "n \<le> 63"
  shows "(of_nat n :: byte) AND 0xc0 = 0" and "unat ((of_nat n :: byte) AND 0x3f) = n"
proof -
  have "list_all (\<lambda>n. (of_nat n :: byte) AND 0xc0 = 0 \<and> unat ((of_nat n :: byte) AND 0x3f) = n) [0..<64]"
    by code_simp
  with assms show "(of_nat n :: byte) AND 0xc0 = 0" and "unat ((of_nat n :: byte) AND 0x3f) = n"
    by (simp_all add: list_all_iff)
qed

lemma pointer_masks:
  "(0xc000 :: u16) = NOT (mask 14)" "(0xc0 :: byte) = NOT (mask 6)" "(0x3f :: byte) = mask 6"
  by (simp_all add: mask_eq_exp_minus_1)

lemma bit_of_nat_u16: "p < 0x4000 \<Longrightarrow> bit (of_nat p :: u16) n \<Longrightarrow> n < 14"
proof -
  assume p: "p < 0x4000" and "bit (of_nat p :: u16) n"
  then have "bit p n" by (simp add: bit_simps)
  moreover have "take_bit 14 p = p" using p by (simp add: take_bit_eq_mod)
  ultimately show "n < 14" by (metis bit_take_bit_iff)
qed

lemma pointer_bits:
  assumes "p < 0x4000"
  defines "x \<equiv> (0xc000 OR of_nat p :: u16)"
  shows "(ucast (drop_bit 8 x) :: byte) AND 0xc0 = 0xc0"
    and "push_bit 8 (ucast ((ucast (drop_bit 8 x) :: byte) AND 0x3f) :: u16) OR ucast (ucast x :: byte)
         = of_nat p"
proof -
  show "(ucast (drop_bit 8 x) :: byte) AND 0xc0 = 0xc0"
    unfolding x_def pointer_masks by (rule bit_word_eqI) (auto simp: bit_simps)
  show "push_bit 8 (ucast ((ucast (drop_bit 8 x) :: byte) AND 0x3f) :: u16) OR ucast (ucast x :: byte)
        = of_nat p" (is "?l = _")
  proof (rule bit_word_eqI)
    fix n assume "n < LENGTH(16)"
    then show "bit ?l n = bit (of_nat p :: u16) n"
      using bit_of_nat_u16 [OF assms(1), of n]
      unfolding x_def pointer_masks by (cases "n < 8") (auto simp: bit_simps)
  qed
qed

lemma r_ReadFull_at:
  "\<lbrakk>drop pos buf = p @ rest; length p = n\<rbrakk> \<Longrightarrow>
     r_ReadFull n \<lparr>r_buf = buf, r_pos = pos\<rparr> = Inr (p, \<lparr>r_buf = buf, r_pos = pos + n\<rparr>)"
  by (auto simp: r_ReadFull_eq_Inr)

lemma r_read_u8_at:
  "drop pos buf = b # rest \<Longrightarrow>
     r_read_u8 \<lparr>r_buf = buf, r_pos = pos\<rparr> = Inr (b, \<lparr>r_buf = buf, r_pos = Suc pos\<rparr>)"
  using r_ReadFull_at [of pos buf "[b]" rest 1] by (simp add: r_read_u8_def)

lemma drop_Suc_at: "drop pos buf = b # rest \<Longrightarrow> drop (Suc pos) buf = rest"
  by (metis drop_Suc list.sel(3) tl_drop)

lemma readName_loop_enc:
  assumes "enc_at buf pos d name e" and "n + d \<le> compressionPointerLimit"
  shows "readName_loop labels n seekTo \<lparr>r_buf = buf, r_pos = pos\<rparr> =
         Inr (labels @ name, \<lparr>r_buf = buf, r_pos = if n = 0 then e else seekTo\<rparr>)"
  using assms
proof (induction arbitrary: labels n seekTo rule: enc_at.induct)
  case (root pos buf rest)
  from r_read_u8_at [OF root(1)] show ?case
    by (simp add: readName_loop.simps [of labels n seekTo] r_Seek_def)
next
  case (label pos buf l rest d ls e)
  from label.hyps(2) have l: "length l \<le> 63" "length l \<noteq> 0" "l \<noteq> []" by (simp_all add: valid_label_def)
  from r_ReadFull_at [OF drop_Suc_at [OF label.hyps(1)], of "length l"]
  have rf: "r_ReadFull (length l) \<lparr>r_buf = buf, r_pos = Suc pos\<rparr> =
            Inr (l, \<lparr>r_buf = buf, r_pos = pos + 1 + length l\<rparr>)" by simp
  from label.IH [OF label.prems, of "labels @ [l]" seekTo] show ?case
    by (simp add: readName_loop.simps [of labels n seekTo] r_read_u8_at [OF label.hyps(1)]
        label_type_bits [OF l(1)] rf l)
next
  case (pointer pos buf p rest d name e')
  obtain hi lo where be: "be16 (0xc000 OR of_nat p) = [hi, lo]" and hi: "hi AND 0xc0 = 0xc0"
    and off: "push_bit 8 (ucast (hi AND 0x3f) :: u16) OR ucast lo = of_nat p"
    using pointer_bits [OF pointer.hyps(2)] by (simp add: be16_def)
  have d0: "drop pos buf = hi # lo # rest" using pointer.hyps(1) be by simp
  have "unat (of_nat p :: u16) = p" using pointer.hyps(2) by simp
  with pointer.IH [of "Suc n" labels "if n = 0 then Suc (Suc pos) else seekTo"] pointer.prems
  show ?case
    by (subst readName_loop.simps, cases "n = 0") (simp_all add: r_read_u8_at [OF d0] hi off r_read_u8_at [OF drop_Suc_at [OF d0]] r_Seek_def Let_def)
qed

lemma readName_enc:
  assumes "enc_at buf pos d name e" and "d \<le> compressionPointerLimit" and "valid_name name"
  shows "readName \<lparr>r_buf = buf, r_pos = pos\<rparr> = Inr (name, \<lparr>r_buf = buf, r_pos = e\<rparr>)"
  using readName_loop_enc [OF assms(1), of 0 "[]" 0] assms(2,3) by (simp add: readName_def)

section \<open>The serializer writes encodings and keeps the cache sound\<close>

text \<open>
  Every cache entry outside \<open>P\<close> points to an encoding of a valid name with fewer than \<open>K\<close>
  pointers; \<open>P\<close> holds the texts of the suffixes that are being written.
\<close>

definition cache_ok :: "nat \<Rightarrow> messageBuilder \<Rightarrow> bytes set \<Rightarrow> bool" where
  "cache_ok K b P \<longleftrightarrow>
     (\<forall>key p. builder_nameCache b key = Some p \<longrightarrow> key \<notin> P \<longrightarrow>
        (\<exists>n d e. key = Name_String n \<and> list_all valid_label n \<and>
                 enc_at (builder_w b) p d n e \<and> d < K))"

lemma cache_ok_new [simp]: "cache_ok K newMessageBuilder P"
  by (simp add: cache_ok_def)

lemma cache_ok_mono: "cache_ok K b P \<Longrightarrow> K \<le> K' \<Longrightarrow> cache_ok K' b P"
  unfolding cache_ok_def by (meson less_le_trans)

lemma cache_ok_Write:
  assumes "cache_ok K b P" and "builder_nameCache b' = builder_nameCache b"
    and "builder_w b' = builder_w b @ s"
  shows "cache_ok K b' P"
  using assms unfolding cache_ok_def by (metis enc_at_append)

lemma cache_ok_builder_Write [simp, intro]: "cache_ok K b P \<Longrightarrow> cache_ok K (builder_Write s b) P"
  by (erule cache_ok_Write [where s = s]) simp_all

text \<open>The outcome of writing \<open>name\<close> on \<open>b\<close>.\<close>

definition wrote_name :: "nat \<Rightarrow> Name \<Rightarrow> messageBuilder \<Rightarrow> bytes set \<Rightarrow> messageBuilder \<Rightarrow> bool" where
  "wrote_name K name b P b' \<longleftrightarrow>
     WriteName name b = Inr b' \<and> (\<exists>s. builder_w b' = builder_w b @ s) \<and>
     (\<exists>d\<le>K. enc_at (builder_w b') (length (builder_w b)) d name (length (builder_w b'))) \<and>
     cache_ok (Suc K) b' P \<and>
     (\<forall>key. (\<forall>k<length name. key \<noteq> Name_String (drop k name)) \<longrightarrow>
        builder_nameCache b' key = builder_nameCache b key)"

lemma Name_String_suffix_neq:
  assumes "list_all valid_label (l # ls)" and "k \<le> length ls"
  shows "Name_String (drop k ls) \<noteq> Name_String (l # ls)"
proof
  assume eq: "Name_String (drop k ls) = Name_String (l # ls)"
  have "[] \<notin> set (drop k ls)" and "[] \<notin> set (l # ls)"
    using list_all_valid_no_Nil [OF assms(1)] by (auto dest: in_set_dropD)
  with eq have "drop k ls = l # ls" by (rule Name_String_inj)
  then have "length (drop k ls) = Suc (length ls)" by simp
  then show False by simp
qed

lemma WriteName_cached:
  assumes "list_all valid_label (l # ls)" and "cache_ok K b P"
    and "Name_String (l # ls) \<notin> P" and "cachedPtr b (l # ls) = Some p"
  shows "wrote_name K (l # ls) b P (builder_Write (be16 (0xc000 OR of_nat p)) b)"
proof -
  let ?b = "builder_Write (be16 (0xc000 OR of_nat p)) b"
  from assms(2-4) obtain n d e where n: "Name_String (l # ls) = Name_String n"
    "list_all valid_label n" "enc_at (builder_w b) p d n e" "d < K" and p: "p < 0x4000"
    unfolding cache_ok_def cachedPtr_eq_Some by metis
  from n(1) have "l # ls = n"
    using list_all_valid_no_Nil [OF assms(1)] list_all_valid_no_Nil [OF n(2)] by (rule Name_String_inj)
  with n have "enc_at (builder_w ?b) p d (l # ls) e" by (simp add: enc_at_append)
  then have "enc_at (builder_w ?b) (length (builder_w b)) (Suc d) (l # ls) (length (builder_w b) + 2)"
    by (intro enc_at.pointer [where rest = "[]" and p = p] p) simp_all
  moreover have "Suc d \<le> K" using n(4) by simp
  ultimately have "\<exists>d\<le>K. enc_at (builder_w ?b) (length (builder_w b)) d (l # ls) (length (builder_w ?b))"
    by auto
  with assms show ?thesis
    by (auto simp: wrote_name_def intro: cache_ok_mono)
qed

lemma WriteName_label:
  assumes valid: "list_all valid_label (l # ls)" and none: "cachedPtr b (l # ls) = None"
    and notin: "Name_String (l # ls) \<notin> P"
  defines "b1 \<equiv> builder_Write (of_nat (length l) # l)
    (b\<lparr>builder_nameCache := (builder_nameCache b)(Name_String (l # ls) \<mapsto> length (builder_w b))\<rparr>)"
  assumes w: "wrote_name K ls b1 (insert (Name_String (l # ls)) P) b'"
  shows "wrote_name K (l # ls) b P b'"
proof -
  have l: "valid_label l" using valid by simp
  from w obtain s d where wr: "WriteName ls b1 = Inr b'" and s: "builder_w b' = builder_w b1 @ s"
    and d: "d \<le> K" "enc_at (builder_w b') (length (builder_w b1)) d ls (length (builder_w b'))"
    and ok: "cache_ok (Suc K) b' (insert (Name_String (l # ls)) P)"
    and frame: "\<And>key. (\<forall>k<length ls. key \<noteq> Name_String (drop k ls)) \<Longrightarrow>
                  builder_nameCache b' key = builder_nameCache b1 key"
    unfolding wrote_name_def by blast
  have enc: "enc_at (builder_w b') (length (builder_w b)) d (l # ls) (length (builder_w b'))"
    using d(2) s l by (intro enc_at.label [where rest = s]) (simp_all add: b1_def)
  have entry: "builder_nameCache b' (Name_String (l # ls)) = Some (length (builder_w b))"
  proof -
    have "Name_String (l # ls) \<noteq> Name_String (drop k ls)" if "k < length ls" for k
      using Name_String_suffix_neq [OF valid, of k] that by simp
    then show ?thesis using frame [of "Name_String (l # ls)"] by (simp add: b1_def)
  qed
  have "cache_ok (Suc K) b' P"
    unfolding cache_ok_def
  proof (intro allI impI)
    fix key p assume k: "builder_nameCache b' key = Some p" "key \<notin> P"
    show "\<exists>n d e. key = Name_String n \<and> list_all valid_label n \<and>
                  enc_at (builder_w b') p d n e \<and> d < Suc K"
    proof (cases "key = Name_String (l # ls)")
      case True
      with k entry have "p = length (builder_w b)" by simp
      with True valid enc d(1) have "key = Name_String (l # ls) \<and> list_all valid_label (l # ls) \<and>
        enc_at (builder_w b') p d (l # ls) (length (builder_w b')) \<and> d < Suc K" by simp
      then show ?thesis by blast
    next
      case False
      with k ok show ?thesis unfolding cache_ok_def by blast
    qed
  qed
  moreover have "builder_nameCache b' key = builder_nameCache b key"
    if "\<forall>k<length (l # ls). key \<noteq> Name_String (drop k (l # ls))" for key
  proof -
    have "\<forall>k<length ls. key \<noteq> Name_String (drop k ls)" using that
      by (metis Suc_less_eq drop_Suc_Cons length_Cons)
    moreover have "key \<noteq> Name_String (l # ls)" using that by (metis drop0 length_greater_0_conv list.distinct(1))
    ultimately show ?thesis using frame by (simp add: b1_def)
  qed
  moreover have "WriteName (l # ls) b = Inr b'"
    using wr none l by (simp add: b1_def Let_def valid_label_def)
  ultimately show ?thesis
    using s d(1) enc unfolding wrote_name_def by (auto simp: b1_def)
qed

lemma WriteName_correct:
  assumes "list_all valid_label name" and "cache_ok K b P"
    and "\<And>k. k < length name \<Longrightarrow> Name_String (drop k name) \<notin> P"
  shows "\<exists>b'. wrote_name K name b P b'"
  using assms
proof (induction name arbitrary: b P)
  case Nil
  have "enc_at (builder_w b @ [0]) (length (builder_w b)) 0 [] (length (builder_w b) + 1)"
    by (rule enc_at.root [where rest = "[]"]) simp
  with Nil have "wrote_name K [] b P (builder_Write [0] b)"
    by (auto simp: wrote_name_def intro: cache_ok_mono)
  then show ?case ..
next
  case (Cons l ls)
  have notin: "Name_String (l # ls) \<notin> P" using Cons.prems(3) [of 0] by simp
  show ?case
  proof (cases "cachedPtr b (l # ls)")
    case (Some p)
    from WriteName_cached [OF Cons.prems(1,2) notin Some] show ?thesis ..
  next
    case None
    let ?key = "Name_String (l # ls)"
    let ?b = "builder_Write (of_nat (length l) # l)
      (b\<lparr>builder_nameCache := (builder_nameCache b)(?key \<mapsto> length (builder_w b))\<rparr>)"
    have "cache_ok K ?b (insert ?key P)"
      using Cons.prems(2) enc_at_append unfolding cache_ok_def by fastforce
    moreover have "Name_String (drop k ls) \<notin> insert ?key P" if "k < length ls" for k
      using that Cons.prems(3) [of "Suc k"] Name_String_suffix_neq [OF Cons.prems(1), of k] by simp
    ultimately obtain b' where "wrote_name K ls ?b (insert ?key P) b'"
      using Cons.IH [of ?b "insert ?key P"] Cons.prems(1) by auto
    from WriteName_label [OF Cons.prems(1) None notin this] show ?thesis ..
  qed
qed

section \<open>Entries and sections\<close>

text \<open>A reader that has consumed \<open>pre\<close> and still has \<open>rest\<close> before it.\<close>

definition reader_at :: "bytes \<Rightarrow> bytes \<Rightarrow> reader" where
  "reader_at pre rest = \<lparr>r_buf = pre @ rest, r_pos = length pre\<rparr>"

lemma reader_at_reads [simp]:
  "length p = n \<Longrightarrow> r_ReadFull n (reader_at pre (p @ rest)) = Inr (p, reader_at (pre @ p) rest)"
  "r_read_u16 (reader_at pre (be16 x @ rest)) = Inr (x, reader_at (pre @ be16 x) rest)"
  "r_read_u32 (reader_at pre (be32 y @ rest)) = Inr (y, reader_at (pre @ be32 y) rest)"
proof -
  show full: "length p = n \<Longrightarrow> r_ReadFull n (reader_at pre (p @ rest)) = Inr (p, reader_at (pre @ p) rest)"
    for p n rest
    by (simp add: reader_at_def r_ReadFull_at)
  show "r_read_u16 (reader_at pre (be16 x @ rest)) = Inr (x, reader_at (pre @ be16 x) rest)"
    by (simp add: r_read_u16_def full) (simp add: be16_def byte_simps)
  show "r_read_u32 (reader_at pre (be32 y @ rest)) = Inr (y, reader_at (pre @ be32 y) rest)"
    by (simp add: r_read_u32_def full) (simp add: be32_def byte_simps)
qed

text \<open>
  The contract between a writer and a reader of one entry that holds a single name: writing on a
  builder with a sound cache appends some bytes \<open>s\<close>, keeps the cache sound with one more
  pointer allowed, and, whatever follows, the reader turns these bytes back into the entry.
\<close>

definition writes_entry ::
  "(reader \<Rightarrow> err + 'a \<times> reader) \<Rightarrow> nat \<Rightarrow> 'a \<Rightarrow> messageBuilder \<Rightarrow> messageBuilder \<Rightarrow> bool" where
  "writes_entry rd K x b b' \<longleftrightarrow>
     cache_ok K b' {} \<and>
     (\<exists>s. builder_w b' = builder_w b @ s \<and>
          (\<forall>rest. rd (reader_at (builder_w b) (s @ rest)) = Inr (x, reader_at (builder_w b') rest)))"

lemma writes_entryE:
  assumes "writes_entry rd K x b b'"
  obtains s where "cache_ok K b' {}" and "builder_w b' = builder_w b @ s"
    and "\<And>rest. rd (reader_at (builder_w b) (s @ rest)) = Inr (x, reader_at (builder_w b') rest)"
  using assms unfolding writes_entry_def by blast

locale section_codec =
  fixes wr :: "'a \<Rightarrow> messageBuilder \<Rightarrow> err + messageBuilder"
    and rd :: "reader \<Rightarrow> err + 'a \<times> reader"
    and ok :: "'a \<Rightarrow> bool"
  assumes wr_entry: "\<lbrakk>ok x; cache_ok K b {}; K \<le> compressionPointerLimit\<rbrakk> \<Longrightarrow>
                       \<exists>b'. wr x b = Inr b' \<and> writes_entry rd (Suc K) x b b'"
begin

lemma section_roundtrip:
  assumes "list_all ok xs" and "cache_ok K b {}" and "K + length xs \<le> Suc compressionPointerLimit"
  shows "\<exists>b'. write_each wr xs b = Inr b' \<and>
              writes_entry (read_each rd (length xs)) (K + length xs) xs b b'"
  using assms
proof (induction xs arbitrary: b K)
  case Nil
  then show ?case by (auto simp: writes_entry_def)
next
  case (Cons x xs)
  then obtain b1 where b1: "wr x b = Inr b1" "writes_entry rd (Suc K) x b b1"
    using wr_entry [of x K b] by auto
  from b1(2) obtain s1 where s1: "cache_ok (Suc K) b1 {}" "builder_w b1 = builder_w b @ s1"
    and r1: "\<And>rest. rd (reader_at (builder_w b) (s1 @ rest)) = Inr (x, reader_at (builder_w b1) rest)"
    by (rule writes_entryE) (rule that)
  obtain b2 where b2: "write_each wr xs b1 = Inr b2"
    "writes_entry (read_each rd (length xs)) (Suc K + length xs) xs b1 b2"
    using Cons.IH [OF _ s1(1)] Cons.prems by auto
  from b2(2) obtain s2 where s2: "cache_ok (Suc K + length xs) b2 {}" "builder_w b2 = builder_w b1 @ s2"
    and r2: "\<And>rest. read_each rd (length xs) (reader_at (builder_w b1) (s2 @ rest)) =
                    Inr (xs, reader_at (builder_w b2) rest)"
    by (rule writes_entryE) (rule that)
  have "writes_entry (read_each rd (length (x # xs))) (K + length (x # xs)) (x # xs) b b2"
    unfolding writes_entry_def using s1 s2 r1 r2 by (intro conjI exI [of _ "s1 @ s2"]) simp_all
  moreover have "write_each wr (x # xs) b = Inr b2" using b1(1) b2(1) by simp
  ultimately show ?case by blast
qed

end

lemma WriteName_entry:
  assumes "valid_name name" and "cache_ok K b {}" and "K \<le> compressionPointerLimit"
  shows "\<exists>b'. WriteName name b = Inr b' \<and> writes_entry readName (Suc K) name b b'"
proof -
  from assms(1) have "list_all valid_label name" by (simp add: valid_name_def)
  from WriteName_correct [OF this assms(2)] obtain b' where "wrote_name K name b {} b'" by auto
  then obtain s d where b': "WriteName name b = Inr b'" "builder_w b' = builder_w b @ s"
    "cache_ok (Suc K) b' {}" "d \<le> K"
    and enc: "enc_at (builder_w b') (length (builder_w b)) d name (length (builder_w b'))"
    unfolding wrote_name_def by blast
  have "readName (reader_at (builder_w b) (s @ rest)) = Inr (name, reader_at (builder_w b') rest)" for rest
    using readName_enc [OF enc_at_append [OF enc, of rest] _ assms(1)] b' assms(3)
    by (simp add: reader_at_def)
  with b' show ?thesis unfolding writes_entry_def by blast
qed

lemma writes_entry_Write:
  assumes "writes_entry rd K x b b1"
    and "\<And>r rest. rd r = Inr (x, reader_at (builder_w b1) (s @ rest)) \<Longrightarrow>
           rd' r = Inr (y, reader_at (builder_w b1 @ s) rest)"
  shows "writes_entry rd' K y b (builder_Write s b1)"
proof -
  from assms(1) obtain s1 where s1: "cache_ok K b1 {}" "builder_w b1 = builder_w b @ s1"
    and "\<And>rest. rd (reader_at (builder_w b) (s1 @ rest)) = Inr (x, reader_at (builder_w b1) rest)"
    by (rule writes_entryE) (rule that)
  then have "rd' (reader_at (builder_w b) ((s1 @ s) @ rest)) =
      Inr (y, reader_at (builder_w (builder_Write s b1)) rest)" for rest
    using assms(2) by simp
  with s1 show ?thesis unfolding writes_entry_def by (intro conjI exI [of _ "s1 @ s"]) auto
qed

definition valid_Question :: "Question \<Rightarrow> bool" where
  "valid_Question q \<longleftrightarrow> valid_name (q_Name q)"

definition valid_RR :: "RR \<Rightarrow> bool" where
  "valid_RR rr \<longleftrightarrow> valid_name (rr_Name rr) \<and> length (rr_Data rr) < 65536"

interpretation question: section_codec WriteQuestion readQuestion valid_Question
proof unfold_locales
  fix q K b
  assume "valid_Question q" and K: "cache_ok K b {}" "K \<le> compressionPointerLimit"
  then obtain b1 where b1: "WriteName (q_Name q) b = Inr b1"
    "writes_entry readName (Suc K) (q_Name q) b b1"
    using WriteName_entry [of "q_Name q" K b] by (auto simp: valid_Question_def)
  have "writes_entry readQuestion (Suc K) q b (builder_Write (be16 (q_Type q) @ be16 (q_Class q)) b1)"
    using b1(2) by (rule writes_entry_Write) (simp add: readQuestion_def)
  with b1(1) show "\<exists>b'. WriteQuestion q b = Inr b' \<and> writes_entry readQuestion (Suc K) q b b'"
    by (simp add: WriteQuestion_def)
qed

interpretation rr: section_codec WriteRR readRR valid_RR
proof unfold_locales
  fix x K b
  assume x: "valid_RR x" and K: "cache_ok K b {}" "K \<le> compressionPointerLimit"
  then obtain b1 where b1: "WriteName (rr_Name x) b = Inr b1"
    "writes_entry readName (Suc K) (rr_Name x) b b1"
    using WriteName_entry [of "rr_Name x" K b] by (auto simp: valid_RR_def)
  let ?len = "of_nat (length (rr_Data x)) :: u16"
  let ?s = "be16 (rr_Type x) @ be16 (rr_Class x) @ be32 (rr_TTL x) @ be16 ?len @ rr_Data x"
  have len: "unat ?len = length (rr_Data x)" using x by (simp add: valid_RR_def)
  have "writes_entry readRR (Suc K) x b (builder_Write ?s b1)"
    using b1(2) by (rule writes_entry_Write) (simp add: readRR_def len)
  with b1(1) len show "\<exists>b'. WriteRR x b = Inr b' \<and> writes_entry readRR (Suc K) x b b'"
    by (simp add: WriteRR_def Let_def builder_Write_def)
qed

section \<open>Messages\<close>

definition valid_message :: "Message \<Rightarrow> bool" where
  "valid_message m \<longleftrightarrow>
     list_all valid_Question (msg_Question m) \<and>
     list_all valid_RR (msg_Answer m @ msg_Authority m @ msg_Additional m)"

definition entries :: "Message \<Rightarrow> nat" where
  "entries m = length (msg_Question m) + length (msg_Answer m) + length (msg_Authority m) +
               length (msg_Additional m)"

lemma WriteCount_ok: "n < 65536 \<Longrightarrow> WriteCount n b = Inr (builder_Write (be16 (of_nat n)) b)"
  by (simp add: WriteCount_def)

lemma read_each_append:
  assumes "read_each rd (length (xs @ ys)) r = Inr (xs @ ys, r2)"
  shows "\<exists>r1. read_each rd (length xs) r = Inr (xs, r1) \<and> read_each rd (length ys) r1 = Inr (ys, r2)"
  using assms
  by (induction xs arbitrary: r) (auto simp: result_simps split: prod.splits)

lemma message_roundtrip:
  assumes "valid_message m" and "entries m \<le> Suc compressionPointerLimit"
  shows "\<exists>buf. WireFormat m = Inr buf \<and> MessageFromWireFormat buf = Inr m"
proof -
  let ?rrs = "msg_Answer m @ msg_Authority m @ msg_Additional m"
  let ?hdr = "be16 (msg_ID m) @ be16 (msg_Flags m) @ be16 (of_nat (length (msg_Question m))) @
     be16 (of_nat (length (msg_Answer m))) @ be16 (of_nat (length (msg_Authority m))) @
     be16 (of_nat (length (msg_Additional m)))"
  let ?b0 = "builder_Write ?hdr newMessageBuilder"
  have small: "length (msg_Question m) < 65536" "length (msg_Answer m) < 65536"
    "length (msg_Authority m) < 65536" "length (msg_Additional m) < 65536"
    using assms(2) by (auto simp: entries_def compressionPointerLimit_def)
  have hdr: "write_each WriteCount [length (msg_Question m), length (msg_Answer m),
      length (msg_Authority m), length (msg_Additional m)]
      (builder_Write (be16 (msg_ID m) @ be16 (msg_Flags m)) newMessageBuilder) = Inr ?b0"
    using small by (simp add: WriteCount_ok builder_Write_def)
  have c0: "cache_ok 0 ?b0 {}" by simp
  obtain b1 where b1: "write_each WriteQuestion (msg_Question m) ?b0 = Inr b1"
    "writes_entry (read_each readQuestion (length (msg_Question m))) (0 + length (msg_Question m))
       (msg_Question m) ?b0 b1"
    using question.section_roundtrip [OF _ c0, of "msg_Question m"] assms
    by (auto simp: valid_message_def entries_def)
  from b1(2) obtain s1 where s1: "cache_ok (length (msg_Question m)) b1 {}" "builder_w b1 = ?hdr @ s1"
    and r1: "\<And>rest. read_each readQuestion (length (msg_Question m)) (reader_at ?hdr (s1 @ rest)) =
                    Inr (msg_Question m, reader_at (builder_w b1) rest)"
    by (rule writes_entryE) simp
  obtain b2 where b2: "write_each WriteRR ?rrs b1 = Inr b2"
    "writes_entry (read_each readRR (length ?rrs)) (length (msg_Question m) + length ?rrs) ?rrs b1 b2"
    using rr.section_roundtrip [OF _ s1(1), of ?rrs] assms
    by (auto simp: valid_message_def entries_def)
  from b2(2) obtain s2 where s2: "builder_w b2 = builder_w b1 @ s2"
    and r2: "\<And>rest. read_each readRR (length ?rrs) (reader_at (builder_w b1) (s2 @ rest)) =
                    Inr (?rrs, reader_at (builder_w b2) rest)"
    by (rule writes_entryE) (rule that)
  from r2 [of "[]"] obtain ra rb where
    "read_each readRR (length (msg_Answer m)) (reader_at (builder_w b1) s2) = Inr (msg_Answer m, ra)"
    "read_each readRR (length (msg_Authority m)) ra = Inr (msg_Authority m, rb)"
    "read_each readRR (length (msg_Additional m)) rb = Inr (msg_Additional m, reader_at (builder_w b2) [])"
    by (metis append_Nil2 read_each_append)
  moreover have "\<lparr>r_buf = builder_w b2, r_pos = 0\<rparr> = reader_at [] (?hdr @ s1 @ s2)"
    by (simp add: reader_at_def s1 s2)
  ultimately have "readMessage \<lparr>r_buf = builder_w b2, r_pos = 0\<rparr> = Inr (m, reader_at (builder_w b2) [])"
    using small r1 [of s2] by (simp add: readMessage_def)
  moreover have "r_read_u8 (reader_at (builder_w b2) []) = Inl EOF"
    by (simp add: reader_at_def r_read_u8_def r_ReadFull_def ReadFull_def)
  moreover have "WireFormat m = Inr (builder_w b2)"
    unfolding WireFormat_def WriteMessage_def hdr using b1(1) b2(1) by simp
  ultimately show ?thesis by (simp add: MessageFromWireFormat_def)
qed

end
