(* ===== verification/DnsLimits.thy ===== *)
theory DnsLimits
  imports DnsRoundtrip
begin

text \<open>
  The limits of the DNS codec: what the parser accepts is a valid message and is serialized again
  (the assertion of the fuzzing driver \<open>src/dns/fuzz.go\<close>), the parser never panics, and a
  message of twelve nested names is serialized to bytes that the parser refuses.  The theory ends
  with the properties of package \<open>dns\<close>.
\<close>

section \<open>What the parser accepts\<close>

lemma read_each_all:
  assumes "\<And>r x r'. f r = Inr (x, r') \<Longrightarrow> P x" and "read_each f n r = Inr (xs, r')"
  shows "length xs = n \<and> list_all P xs"
  using assms(2)
  by (induction n arbitrary: r xs) (auto simp: result_simps split: prod.splits dest: assms(1))

lemma readName_valid: "readName r = Inr (name, r') \<Longrightarrow> valid_name name"
  by (auto simp: readName_def result_simps NewName_eq_Inr split: prod.splits)

lemma readQuestion_valid: "readQuestion r = Inr (q, r') \<Longrightarrow> valid_Question q"
  by (auto simp: readQuestion_def valid_Question_def result_simps split: prod.splits dest: readName_valid)

lemma readRR_valid: "readRR r = Inr (x, r') \<Longrightarrow> valid_RR x"
  by (auto simp: readRR_def valid_RR_def result_simps r_ReadFull_eq_Inr split: prod.splits
      dest: readName_valid)

definition counts_fit :: "Message \<Rightarrow> bool" where
  "counts_fit m \<longleftrightarrow> length (msg_Question m) < 65536 \<and> length (msg_Answer m) < 65536 \<and>
     length (msg_Authority m) < 65536 \<and> length (msg_Additional m) < 65536"

lemma readMessage_valid:
  assumes "readMessage r = Inr (m, r')"
  shows "valid_message m \<and> counts_fit m"
proof -
  from assms obtain q an ns ar :: u16 and r1 r2 r3 r4 r5 where
    "read_each readQuestion (unat q) r1 = Inr (msg_Question m, r2)"
    "read_each readRR (unat an) r2 = Inr (msg_Answer m, r3)"
    "read_each readRR (unat ns) r3 = Inr (msg_Authority m, r4)"
    "read_each readRR (unat ar) r4 = Inr (msg_Additional m, r5)"
    by (auto simp: readMessage_def result_simps split: prod.splits)
  note this [THEN read_each_all [rotated]]
  from this(1) [OF readQuestion_valid] this(2-4) [OF readRR_valid] show ?thesis
    by (simp add: valid_message_def counts_fit_def)
qed

lemma MessageFromWireFormat_Inr:
  assumes "MessageFromWireFormat buf = Inr m"
  obtains r where "readMessage \<lparr>r_buf = buf, r_pos = 0\<rparr> = Inr (m, r)"
    and "r_read_u8 r = Inl EOF"
proof -
  from assms obtain m' r where r: "readMessage \<lparr>r_buf = buf, r_pos = 0\<rparr> = Inr (m', r)"
    and "(case r_read_u8 r of Inl e \<Rightarrow> if e = EOF then Inr m' else Inl e | Inr _ \<Rightarrow> Inl ErrTrailingBytes) = Inr m"
    by (auto simp: MessageFromWireFormat_def result_simps)
  then have "m' = m" and "r_read_u8 r = Inl EOF"
    by (auto split: sum.splits if_splits)
  with r that show thesis by blast
qed

lemma MessageFromWireFormat_valid:
  "MessageFromWireFormat buf = Inr m \<Longrightarrow> valid_message m \<and> counts_fit m"
  by (blast elim: MessageFromWireFormat_Inr dest: readMessage_valid)

subsection \<open>The parser neither panics nor reports a plain end of file\<close>

lemma read_not_Panic [simp]:
  "r_ReadFull n r \<noteq> Inl Panic" "r_read_u8 r \<noteq> Inl Panic"
  "r_read_u16 r \<noteq> Inl Panic" "r_read_u32 r \<noteq> Inl Panic"
  by (auto simp: r_ReadFull_def ReadFull_def r_read_u8_def r_read_u16_def r_read_u32_def result_simps)

lemma readName_loop_not_Panic: "readName_loop labels n seekTo r \<noteq> Inl Panic"
proof (induction labels n seekTo r rule: readName_loop.induct)
  case (1 labels n seekTo r)
  then show ?case
    by (subst readName_loop.simps) (auto simp: result_simps Let_def split: if_splits prod.splits)
qed

lemma read_each_not_Panic: "(\<And>r. f r \<noteq> Inl Panic) \<Longrightarrow> read_each f n r \<noteq> Inl Panic"
  by (induction n arbitrary: r) (auto simp: result_simps split: prod.splits)

lemma read_entry_not_Panic [simp]:
  "readName r \<noteq> Inl Panic" "readQuestion r \<noteq> Inl Panic" "readRR r \<noteq> Inl Panic"
proof -
  show n: "readName r \<noteq> Inl Panic" for r
    using readName_loop_not_Panic NewName_not_Panic
    by (auto simp: readName_def result_simps split: prod.splits)
  show "readQuestion r \<noteq> Inl Panic" "readRR r \<noteq> Inl Panic"
    using n by (auto simp: readQuestion_def readRR_def result_simps split: prod.splits)
qed

lemma readMessage_not_Panic: "readMessage r \<noteq> Inl Panic"
  by (auto simp: readMessage_def result_simps read_each_not_Panic split: prod.splits)

lemma MessageFromWireFormat_errors:
  "MessageFromWireFormat buf \<noteq> Inl Panic" "MessageFromWireFormat buf \<noteq> Inl EOF"
  using readMessage_not_Panic
  by (auto simp: MessageFromWireFormat_def result_simps unexpectedE_def unexpected_def
      split: sum.splits if_splits prod.splits)

subsection \<open>Every valid message is serialized\<close>

lemma write_each_ok:
  assumes "\<And>x b K. \<lbrakk>ok x; cache_ok K b {}\<rbrakk> \<Longrightarrow> \<exists>b'. wr x b = Inr b' \<and> cache_ok (Suc K) b' {}"
    and "list_all ok xs" and "cache_ok K b {}"
  shows "\<exists>b' K'. write_each wr xs b = Inr b' \<and> cache_ok K' b' {}"
  using assms(2,3)
proof (induction xs arbitrary: b K)
  case Nil
  then show ?case by auto
next
  case (Cons x xs)
  with assms(1) [of x K b] obtain b1 where "wr x b = Inr b1" "cache_ok (Suc K) b1 {}" by auto
  with Cons.IH [of "Suc K" b1] Cons.prems show ?case by auto
qed

lemma WriteName_ok:
  "\<lbrakk>valid_name n; cache_ok K b {}\<rbrakk> \<Longrightarrow> \<exists>b'. WriteName n b = Inr b' \<and> cache_ok (Suc K) b' {}"
  using WriteName_correct [of n K b "{}"] by (auto simp: valid_name_def wrote_name_def)

lemma WriteQuestion_ok:
  "\<lbrakk>valid_Question q; cache_ok K b {}\<rbrakk> \<Longrightarrow> \<exists>b'. WriteQuestion q b = Inr b' \<and> cache_ok (Suc K) b' {}"
  using WriteName_ok [of "q_Name q" K b] by (auto simp: WriteQuestion_def valid_Question_def)

lemma WriteRR_ok:
  "\<lbrakk>valid_RR x; cache_ok K b {}\<rbrakk> \<Longrightarrow> \<exists>b'. WriteRR x b = Inr b' \<and> cache_ok (Suc K) b' {}"
  using WriteName_ok [of "rr_Name x" K b] by (auto simp: WriteRR_def valid_RR_def Let_def)

lemma write_sections_ok:
  "\<lbrakk>list_all valid_Question qs; cache_ok K b {}\<rbrakk> \<Longrightarrow>
     \<exists>b' K'. write_each WriteQuestion qs b = Inr b' \<and> cache_ok K' b' {}"
  "\<lbrakk>list_all valid_RR rrs; cache_ok K b {}\<rbrakk> \<Longrightarrow>
     \<exists>b' K'. write_each WriteRR rrs b = Inr b' \<and> cache_ok K' b' {}"
  using write_each_ok [where ok = valid_Question and wr = WriteQuestion] WriteQuestion_ok
    write_each_ok [where ok = valid_RR and wr = WriteRR] WriteRR_ok by blast+

lemma WireFormat_ok:
  assumes "valid_message m" and "counts_fit m"
  shows "\<exists>buf. WireFormat m = Inr buf"
proof -
  obtain b0 where b0: "write_each WriteCount [length (msg_Question m), length (msg_Answer m),
      length (msg_Authority m), length (msg_Additional m)]
      (builder_Write (be16 (msg_ID m) @ be16 (msg_Flags m)) newMessageBuilder) = Inr b0"
    and c0: "cache_ok 0 b0 {}"
    using assms(2) by (auto simp: counts_fit_def WriteCount_ok)
  obtain b1 K where "write_each WriteQuestion (msg_Question m) b0 = Inr b1" "cache_ok K b1 {}"
    using write_sections_ok(1) [OF _ c0, of "msg_Question m"] assms(1)
    by (auto simp: valid_message_def)
  moreover from this(2) obtain b2 where
    "write_each WriteRR (msg_Answer m @ msg_Authority m @ msg_Additional m) b1 = Inr b2"
    using write_sections_ok(2) [of "msg_Answer m @ msg_Authority m @ msg_Additional m"] assms(1)
    by (auto simp: valid_message_def)
  ultimately show ?thesis unfolding WireFormat_def WriteMessage_def b0 by simp
qed

section \<open>Nested names need one pointer more each\<close>

text \<open>
  When a message holds a name and then, again and again, the same name with one label more in
  front, every name is written as its first label and a pointer to the name before it, so the
  \<open>n\<close>-th name is read through \<open>n - 1\<close> pointers.
\<close>

fun nested :: "Name \<Rightarrow> Name list" where
  "nested [] = []"
| "nested (l # ls) = nested ls @ [l # ls]"

definition TXT_question :: "Name \<Rightarrow> Question" where
  "TXT_question name = \<lparr>q_Name = name, q_Type = RRTypeTXT, q_Class = ClassIN\<rparr>"

definition nested_message :: "Name \<Rightarrow> Message" where
  "nested_message ls = \<lparr>msg_ID = 0, msg_Flags = 0, msg_Question = map TXT_question (nested ls),
     msg_Answer = [], msg_Authority = [], msg_Additional = []\<rparr>"

lemma length_nested [simp]: "length (nested ls) = length ls"
  by (induction ls) simp_all

lemma name_octets_Cons: "name_octets (l # ls) = name_octets ls + Suc (length l)"
  by (simp add: name_octets_def)

lemma valid_name_tl: "valid_name (l # ls) \<Longrightarrow> valid_name ls"
  by (auto simp: valid_name_def name_octets_Cons)

lemma nested_valid: "valid_name ls \<Longrightarrow> n \<in> set (nested ls) \<Longrightarrow> valid_name n"
  by (induction ls) (auto dest: valid_name_tl)

lemma write_each_append:
  "write_each f (xs @ ys) b = bindE (write_each f xs b) (write_each f ys)"
  by (induction xs arbitrary: b) (auto simp: bindE_def split: sum.splits)

text \<open>The first \<open>k\<close> names were written, the last of them with \<open>k - 1\<close> pointers.\<close>

definition chained :: "messageBuilder \<Rightarrow> Name \<Rightarrow> bool" where
  "chained b ls \<longleftrightarrow>
     (\<forall>n. list_all valid_label n \<longrightarrow> length ls < length n \<longrightarrow> builder_nameCache b (Name_String n) = None) \<and>
     (ls \<noteq> [] \<longrightarrow> (\<exists>p e. builder_nameCache b (Name_String ls) = Some p \<and> p < 0x4000 \<and>
                       enc_at (builder_w b) p (length ls - 1) ls e))"

lemma WriteQuestion_chained:
  assumes valid: "valid_name (l # ls)" and "chained b ls" and len: "length (builder_w b) < 0x4000"
  shows "\<exists>b' s. WriteQuestion (TXT_question (l # ls)) b = Inr b' \<and> chained b' (l # ls) \<and>
            builder_w b' = builder_w b @ s \<and> length s \<le> 70 \<and>
            (\<exists>e. enc_at (builder_w b') (length (builder_w b)) (length ls) (l # ls) e)"
proof -
  have vl: "valid_label l" and vls: "list_all valid_label ls" using valid by (simp_all add: valid_name_def)
  have none: "builder_nameCache b (Name_String (l # ls)) = None"
    using assms(2) vl vls unfolding chained_def by simp
  let ?hd = "of_nat (length l) # l" and ?n = "length (builder_w b)"
  let ?c = "(builder_nameCache b)(Name_String (l # ls) \<mapsto> ?n)"
  have keys: "?c (Name_String n) = None"
    if "list_all valid_label n" "length (l # ls) < length n" for n
  proof -
    have "[] \<notin> set n" "[] \<notin> set (l # ls)"
      using that vl vls list_all_valid_no_Nil [of "l # ls"] list_all_valid_no_Nil [of n] by auto
    then have "Name_String n \<noteq> Name_String (l # ls)" using that(2) Name_String_inj [of n "l # ls"] by auto
    then show ?thesis using that assms(2) unfolding chained_def by simp
  qed
  have chained': "chained b' (l # ls)"
    if c: "builder_nameCache b' = ?c" and enc: "enc_at (builder_w b') ?n (length ls) (l # ls) e" for b' e
    unfolding chained_def c
  proof (intro conjI impI allI keys)
    show "\<exists>p e. ?c (Name_String (l # ls)) = Some p \<and> p < 0x4000 \<and>
                enc_at (builder_w b') p (length (l # ls) - 1) (l # ls) e"
      using enc len by auto
  qed
  let ?q = "be16 RRTypeTXT @ be16 ClassIN"
  show ?thesis
  proof (cases ls)
    case Nil
    let ?b = "\<lparr>builder_w = builder_w b @ ?hd @ [0] @ ?q, builder_nameCache = ?c\<rparr>"
    have "WriteQuestion (TXT_question (l # ls)) b = Inr ?b"
      using none vl Nil by (simp add: WriteQuestion_def TXT_question_def cachedPtr_def valid_label_def
          Let_def builder_Write_def)
    moreover have enc: "enc_at (builder_w ?b) ?n 0 [l] (?n + 1 + length l + 1)"
    proof (rule enc_at.label [where rest = "0 # ?q"])
      have "drop (?n + 1 + length l) (builder_w ?b) = 0 # ?q" by simp
      then show "enc_at (builder_w ?b) (?n + 1 + length l) 0 [] (?n + 1 + length l + 1)"
        by (rule enc_at.root)
    qed (use vl in simp_all)
    moreover from enc have "chained ?b (l # ls)" by (intro chained') (simp_all add: Nil)
    ultimately show ?thesis using vl Nil by (auto simp: valid_label_def)
  next
    case (Cons l' ls')
    then obtain p e where p: "builder_nameCache b (Name_String ls) = Some p" "p < 0x4000"
      "enc_at (builder_w b) p (length ls - 1) ls e" using assms(2) unfolding chained_def by auto
    let ?ptr = "be16 (0xc000 OR of_nat p)"
    let ?b = "\<lparr>builder_w = builder_w b @ ?hd @ ?ptr @ ?q, builder_nameCache = ?c\<rparr>"
    have neq: "Name_String ls \<noteq> Name_String (l # ls)"
      using Name_String_suffix_neq [of l ls 0] vl vls by simp
    have "cachedPtr b (l # ls) = None" using none by (simp add: cachedPtr_def)
    moreover have "cachedPtr (builder_Write ?hd (b\<lparr>builder_nameCache := ?c\<rparr>)) ls = Some p"
      using p neq by (simp add: cachedPtr_eq_Some)
    ultimately have "WriteQuestion (TXT_question (l # ls)) b = Inr ?b"
      using vl Cons by (simp add: WriteQuestion_def TXT_question_def valid_label_def Let_def
          builder_Write_def)
    moreover have enc: "enc_at (builder_w ?b) ?n (length ls) (l # ls) (?n + 1 + length l + 2)"
    proof (rule enc_at.label [where rest = "?ptr @ ?q"])
      have "enc_at (builder_w ?b) p (length ls - 1) ls e" using enc_at_append [OF p(3)] by simp
      then have "enc_at (builder_w ?b) (?n + 1 + length l) (Suc (length ls - 1)) ls (?n + 1 + length l + 2)"
        by (intro enc_at.pointer [where rest = ?q and p = p] p(2)) simp_all
      then show "enc_at (builder_w ?b) (?n + 1 + length l) (length ls) ls (?n + 1 + length l + 2)"
        using Cons by simp
    qed (use vl in simp_all)
    moreover from enc have "chained ?b (l # ls)" by (intro chained') simp_all
    ultimately show ?thesis using vl by (auto simp: valid_label_def)
  qed
qed

lemma write_nested:
  assumes "valid_name ls" and "chained b []" and "length (builder_w b) + 70 * length ls < 0x4000"
  shows "\<exists>b'. write_each WriteQuestion (map TXT_question (nested ls)) b = Inr b' \<and> chained b' ls \<and>
              length (builder_w b') \<le> length (builder_w b) + 70 * length ls"
  using assms
proof (induction ls)
  case Nil
  then show ?case by auto
next
  case (Cons l ls)
  then obtain b1 where b1: "write_each WriteQuestion (map TXT_question (nested ls)) b = Inr b1"
    "chained b1 ls" "length (builder_w b1) \<le> length (builder_w b) + 70 * length ls"
    by (auto dest: valid_name_tl)
  from WriteQuestion_chained [OF Cons.prems(1) b1(2)] b1(3) Cons.prems(3)
  obtain b2 s where "WriteQuestion (TXT_question (l # ls)) b1 = Inr b2" "chained b2 (l # ls)"
    "builder_w b2 = builder_w b1 @ s" "length s \<le> 70" by auto
  with b1 show ?case by (auto simp: write_each_append)
qed

lemma readName_loop_too_many:
  assumes "enc_at buf pos d name e" and "n + d > compressionPointerLimit"
    and "n \<le> compressionPointerLimit"
  shows "readName_loop labels n seekTo \<lparr>r_buf = buf, r_pos = pos\<rparr> = Inl ErrTooManyPointers"
  using assms
proof (induction arbitrary: labels n seekTo rule: enc_at.induct)
  case (root pos buf rest)
  then show ?case by simp
next
  case (label pos buf l rest d ls e)
  from label.hyps(2) have l: "length l \<le> 63" "l \<noteq> []" by (simp_all add: valid_label_def)
  from r_ReadFull_at [OF drop_Suc_at [OF label.hyps(1)], of "length l"]
  have rf: "r_ReadFull (length l) \<lparr>r_buf = buf, r_pos = Suc pos\<rparr> =
            Inr (l, \<lparr>r_buf = buf, r_pos = pos + 1 + length l\<rparr>)" by simp
  from label.IH [OF label.prems, of "labels @ [l]" seekTo] show ?case
    by (subst readName_loop.simps) (simp add: r_read_u8_at [OF label.hyps(1)]
        label_type_bits [OF l(1)] rf l)
next
  case (pointer pos buf p rest d name e')
  obtain hi lo where be: "be16 (0xc000 OR of_nat p) = [hi, lo]" and hi: "hi AND 0xc0 = 0xc0"
    and off: "push_bit 8 (ucast (hi AND 0x3f) :: u16) OR ucast lo = of_nat p"
    using pointer_bits [OF pointer.hyps(2)] by (simp add: be16_def)
  have d0: "drop pos buf = hi # lo # rest" using pointer.hyps(1) be by simp
  have "unat (of_nat p :: u16) = p" using pointer.hyps(2) by simp
  with pointer.IH [of "Suc n" labels "if n = 0 then Suc (Suc pos) else seekTo"] pointer.prems
  show ?case
    by (subst readName_loop.simps, cases "n = 0") (simp_all add: r_read_u8_at [OF d0] hi off
        r_read_u8_at [OF drop_Suc_at [OF d0]] r_Seek_def Let_def)
qed

lemma read_each_append_error:
  assumes "read_each f (length xs) r = Inr (xs, r')" and "f r' = Inl e"
  shows "read_each f (Suc (length xs)) r = Inl e"
  using assms
  by (induction xs arbitrary: r) (fastforce simp: result_simps split: prod.splits)+

lemma nested_12_written:
  assumes "valid_name (l # ls)" and "length ls = Suc compressionPointerLimit"
  shows "\<exists>buf. WireFormat (nested_message (l # ls)) = Inr buf \<and>
               MessageFromWireFormat buf = Inl ErrTooManyPointers"
proof -
  let ?qs = "map TXT_question (nested ls)"
  let ?q = "TXT_question (l # ls)"
  let ?n = "length ls"
  let ?hdr = "be16 0 @ be16 0 @ be16 (of_nat (Suc ?n)) @ be16 0 @ be16 0 @ be16 0"
  let ?b0 = "builder_Write ?hdr newMessageBuilder"
  have n: "?n = 11" using assms(2) by (simp add: compressionPointerLimit_def)
  have c0: "cache_ok 0 ?b0 {}" and ch0: "chained ?b0 []" by (simp_all add: chained_def)
  have v: "list_all valid_Question ?qs"
    using nested_valid [OF valid_name_tl [OF assms(1)]]
    by (auto simp: list_all_iff valid_Question_def TXT_question_def)
  obtain b1 where b1: "write_each WriteQuestion ?qs ?b0 = Inr b1" "chained b1 ls"
    "length (builder_w b1) \<le> length (builder_w ?b0) + 70 * ?n"
    using write_nested [OF valid_name_tl [OF assms(1)] ch0] n by auto
  obtain b1' where b1': "write_each WriteQuestion ?qs ?b0 = Inr b1'"
    "writes_entry (read_each readQuestion (length ?qs)) (0 + length ?qs) ?qs ?b0 b1'"
    using question.section_roundtrip [OF v c0] assms(2) by auto
  with b1(1) obtain s1 where s1: "builder_w b1 = ?hdr @ s1"
    and r1: "\<And>rest. read_each readQuestion ?n (reader_at ?hdr (s1 @ rest)) =
                    Inr (?qs, reader_at (builder_w b1) rest)"
    by (auto elim!: writes_entryE)
  obtain b2 s2 e where b2: "WriteQuestion ?q b1 = Inr b2" "builder_w b2 = builder_w b1 @ s2"
    and enc: "enc_at (builder_w b2) (length (builder_w b1)) ?n (l # ls) e"
    using WriteQuestion_chained [OF assms(1) b1(2)] b1(3) n by auto
  have "readQuestion (reader_at (builder_w b1) s2) = Inl ErrTooManyPointers"
    using readName_loop_too_many [OF enc, of 0] b2(2) assms(2)
    by (simp add: readQuestion_def readName_def reader_at_def)
  with r1 [of s2]
  have "read_each readQuestion (Suc ?n) (reader_at ?hdr (s1 @ s2)) = Inl ErrTooManyPointers"
    using read_each_append_error [of readQuestion ?qs] by simp
  moreover have "\<lparr>r_buf = builder_w b2, r_pos = 0\<rparr> = reader_at [] (?hdr @ s1 @ s2)"
    by (simp add: reader_at_def s1 b2(2))
  ultimately have "readMessage \<lparr>r_buf = builder_w b2, r_pos = 0\<rparr> = Inl ErrTooManyPointers"
    using n by (simp add: readMessage_def)
  moreover have "WireFormat (nested_message (l # ls)) = Inr (builder_w b2)"
    using b1(1) b2(1) n
    by (simp add: WireFormat_def WriteMessage_def nested_message_def WriteCount_ok write_each_append
        builder_Write_def)
  ultimately show ?thesis by (simp add: MessageFromWireFormat_def unexpected_def)
qed

section \<open>The fuzzing driver\<close>

definition Fuzz :: "bytes \<Rightarrow> err + int" where
  "Fuzz data =
     (case MessageFromWireFormat data of
        Inl err \<Rightarrow> Inr 0
      | Inr msg \<Rightarrow> (case WireFormat msg of Inl err \<Rightarrow> Inl Panic | Inr _ \<Rightarrow> Inr 1))"

lemma Fuzz_result: "Fuzz data = Inr 0 \<or> Fuzz data = Inr 1"
proof (cases "MessageFromWireFormat data")
  case (Inr m)
  with MessageFromWireFormat_valid [OF Inr] obtain buf where "WireFormat m = Inr buf"
    using WireFormat_ok by blast
  with Inr show ?thesis by (simp add: Fuzz_def)
qed (simp add: Fuzz_def)

section \<open>Textual names\<close>

text \<open>A host name: every octet of every label is a letter, a digit or a hyphen.\<close>

definition host_name :: "Name \<Rightarrow> bool" where
  "host_name name = list_all (list_all isNameChar) name"

lemma escape_label_host: "list_all isNameChar l \<Longrightarrow> escape_label l = l"
  by (induction l) (simp_all add: escape_label_def escape_byte_def)

lemma dot_not_NameChar [simp]: "\<not> isNameChar 46"
  by (simp add: isNameChar_def)

lemma host_no_dot: "list_all isNameChar l \<Longrightarrow> 46 \<notin> set l"
  by (auto simp: list_all_iff)

lemma splitOn_labels_String:
  "host_name name \<Longrightarrow> name \<noteq> [] \<Longrightarrow> splitOn 46 (Name_labels_String name) = name"
  by (induction name rule: Name_labels_String.induct)
    (simp_all add: host_name_def escape_label_host host_no_dot splitOn_no_sep splitOn_append)

lemma last_labels_String:
  "host_name name \<Longrightarrow> name \<noteq> [] \<Longrightarrow> [] \<notin> set name \<Longrightarrow>
     Name_labels_String name \<noteq> [] \<and> last (Name_labels_String name) \<noteq> 46"
proof (induction name rule: Name_labels_String.induct)
  case (2 l)
  then have "46 \<notin> set l" and "l \<noteq> []" and "escape_label l = l"
    by (auto simp: host_name_def host_no_dot escape_label_host)
  moreover from this have "last l \<noteq> 46" using last_in_set [of l] by metis
  ultimately show ?case by simp
qed (simp_all add: host_name_def)

lemma ParseName_String:
  assumes "valid_name name" and "host_name name"
  shows "ParseName (Name_String name) = Inr name"
proof (cases "name = []")
  case True
  then show ?thesis using assms by (simp add: ParseName_def Name_String_def trimSuffixByte_def)
next
  case False
  have "[] \<notin> set name" using assms(1) list_all_valid_no_Nil by (auto simp: valid_name_def)
  from last_labels_String [OF assms(2) False this] show ?thesis
    using False assms splitOn_labels_String [OF assms(2) False]
    by (simp add: ParseName_def Name_String_def trimSuffixByte_def Let_def)
qed

section \<open>Properties of package dns\<close>

text \<open>The name that \<open>NewName\<close> makes of some labels, from the RFC's limits alone.\<close>

definition NewName_spec :: "Name \<Rightarrow> err + Name" where
  "NewName_spec ls =
     (case find (\<lambda>l. \<not> valid_label l) ls of
        Some l \<Rightarrow> Inl (if l = [] then ErrZeroLengthLabel else ErrLabelTooLong)
      | None \<Rightarrow> if name_octets ls \<le> 255 then Inr ls else Inl ErrNameTooLong)"

lemma checkLabels_find:
  "checkLabels ls = (case find (\<lambda>l. \<not> valid_label l) ls of
     Some l \<Rightarrow> Inl (if l = [] then ErrZeroLengthLabel else ErrLabelTooLong) | None \<Rightarrow> Inr ())"
  by (induction ls) (auto simp: valid_label_def)

lemma NewName_eq_spec: "NewName ls = NewName_spec ls"
proof (cases "list_all valid_label ls")
  case True
  then have "find (\<lambda>l. \<not> valid_label l) ls = None" by (auto simp: find_None_iff list_all_iff)
  with WriteName_fresh [OF True] show ?thesis
    by (auto simp: NewName_def NewName_spec_def checkLabels_find)
next
  case False
  then obtain l where "find (\<lambda>l. \<not> valid_label l) ls = Some l"
    by (cases "find (\<lambda>l. \<not> valid_label l) ls") (auto simp: find_None_iff list_all_iff)
  then show ?thesis by (simp add: NewName_def NewName_spec_def checkLabels_find)
qed

text \<open>
  C1: Every valid DNS message with at most 11 entries in its four sections is serialized by
  \<open>WireFormat\<close>, and \<open>MessageFromWireFormat\<close> parses the bytes back to the same message,
  name compression included.  Eleven is one more than the parser's limit on compression pointers,
  so no name can go through too many of them.
\<close>

theorem wire_roundtrip:
  assumes "valid_message m" and "entries m \<le> Suc compressionPointerLimit"
  shows "\<exists>buf. WireFormat m = Inr buf \<and> MessageFromWireFormat buf = Inr m"
  by (rule message_roundtrip [OF assms])

theorem wire_roundtrip_witness:
  "\<exists>buf. WireFormat (nested_message [[97], [98], [99]]) = Inr buf \<and>
         MessageFromWireFormat buf = Inr (nested_message [[97], [98], [99]])"
  by (rule wire_roundtrip)
    (simp_all add: nested_message_def valid_message_def entries_def valid_Question_def TXT_question_def
      valid_name_def valid_label_def name_octets_def compressionPointerLimit_def)

text \<open>
  C2: The eleven of the previous property is sharp.  \<open>WireFormat\<close> writes any message of twelve
  questions whose names are the successive parents of one another, but each name is a pointer to
  the one before it, and \<open>MessageFromWireFormat\<close> refuses those bytes with
  \<open>ErrTooManyPointers\<close>: the writer has no bound that matches the reader's.
\<close>

theorem nested_names_refused:
  assumes "valid_name (l # ls)" and "length ls = Suc compressionPointerLimit"
  shows "\<exists>buf. WireFormat (nested_message (l # ls)) = Inr buf \<and>
               MessageFromWireFormat buf = Inl ErrTooManyPointers"
  by (rule nested_12_written [OF assms])

theorem nested_names_refused_witness:
  "\<exists>buf. WireFormat (nested_message ([97] # replicate 11 [98])) = Inr buf \<and>
         MessageFromWireFormat buf = Inl ErrTooManyPointers"
  by (rule nested_names_refused)
    (simp_all add: valid_name_def valid_label_def name_octets_def compressionPointerLimit_def
      sum_list_replicate list_all_iff)

text \<open>
  C3: The assertion of the fuzzing driver holds for every input: what the parser accepts can be
  serialized again, so \<open>Fuzz\<close> returns 0 or 1 and never panics.
\<close>

theorem Fuzz_never_panics: "Fuzz data = Inr 0 \<or> Fuzz data = Inr 1"
  by (rule Fuzz_result)

text \<open>
  C4: On every byte string the parser returns, without a panic and never with a plain
  \<open>io.EOF\<close>; when it succeeds, every name of the message has labels of 1 to 63 octets and at most
  255 octets in all, and every RDATA fits a 16-bit length.
\<close>

theorem parser_total:
  "case MessageFromWireFormat buf of
     Inl e \<Rightarrow> e \<noteq> Panic \<and> e \<noteq> EOF
   | Inr m \<Rightarrow> valid_message m \<and> counts_fit m"
  using MessageFromWireFormat_errors [of buf] MessageFromWireFormat_valid [of buf]
  by (auto split: sum.splits)

text \<open>
  C5: \<open>NewName\<close> accepts exactly the names within the limits of RFC 1035 and otherwise returns
  the error of the first bad label, or \<open>ErrNameTooLong\<close>; the length it measures by writing the
  name through the compressing builder is the length of the uncompressed name.
\<close>

theorem NewName_exact: "NewName ls = NewName_spec ls"
  by (rule NewName_eq_spec)

text \<open>
  The textual form identifies a name: two names without empty labels have the same
  \<open>String\<close> only if they are the same list of labels.  The builder's cache is keyed by it.
\<close>

theorem Name_String_identifies:
  assumes "[] \<notin> set a" and "[] \<notin> set b"
  shows "Name_String a = Name_String b \<longleftrightarrow> a = b"
  using Name_String_inj [OF _ assms] by blast

theorem Name_String_identifies_witness:
  "Name_String [[97, 46], [98]] \<noteq> Name_String [[97], [46, 98]]"
  using Name_String_identifies [of "[[97, 46], [98]]" "[[97], [46, 98]]"] by simp

text \<open>
  A valid name of letters, digits and hyphens (the root included) is parsed back from its
  textual form by \<open>ParseName\<close>.
\<close>

theorem ParseName_roundtrip:
  assumes "valid_name name" and "host_name name"
  shows "ParseName (Name_String name) = Inr name"
  by (rule ParseName_String [OF assms])

theorem ParseName_roundtrip_witness: "ParseName (Name_String [[116], [101, 120]]) = Inr [[116], [101, 120]]"
  by (rule ParseName_roundtrip)
    (simp_all add: valid_name_def valid_label_def name_octets_def host_name_def isNameChar_def)

end
