(* ===== verification/DnsTxt.thy ===== *)
theory DnsTxt
  imports GoStd
begin

text \<open>
  TXT record data (\<open>EncodeRDataTXT\<close> and \<open>DecodeRDataTXT\<close> of \<open>src/dns/dns.go\<close>): a
  sequence of one or more character strings, each a length octet and that many octets.
\<close>

function EncodeRDataTXT :: "bytes \<Rightarrow> bytes" where
  "EncodeRDataTXT p =
     (if length p > 255 then 255 # take 255 p @ EncodeRDataTXT (drop 255 p)
      else of_nat (length p) # p)"
  by pat_completeness auto
termination
  by (relation "measure length") auto

function DecodeRDataTXT :: "bytes \<Rightarrow> err + bytes" where
  "DecodeRDataTXT [] = Inl ErrUnexpectedEOF"
| "DecodeRDataTXT (c # p) =
     (let n = unat c in
      if length p < n then Inl ErrUnexpectedEOF
      else if drop n p = [] then Inr (take n p)
      else bindE (DecodeRDataTXT (drop n p)) (\<lambda>rest. Inr (take n p @ rest)))"
  by pat_completeness auto
termination
  by (relation "measure length") auto

declare EncodeRDataTXT.simps [simp del]

lemma EncodeRDataTXT_not_Nil: "EncodeRDataTXT p \<noteq> []"
  by (subst EncodeRDataTXT.simps) simp

lemma DecodeRDataTXT_Encode: "DecodeRDataTXT (EncodeRDataTXT p) = Inr p"
proof (induction p rule: EncodeRDataTXT.induct)
  case (1 p)
  show ?case
  proof (cases "length p > 255")
    case True
    with 1 show ?thesis
      by (subst EncodeRDataTXT.simps) (simp add: Let_def EncodeRDataTXT_not_Nil)
  next
    case False
    then show ?thesis by (subst EncodeRDataTXT.simps) (simp add: Let_def)
  qed
qed

text \<open>One octet per started group of 255 octets, and at least one.\<close>

lemma length_EncodeRDataTXT:
  "length (EncodeRDataTXT p) = length p + max 1 ((length p + 254) div 255)"
proof (induction p rule: EncodeRDataTXT.induct)
  case (1 p)
  show ?case
  proof (cases "length p > 255")
    case True
    then obtain n where "length p = n + 255" and "0 < n"
      by (metis add.commute less_imp_add_positive)
    with 1 True show ?thesis by (subst EncodeRDataTXT.simps) simp
  next
    case False
    then have "(length p + 254) div 255 \<le> 1" by simp
    with False show ?thesis by (subst EncodeRDataTXT.simps) simp
  qed
qed

lemma length_EncodeRDataTXT_mono:
  "length p \<le> length q \<Longrightarrow> length (EncodeRDataTXT p) \<le> length (EncodeRDataTXT q)"
  unfolding length_EncodeRDataTXT
  by (intro add_mono max.mono div_le_mono) auto

section \<open>Properties\<close>

text \<open>
  TXT record data carries any payload: decoding the encoding gives the payload back, whatever
  its length (the empty payload is one empty character string).
\<close>

theorem TXT_roundtrip: "DecodeRDataTXT (EncodeRDataTXT p) = Inr p"
  by (rule DecodeRDataTXT_Encode)

end
