(* ===== verification/Base32.thy ===== *)
theory Base32
  imports GoStd
begin

text \<open>
  Go's \<open>base32.StdEncoding.WithPadding(base32.NoPadding)\<close>, which carries the upstream data in
  DNS labels.  The encoder turns each group of five bytes into eight characters of
  \<open>A..Z2..7\<close> and a final group of one to four bytes into two, four, five or seven.  The
  decoder drops line breaks, reads groups of eight characters, and rejects a character outside the
  alphabet; like Go's it compares with \<open>byte(NoPadding)\<close>, that is \<open>0xff\<close>, as a padding
  character.
\<close>

definition b32_char :: "byte \<Rightarrow> byte" where
  "b32_char v = (if v < 26 then 65 + v else 24 + v)"

definition b32_value :: "byte \<Rightarrow> byte option" where
  "b32_value c =
     (if 65 \<le> c \<and> c \<le> 90 then Some (c - 65)
      else if 50 \<le> c \<and> c \<le> 55 then Some (c - 24)
      else None)"

text \<open>The eight five-bit values of a group of five bytes.\<close>

definition b32_split :: "byte \<Rightarrow> byte \<Rightarrow> byte \<Rightarrow> byte \<Rightarrow> byte \<Rightarrow> byte list" where
  "b32_split a b c d e =
     [drop_bit 3 a,
      take_bit 5 (push_bit 2 a OR drop_bit 6 b),
      take_bit 5 (drop_bit 1 b),
      take_bit 5 (push_bit 4 b OR drop_bit 4 c),
      take_bit 5 (push_bit 1 c OR drop_bit 7 d),
      take_bit 5 (drop_bit 2 d),
      take_bit 5 (push_bit 3 d OR drop_bit 5 e),
      take_bit 5 e]"

fun b32_values :: "bytes \<Rightarrow> byte list" where
  "b32_values [] = []"
| "b32_values [a] = take 2 (b32_split a 0 0 0 0)"
| "b32_values [a, b] = take 4 (b32_split a b 0 0 0)"
| "b32_values [a, b, c] = take 5 (b32_split a b c 0 0)"
| "b32_values [a, b, c, d] = take 7 (b32_split a b c d 0)"
| "b32_values (a # b # c # d # e # r) = b32_split a b c d e @ b32_values r"

definition b32_encode :: "bytes \<Rightarrow> bytes" where
  "b32_encode s = map b32_char (b32_values s)"

text \<open>
  The bytes of a group of \<open>dlen\<close> values.  A group of one, three or six values gives none
  (the \<open>switch\<close> of Go's decoder has no case for them).
\<close>

fun b32_pack :: "byte list \<Rightarrow> bytes" where
  "b32_pack [v0, v1] = [push_bit 3 v0 OR drop_bit 2 v1]"
| "b32_pack [v0, v1, v2, v3] = b32_pack [v0, v1] @ [push_bit 6 v1 OR push_bit 1 v2 OR drop_bit 4 v3]"
| "b32_pack [v0, v1, v2, v3, v4] = b32_pack [v0, v1, v2, v3] @ [push_bit 4 v3 OR drop_bit 1 v4]"
| "b32_pack [v0, v1, v2, v3, v4, v5, v6] =
     b32_pack [v0, v1, v2, v3, v4] @ [push_bit 7 v4 OR push_bit 2 v5 OR drop_bit 3 v6]"
| "b32_pack [v0, v1, v2, v3, v4, v5, v6, v7] =
     b32_pack [v0, v1, v2, v3, v4, v5, v6] @ [push_bit 5 v6 OR v7]"
| "b32_pack _ = []"

text \<open>
  One group: the values read so far are \<open>dbuf\<close>; the result is the values of the group, the
  rest of the input and whether the input has ended.
\<close>

fun b32_group :: "byte list \<Rightarrow> bytes \<Rightarrow> (byte list \<times> bytes \<times> bool) option" where
  "b32_group dbuf [] = (if length dbuf = 8 then Some (dbuf, [], False) else Some (dbuf, [], True))"
| "b32_group dbuf (c # src) =
     (if length dbuf = 8 then Some (dbuf, c # src, False)
      else if c = 0xff \<and> 2 \<le> length dbuf \<and> length src < 8 then
        (if length src + length dbuf < 7 then None
         else if list_ex (\<lambda>x. x \<noteq> 0xff) (take (7 - length dbuf) src) then None
         else if length dbuf = 3 \<or> length dbuf = 6 then None
         else Some (dbuf, src, True))
      else (case b32_value c of None \<Rightarrow> None | Some v \<Rightarrow> b32_group (dbuf @ [v]) src))"

lemma b32_group_length:
  "b32_group dbuf src = Some (vs, rest, fin) \<Longrightarrow> length dbuf \<le> 8 \<Longrightarrow>
     length rest + length vs \<le> length src + length dbuf \<and> (\<not> fin \<longrightarrow> length vs = 8)"
  by (induction dbuf src rule: b32_group.induct) (auto split: if_splits option.splits)

function b32_groups :: "bytes \<Rightarrow> bytes option" where
  "b32_groups src =
     (if src = [] then Some []
      else (case b32_group [] src of
              None \<Rightarrow> None
            | Some (vs, rest, fin) \<Rightarrow>
                if fin then Some (b32_pack vs)
                else map_option ((@) (b32_pack vs)) (b32_groups rest)))"
  by pat_completeness auto
termination
proof (relation "measure length", goal_cases)
  case 1
  show ?case by simp
next
  case (2 src x vs y rest fin)
  then show ?case using b32_group_length [of "[]" src vs rest fin] by auto
qed

declare b32_groups.simps [simp del]

definition b32_decode :: "bytes \<Rightarrow> bytes option" where
  "b32_decode src = b32_groups (filter (\<lambda>c. c \<noteq> 13 \<and> c \<noteq> 10) src)"

section \<open>Round trip\<close>

lemma below_32:
  assumes "\<forall>n\<in>set [0..<32]. P (of_nat n :: byte)" and "v < 32"
  shows "P v"
proof -
  have "unat v < 32" using assms(2) by (simp add: word_less_nat_alt)
  then have "unat v \<in> set [0..<32]" by simp
  from bspec [OF assms(1) this] show ?thesis by simp
qed

lemma b32_char_facts:
  assumes "v < 32"
  shows "b32_value (b32_char v) = Some v" and "b32_char v \<noteq> 0xff" and "b32_char v \<noteq> 13"
    and "b32_char v \<noteq> 10"
proof -
  have "\<forall>n\<in>set [0..<32]. b32_value (b32_char (of_nat n)) = Some (of_nat n) \<and>
    b32_char (of_nat n) \<noteq> 0xff \<and> b32_char (of_nat n) \<noteq> 13 \<and> b32_char (of_nat n) \<noteq> 10"
    by code_simp
  from below_32 [OF this assms]
  show "b32_value (b32_char v) = Some v" and "b32_char v \<noteq> 0xff" and "b32_char v \<noteq> 13"
    and "b32_char v \<noteq> 10" by simp_all
qed

lemma take_bit_5_lt: "take_bit 5 (v :: byte) < 32"
  by (simp add: word_less_nat_alt unat_mod take_bit_eq_mod)

lemma drop_bit_3_lt: "drop_bit 3 (v :: byte) < 32"
proof -
  have "unat (drop_bit 3 v) = unat v div 8" by (simp add: drop_bit_eq_div unat_div)
  moreover have "unat v div 8 < 32" using unat_byte_lt [of v] by linarith
  ultimately show ?thesis by (simp add: word_less_nat_alt)
qed

lemma b32_split_lt: "list_all (\<lambda>v. v < 32) (b32_split a b c d e)"
  unfolding b32_split_def list.pred_inject
  by (intro conjI take_bit_5_lt drop_bit_3_lt list.pred_inject(1))

lemma list_all_take: "list_all P xs \<Longrightarrow> list_all P (take n xs)"
  by (auto simp: list_all_iff dest: in_set_takeD)

lemma b32_values_lt: "list_all (\<lambda>v. v < 32) (b32_values s)"
  by (induction s rule: b32_values.induct)
    (simp_all only: b32_values.simps list_all_append list_all_take b32_split_lt list.pred_inject simp_thms)

lemma b32_pack_split_bits:
  "push_bit 3 (drop_bit 3 a) OR drop_bit 2 (take_bit 5 (push_bit 2 a OR drop_bit 6 b)) = (a :: byte)"
  "push_bit 6 (take_bit 5 (push_bit 2 a OR drop_bit 6 b)) OR push_bit 1 (take_bit 5 (drop_bit 1 b)) OR
     drop_bit 4 (take_bit 5 (push_bit 4 b OR drop_bit 4 c)) = (b :: byte)"
  "push_bit 4 (take_bit 5 (push_bit 4 b OR drop_bit 4 c)) OR
     drop_bit 1 (take_bit 5 (push_bit 1 c OR drop_bit 7 d)) = (c :: byte)"
  "push_bit 7 (take_bit 5 (push_bit 1 c OR drop_bit 7 d)) OR push_bit 2 (take_bit 5 (drop_bit 2 d)) OR
     drop_bit 3 (take_bit 5 (push_bit 3 d OR drop_bit 5 e)) = (d :: byte)"
  "push_bit 5 (take_bit 5 (push_bit 3 d OR drop_bit 5 e)) OR take_bit 5 e = (e :: byte)"
proof -
  have eight: "n < LENGTH(8) \<longleftrightarrow> n \<in> {0, 1, 2, 3, 4, 5, 6, 7}" for n by auto
  have none: "\<not> bit v 8" "\<not> bit v 9" "\<not> bit v 10" "\<not> bit v 11" for v :: byte
    by (auto dest: bit_imp_le_length)
  show "push_bit 3 (drop_bit 3 a) OR drop_bit 2 (take_bit 5 (push_bit 2 a OR drop_bit 6 b)) = a"
    by (rule bit_word_eqI, simp only: eight bit_simps comp_def, elim insertE emptyE) (simp_all add: none)
  show "push_bit 6 (take_bit 5 (push_bit 2 a OR drop_bit 6 b)) OR push_bit 1 (take_bit 5 (drop_bit 1 b)) OR
     drop_bit 4 (take_bit 5 (push_bit 4 b OR drop_bit 4 c)) = b"
    by (rule bit_word_eqI, simp only: eight bit_simps comp_def, elim insertE emptyE) (simp_all add: none, (simp_all add: eval_nat_numeral)?)
  show "push_bit 4 (take_bit 5 (push_bit 4 b OR drop_bit 4 c)) OR
     drop_bit 1 (take_bit 5 (push_bit 1 c OR drop_bit 7 d)) = c"
    by (rule bit_word_eqI, simp only: eight bit_simps comp_def, elim insertE emptyE) (simp_all add: none, (simp_all add: eval_nat_numeral)?)
  show "push_bit 7 (take_bit 5 (push_bit 1 c OR drop_bit 7 d)) OR push_bit 2 (take_bit 5 (drop_bit 2 d)) OR
     drop_bit 3 (take_bit 5 (push_bit 3 d OR drop_bit 5 e)) = d"
    by (rule bit_word_eqI, simp only: eight bit_simps comp_def, elim insertE emptyE) (simp_all add: none, (simp_all add: eval_nat_numeral)?)
  show "push_bit 5 (take_bit 5 (push_bit 3 d OR drop_bit 5 e)) OR take_bit 5 e = e"
    by (rule bit_word_eqI, simp only: eight bit_simps comp_def, elim insertE emptyE) (simp_all add: none, (simp_all add: eval_nat_numeral)?)
qed

lemma take_explicit:
  "take 2 (v0 # v1 # vs) = [v0, v1]"
  "take 4 (v0 # v1 # v2 # v3 # vs) = [v0, v1, v2, v3]"
  "take 5 (v0 # v1 # v2 # v3 # v4 # vs) = [v0, v1, v2, v3, v4]"
  "take 7 (v0 # v1 # v2 # v3 # v4 # v5 # v6 # vs) = [v0, v1, v2, v3, v4, v5, v6]"
  by simp_all

lemma b32_pack_split:
  "b32_pack (b32_split a b c d e) = [a, b, c, d, e]"
  "b32_pack (take 2 (b32_split a b c d e)) = [a]"
  "b32_pack (take 4 (b32_split a b c d e)) = [a, b]"
  "b32_pack (take 5 (b32_split a b c d e)) = [a, b, c]"
  "b32_pack (take 7 (b32_split a b c d e)) = [a, b, c, d]"
  unfolding b32_split_def
  by (simp_all only: take_explicit b32_pack.simps b32_pack_split_bits append.simps)

lemma length_b32_split [simp]: "length (b32_split a b c d e) = 8"
  by (simp add: b32_split_def)

text \<open>A run of encoded characters is read into the group, up to its eight places.\<close>

lemma b32_group_chars:
  "list_all (\<lambda>v. v < 32) vs \<Longrightarrow> length dbuf + length vs \<le> 8 \<Longrightarrow>
     b32_group dbuf (map b32_char vs @ rest) = b32_group (dbuf @ vs) rest"
proof (induction vs arbitrary: dbuf)
  case (Cons v vs)
  then have "b32_group (dbuf @ [v]) (map b32_char vs @ rest) = b32_group ((dbuf @ [v]) @ vs) rest"
    by simp
  with Cons.prems show ?case by (simp add: b32_char_facts)
qed simp

lemma b32_group_full: "length dbuf = 8 \<Longrightarrow> b32_group dbuf rest = Some (dbuf, rest, False)"
  by (cases rest) simp_all

lemma b32_groups_full:
  assumes "list_all (\<lambda>v. v < 32) vs" and "length vs = 8"
  shows "b32_groups (map b32_char vs @ rest) = map_option ((@) (b32_pack vs)) (b32_groups rest)"
  using b32_group_chars [OF assms(1), of "[]" rest] assms(2)
  by (subst b32_groups.simps) (auto simp: b32_group_full)

lemma b32_groups_partial:
  assumes "list_all (\<lambda>v. v < 32) vs" and "length vs < 8" and "vs \<noteq> []"
  shows "b32_groups (map b32_char vs) = Some (b32_pack vs)"
  using b32_group_chars [OF assms(1), of "[]" "[]"] assms(2,3)
  by (subst b32_groups.simps) auto

lemma b32_groups_taken:
  assumes "n \<in> {2, 4, 5, 7}"
  shows "b32_groups (map b32_char (take n (b32_split a b c d e))) =
    Some (b32_pack (take n (b32_split a b c d e)))"
proof (rule b32_groups_partial)
  show "list_all (\<lambda>v. v < 32) (take n (b32_split a b c d e))"
    by (rule list_all_take [OF b32_split_lt])
  show "length (take n (b32_split a b c d e)) < 8" using assms by auto
  show "take n (b32_split a b c d e) \<noteq> []" using assms by (auto simp: b32_split_def)
qed

lemmas b32_groups_sizes =
  b32_groups_taken [of 2, OF insertI1] b32_groups_taken [of 4, OF insertI2 [OF insertI1]]
  b32_groups_taken [of 5, OF insertI2 [OF insertI2 [OF insertI1]]]
  b32_groups_taken [of 7, OF insertI2 [OF insertI2 [OF insertI2 [OF insertI1]]]]

lemma b32_groups_values: "b32_groups (map b32_char (b32_values s)) = Some s"
proof (induction s rule: b32_values.induct)
  case 1
  show ?case by (subst b32_groups.simps) simp
next
  case (6 a b c d e r)
  have "b32_groups (map b32_char (b32_split a b c d e) @ map b32_char (b32_values r)) =
    map_option ((@) (b32_pack (b32_split a b c d e))) (b32_groups (map b32_char (b32_values r)))"
    by (rule b32_groups_full) (simp_all add: b32_split_lt)
  with 6 show ?case by (simp add: b32_pack_split)
qed (simp_all only: b32_values.simps b32_groups_sizes b32_pack_split)

theorem b32_decode_encode: "b32_decode (b32_encode s) = Some s"
proof -
  have "filter (\<lambda>c. c \<noteq> 13 \<and> c \<noteq> 10) (map b32_char (b32_values s)) = map b32_char (b32_values s)"
    using b32_values_lt [of s] by (auto simp: filter_id_conv list_all_iff b32_char_facts)
  then show ?thesis by (simp add: b32_decode_def b32_encode_def b32_groups_values)
qed

lemma length_b32_values: "length (b32_values s) = (8 * length s + 4) div 5"
  by (induction s rule: b32_values.induct) simp_all

text \<open>\<open>EncodedLen\<close> of an encoding without padding.\<close>

lemma length_b32_encode: "length (b32_encode s) = (8 * length s + 4) div 5"
  by (simp add: b32_encode_def length_b32_values)

section \<open>The alphabet and letter case\<close>

lemma b32_char_case:
  assumes "v < 32"
  shows "b32_char v < 0x80" and "lower_byte (b32_char v) < 0x80"
    and "upper_byte (lower_byte (b32_char v)) = b32_char v"
proof -
  have "\<forall>n\<in>set [0..<32]. b32_char (of_nat n) < 0x80 \<and> lower_byte (b32_char (of_nat n)) < 0x80 \<and>
    upper_byte (lower_byte (b32_char (of_nat n))) = b32_char (of_nat n)"
    by code_simp
  from below_32 [OF this assms]
  show "b32_char v < 0x80" and "lower_byte (b32_char v) < 0x80"
    and "upper_byte (lower_byte (b32_char v)) = b32_char v" by simp_all
qed

text \<open>
  The client sends the text in lower case and the server reads it in upper case; any mixture of
  cases on the way gives the same text back.
\<close>

lemma ToLower_b32_encode:
  "ToLower u (b32_encode s) = map lower_byte (b32_encode s)" "isASCII (ToLower u (b32_encode s))"
  using b32_values_lt [of s]
  by (auto simp: ToLower_def isASCII_def b32_encode_def list_all_iff b32_char_case)

lemma upper_lower_b32_encode: "map upper_byte (map lower_byte (b32_encode s)) = b32_encode s"
  using b32_values_lt [of s] by (auto simp: b32_encode_def list_all_iff b32_char_case)

lemma length_ToLower_b32 [simp]: "length (ToLower u (b32_encode s)) = (8 * length s + 4) div 5"
  by (simp add: ToLower_b32_encode length_b32_encode)

end
