(* ===== verification/Framing.thy ===== *)
theory Framing
  imports GoStd
begin

text \<open>
  The contract of a length-prefixed packet format, used by four components: the client's downstream
  packets, the server's upstream packets, the Noise messages and DNS over TLS.  Each component has
  a reader of one packet, \<open>nextf\<close>, and a loop that reads packets until the first error,
  \<open>drain\<close>; the locale derives what the loop delivers from the laws of the reader, for whole
  streams, streams cut off in the middle of a packet, and streams with packets appended.
\<close>

section \<open>io.CopyN\<close>

definition CopyN :: "nat \<Rightarrow> bytes \<Rightarrow> err + bytes \<times> bytes" where
  "CopyN n s = (if length s < n then Inl EOF else Inr (take n s, drop n s))"

lemma CopyN_append [simp]: "length p = n \<Longrightarrow> CopyN n (p @ rest) = Inr (p, rest)"
  by (auto simp: CopyN_def)

lemma CopyN_eq_Inr: "CopyN n s = Inr (p, rest) \<longleftrightarrow> s = p @ rest \<and> length p = n"
  by (auto simp: CopyN_def)

lemma CopyN_eq_Inl: "CopyN n s = Inl e \<longleftrightarrow> length s < n \<and> e = EOF"
  by (auto simp: CopyN_def)

section \<open>The contract\<close>

locale framing =
  fixes nextf :: "bytes \<Rightarrow> 'e + bytes \<times> bytes"
    and frame :: "bytes \<Rightarrow> bytes"
    and ok :: "bytes \<Rightarrow> bool"
    and drain :: "bytes \<Rightarrow> bytes list \<times> 'e"
    and eof :: 'e
  assumes next_frame: "ok p \<Longrightarrow> nextf (frame p @ rest) = Inr (p, rest)"
    and next_Nil: "nextf [] = Inl eof"
    and next_cut: "\<lbrakk>ok p; k < length (frame p); 0 < k\<rbrakk> \<Longrightarrow>
                     \<exists>e. nextf (take k (frame p)) = Inl e \<and> e \<noteq> eof"
    and drain_error: "nextf s = Inl e \<Longrightarrow> drain s = ([], e)"
    and drain_packet: "nextf s = Inr (p, rest) \<Longrightarrow>
                         drain s = (case drain rest of (ps, e) \<Rightarrow> (p # ps, e))"
begin

lemma drain_frames_append:
  "list_all ok ps \<Longrightarrow>
     drain (concat (map frame ps) @ rest) = (case drain rest of (qs, e) \<Rightarrow> (ps @ qs, e))"
  by (induction ps) (auto simp: drain_packet [OF next_frame] split: prod.splits)

text \<open>A whole stream: exactly its packets, in order, then end of file.\<close>

lemma drain_frames: "list_all ok ps \<Longrightarrow> drain (concat (map frame ps)) = (ps, eof)"
  using drain_frames_append [of ps "[]"] by (simp add: drain_error [OF next_Nil])

text \<open>
  A stream cut off at any point: the packets that are whole come out, in order, and nothing else;
  the loop ends with the end-of-file error exactly when the cut falls between two packets.
\<close>

lemma drain_take:
  "list_all ok ps \<Longrightarrow>
     \<exists>j\<le>length ps. \<exists>rest e. drain (take k (concat (map frame ps))) = (take j ps, e) \<and>
       take k (concat (map frame ps)) = concat (map frame (take j ps)) @ rest \<and>
       (if j < length ps then length rest < length (frame (ps ! j)) else rest = []) \<and>
       (e = eof \<longleftrightarrow> rest = [])"
proof (induction ps arbitrary: k)
  case Nil
  show ?case by (simp add: drain_error [OF next_Nil])
next
  case (Cons p ps)
  then have okp: "ok p" and okps: "list_all ok ps" by simp_all
  show ?case
  proof (cases "length (frame p) \<le> k")
    case True
    from Cons.IH [OF okps, of "k - length (frame p)"] obtain j rest e where
      j: "j \<le> length ps"
      "drain (take (k - length (frame p)) (concat (map frame ps))) = (take j ps, e)"
      "take (k - length (frame p)) (concat (map frame ps)) = concat (map frame (take j ps)) @ rest"
      "if j < length ps then length rest < length (frame (ps ! j)) else rest = []"
      "e = eof \<longleftrightarrow> rest = []"
      by blast
    have "take k (concat (map frame (p # ps))) =
        frame p @ take (k - length (frame p)) (concat (map frame ps))"
      using True by simp
    then show ?thesis using j True
      by (intro exI [of _ "Suc j"] conjI exI [of _ rest] exI [of _ e])
        (auto simp: drain_packet [OF next_frame [OF okp]])
  next
    case False
    then have t: "take k (concat (map frame (p # ps))) = take k (frame p)" by simp
    show ?thesis
    proof (cases "k = 0")
      case True
      with False show ?thesis
        by (intro exI [of _ 0] conjI exI [of _ "[]"] exI [of _ eof]) (auto simp: drain_error [OF next_Nil])
    next
      case k: False
      with next_cut [OF okp, of k] False obtain e where
        "nextf (take k (frame p)) = Inl e" "e \<noteq> eof" by auto
      moreover from False k have "take k (frame p) \<noteq> []" by (cases "frame p") auto
      ultimately show ?thesis using False t
        by (intro exI [of _ 0] conjI exI [of _ "take k (frame p)"] exI [of _ e]) (auto simp: drain_error)
    qed
  qed
qed

text \<open>Two frames of admissible packets are never in conflict: the format is prefix-free.\<close>

lemma frame_prefix_free:
  assumes "ok p" and "ok q" and "frame p @ r = frame q @ s"
  shows "p = q \<and> r = s"
proof -
  have "nextf (frame p @ r) = Inr (p, r)" by (rule next_frame [OF assms(1)])
  moreover have "nextf (frame p @ r) = Inr (q, s)" unfolding assms(3) by (rule next_frame [OF assms(2)])
  ultimately show ?thesis by simp
qed

end

section \<open>Sixteen-bit length prefixes\<close>

text \<open>What the three 16-bit formats share: the frame of a packet and the read of one.\<close>

definition frame16 :: "bytes \<Rightarrow> bytes" where
  "frame16 p = be16 (of_nat (length p)) @ p"

definition ok16 :: "bytes \<Rightarrow> bool" where
  "ok16 p \<longleftrightarrow> length p < 65536"

lemma read_u16_short: "length s = 1 \<Longrightarrow> read_u16 s = Inl ErrUnexpectedEOF"
  by (auto simp: read_u16_def ReadFull_def)

lemma length_frame16 [simp]: "length (frame16 p) = length p + 2"
  by (simp add: frame16_def)

lemma frame16_not_Nil [simp]: "frame16 p \<noteq> []"
  by (simp add: frame16_def be16_def)

lemma read_u16_cut:
  assumes "0 < k"
  shows "read_u16 (take k (frame16 p)) =
    (if k < 2 then Inl ErrUnexpectedEOF else Inr (of_nat (length p), take (k - 2) p))"
proof (cases "k < 2")
  case True
  with assms show ?thesis by (simp add: read_u16_short)
next
  case False
  then have "take k (frame16 p) = be16 (of_nat (length p)) @ take (k - 2) p"
    by (simp add: frame16_def)
  with False show ?thesis by simp
qed

end
