(* ===== verification/GoHeap.thy ===== *)
theory GoHeap
  imports Prelude "HOL-Library.Multiset"
begin

text \<open>
  Go's package \<open>container/heap\<close>, which \<open>src/turbotunnel/remotemap.go\<close> uses through the
  methods \<open>Less\<close> and \<open>Swap\<close> of its \<open>heap.Interface\<close>.  The algorithms are the
  functions \<open>heap_up\<close> and \<open>heap_down\<close>; the locale \<open>heap_interface\<close> states what an
  implementation of the interface promises and derives that they restore the heap order.
\<close>

section \<open>The algorithms\<close>

function heap_up ::
  "('h \<Rightarrow> nat \<Rightarrow> nat \<Rightarrow> err + bool) \<Rightarrow> ('h \<Rightarrow> nat \<Rightarrow> nat \<Rightarrow> err + 'h) \<Rightarrow> 'h \<Rightarrow> nat \<Rightarrow> err + 'h"
where
  "heap_up lessf swap h j =
     (let i = (j - 1) div 2 in
      if i = j then Inr h
      else bindE (lessf h j i) (\<lambda>b.
        if \<not> b then Inr h
        else bindE (swap h i j) (\<lambda>h'. heap_up lessf swap h' i)))"
  by pat_completeness auto
termination
  by (relation "measure (\<lambda>(_, _, _, j). j)") auto

function heap_down_loop ::
  "('h \<Rightarrow> nat \<Rightarrow> nat \<Rightarrow> err + bool) \<Rightarrow> ('h \<Rightarrow> nat \<Rightarrow> nat \<Rightarrow> err + 'h) \<Rightarrow> 'h \<Rightarrow> nat \<Rightarrow> nat \<Rightarrow>
     err + 'h \<times> nat"
where
  "heap_down_loop lessf swap h i n =
     (let j1 = 2 * i + 1 in
      if n \<le> j1 then Inr (h, i)
      else bindE (if j1 + 1 < n then bindE (lessf h (j1 + 1) j1) (\<lambda>b. Inr (if b then j1 + 1 else j1))
                  else Inr j1) (\<lambda>j.
           bindE (lessf h j i) (\<lambda>b.
             if \<not> b then Inr (h, i)
             else bindE (swap h i j) (\<lambda>h'. heap_down_loop lessf swap h' j n))))"
  by pat_completeness auto
termination
  by (relation "measure (\<lambda>(_, _, _, i, n). n - i)") (auto simp: result_simps split: if_splits)

declare heap_up.simps [simp del] heap_down_loop.simps [simp del]

definition heap_down ::
  "('h \<Rightarrow> nat \<Rightarrow> nat \<Rightarrow> err + bool) \<Rightarrow> ('h \<Rightarrow> nat \<Rightarrow> nat \<Rightarrow> err + 'h) \<Rightarrow> 'h \<Rightarrow> nat \<Rightarrow> nat \<Rightarrow>
     err + 'h \<times> bool" where
  "heap_down lessf swap h i0 n =
     bindE (heap_down_loop lessf swap h i0 n) (\<lambda>(h', i). Inr (h', i > i0))"

definition heap_Fix ::
  "('h \<Rightarrow> err + nat) \<Rightarrow> ('h \<Rightarrow> nat \<Rightarrow> nat \<Rightarrow> err + bool) \<Rightarrow> ('h \<Rightarrow> nat \<Rightarrow> nat \<Rightarrow> err + 'h) \<Rightarrow>
     'h \<Rightarrow> nat \<Rightarrow> err + 'h" where
  "heap_Fix len lessf swap h i =
     bindE (len h) (\<lambda>n.
     bindE (heap_down lessf swap h i n) (\<lambda>(h', moved).
       if \<not> moved then heap_up lessf swap h' i else Inr h'))"

definition heap_Push ::
  "('h \<Rightarrow> err + nat) \<Rightarrow> ('h \<Rightarrow> nat \<Rightarrow> nat \<Rightarrow> err + bool) \<Rightarrow> ('h \<Rightarrow> nat \<Rightarrow> nat \<Rightarrow> err + 'h) \<Rightarrow>
     ('x \<Rightarrow> 'h \<Rightarrow> err + 'h) \<Rightarrow> 'x \<Rightarrow> 'h \<Rightarrow> err + 'h" where
  "heap_Push len lessf swap push x h =
     bindE (push x h) (\<lambda>h'. bindE (len h') (\<lambda>n. heap_up lessf swap h' (n - 1)))"

definition heap_Pop ::
  "('h \<Rightarrow> err + nat) \<Rightarrow> ('h \<Rightarrow> nat \<Rightarrow> nat \<Rightarrow> err + bool) \<Rightarrow> ('h \<Rightarrow> nat \<Rightarrow> nat \<Rightarrow> err + 'h) \<Rightarrow>
     ('h \<Rightarrow> err + 'x \<times> 'h) \<Rightarrow> 'h \<Rightarrow> err + 'x \<times> 'h" where
  "heap_Pop len lessf swap pop h =
     bindE (len h) (\<lambda>n1.
     bindE (swap h 0 (n1 - 1)) (\<lambda>h1.
     bindE (heap_down lessf swap h1 0 (n1 - 1)) (\<lambda>(h2, _). pop h2)))"

text \<open>What every swap leaves alone, \<open>heap_down\<close> leaves alone.\<close>

lemma heap_down_loop_preserves:
  fixes swap :: "'h \<Rightarrow> nat \<Rightarrow> nat \<Rightarrow> err + 'h"
  assumes swap: "\<And>h i j h'. swap h i j = Inr h' \<Longrightarrow> f h' = f h"
  shows "heap_down_loop lessf swap h i n = Inr (h', m) \<Longrightarrow> f h' = f h"
proof (induction "n - i" arbitrary: h i rule: less_induct)
  case less
  note eq = less.prems [unfolded heap_down_loop.simps [of lessf swap h i n] Let_def]
  have "h' = h \<or> (\<exists>j h1. i < j \<and> i < n \<and> swap h i j = Inr h1 \<and>
      heap_down_loop lessf swap h1 j n = Inr (h', m))"
  proof (cases "n \<le> 2 * i + 1")
    case False
    with eq obtain j b where "j = 2 * i + 1 + 1 \<or> j = 2 * i + 1" "lessf h j i = Inr b"
      "(if \<not> b then Inr (h, i) else bindE (swap h i j) (\<lambda>h'. heap_down_loop lessf swap h' j n)) = Inr (h', m)"
      by (fastforce simp: result_simps split: if_splits)
    with False show ?thesis by (cases b) (auto simp: result_simps)
  qed (use eq in simp)
  then consider "h' = h"
    | j h1 where "i < j" "i < n" "swap h i j = Inr h1" "heap_down_loop lessf swap h1 j n = Inr (h', m)"
    by blast
  then show ?case
  proof cases
    case 2
    then have "f h' = f h1" by (intro less.hyps) auto
    with swap [OF 2(3)] show ?thesis by simp
  qed simp
qed
section \<open>The order of a heap\<close>

definition parent :: "nat \<Rightarrow> nat" where
  "parent k = (k - 1) div 2"

lemma parent_eq: "0 < k \<Longrightarrow> parent k = i \<longleftrightarrow> k = 2 * i + 1 \<or> k = 2 * i + 2"
  by (auto simp: parent_def)

lemma parent_lt: "0 < k \<Longrightarrow> parent k < k"
  by (auto simp: parent_def)

lemma heap_up_parent:
  "0 < j \<Longrightarrow> heap_up lessf swap h j = bindE (lessf h j (parent j)) (\<lambda>b.
     if \<not> b then Inr h else bindE (swap h (parent j) j) (\<lambda>h'. heap_up lessf swap h' (parent j)))"
  using parent_lt [of j] by (subst heap_up.simps) (simp add: parent_def [symmetric] Let_def del: One_nat_def)

text \<open>The first \<open>n\<close> elements are in heap order, with the possible exceptions \<open>E\<close>.\<close>

definition ordered_but :: "nat set \<Rightarrow> nat \<Rightarrow> ('k :: linorder) list \<Rightarrow> bool" where
  "ordered_but E n ks \<longleftrightarrow> (\<forall>k<n. 0 < k \<longrightarrow> k \<notin> E \<longrightarrow> ks ! parent k \<le> ks ! k)"

abbreviation heap_ordered :: "('k :: linorder) list \<Rightarrow> bool" where
  "heap_ordered ks \<equiv> ordered_but {} (length ks) ks"

abbreviation children :: "nat \<Rightarrow> nat set" where
  "children i \<equiv> {2 * i + 1, 2 * i + 2}"

text \<open>The children of \<open>i\<close> are not smaller than its parent.\<close>

definition bridged :: "nat \<Rightarrow> nat \<Rightarrow> ('k :: linorder) list \<Rightarrow> bool" where
  "bridged i n ks \<longleftrightarrow> (0 < i \<longrightarrow> (\<forall>k<n. k \<in> children i \<longrightarrow> ks ! parent i \<le> ks ! k))"

lemma swap_nth:
  "i < length xs \<Longrightarrow> j < length xs \<Longrightarrow> k < length xs \<Longrightarrow>
     xs[i := xs ! j, j := xs ! i] ! k = (if k = i then xs ! j else if k = j then xs ! i else xs ! k)"
  by (simp add: nth_list_update)

lemma heap_min_root:
  assumes "ordered_but {} n ks" and "k < n"
  shows "ks ! 0 \<le> ks ! k"
  using assms(2)
proof (induction k rule: less_induct)
  case (less k)
  show ?case
  proof (cases "k = 0")
    case False
    then have "parent k < k" by (simp add: parent_lt)
    with less have "ks ! 0 \<le> ks ! parent k" by simp
    also have "\<dots> \<le> ks ! k" using assms(1) less.prems False by (simp add: ordered_but_def)
    finally show ?thesis .
  qed simp
qed

text \<open>One step of \<open>heap_up\<close> and one of \<open>heap_down\<close>, on the keys alone.\<close>

lemma up_step:
  fixes ks :: "('k :: linorder) list"
  assumes "ordered_but {j} n ks" and "bridged j n ks" and "0 < j" and "j < n" and "n \<le> length ks"
    and lt: "ks ! j < ks ! parent j"
  defines "ks' \<equiv> ks[parent j := ks ! j, j := ks ! parent j]"
  shows "ordered_but {parent j} n ks' \<and> bridged (parent j) n ks'"
proof -
  let ?i = "parent j"
  have i: "?i < j" using assms(3) by (rule parent_lt)
  have nth: "ks' ! k = (if k = ?i then ks ! j else if k = j then ks ! ?i else ks ! k)" if "k < n" for k
    using that i assms(4,5) unfolding ks'_def by (simp add: swap_nth)
  have A: "ks ! parent k \<le> ks ! k" if "k < n" "0 < k" "k \<noteq> j" for k
    using assms(1) that by (simp add: ordered_but_def)
  have B: "ks ! ?i \<le> ks ! k" if "k < n" "0 < k" "parent k = j" for k
    using assms(2,3) that by (auto simp: bridged_def parent_eq)
  have "ks' ! parent k \<le> ks' ! k" if k: "k < n" "0 < k" "k \<noteq> ?i" for k
  proof -
    have pk: "parent k < n" using parent_lt [OF k(2)] k(1) by simp
    consider "k = j" | "k \<noteq> j" "parent k = j" | "k \<noteq> j" "parent k = ?i" | "k \<noteq> j" "parent k \<noteq> j" "parent k \<noteq> ?i"
      by blast
    then show ?thesis
    proof cases
      case 1
      then show ?thesis using nth [OF k(1)] nth [OF pk] lt i by simp
    next
      case 2
      then show ?thesis using nth [OF k(1)] nth [OF pk] B [OF k(1,2)] k(3) i by simp
    next
      case 3
      then show ?thesis using nth [OF k(1)] nth [OF pk] A [OF k(1,2)] lt k(3) by simp
    next
      case 4
      then show ?thesis using nth [OF k(1)] nth [OF pk] A [OF k(1,2)] k(3) by simp
    qed
  qed
  moreover have "ks' ! parent ?i \<le> ks' ! k" if "0 < ?i" "k < n" "k \<in> children ?i" for k
  proof -
    have k: "0 < k" "parent k = ?i" "k \<noteq> ?i" using that(3) by (auto simp: parent_def)
    have "parent ?i < ?i" using that(1) by (rule parent_lt)
    then have "ks' ! parent ?i = ks ! parent ?i" using nth [of "parent ?i"] i assms(4) by simp
    moreover have "ks ! parent ?i \<le> ks ! ?i" using A [of ?i] that(1) i assms(4) by simp
    moreover have "ks ! ?i \<le> ks ! k" if "k \<noteq> j" using A [of k] that k \<open>k < n\<close> by simp
    ultimately show ?thesis using nth [OF that(2)] k(3) by (cases "k = j") auto
  qed
  ultimately show ?thesis by (simp add: ordered_but_def bridged_def)
qed

lemma down_step:
  fixes ks :: "('k :: linorder) list"
  assumes "ordered_but (insert i (children i)) n ks" and "bridged i n ks"
    and "j \<in> children i" and "j < n" and "n \<le> length ks"
    and least: "\<And>k. k \<in> children i \<Longrightarrow> k < n \<Longrightarrow> ks ! j \<le> ks ! k"
  defines "ks' \<equiv> ks[i := ks ! j, j := ks ! i]"
  shows "ordered_but (insert j (children j)) n ks' \<and> bridged j n ks' \<and>
         (ks ! j < ks ! i \<longrightarrow> ks' ! parent j < ks' ! j)"
proof -
  have ij: "i < j" "0 < j" "parent j = i" using assms(3) by (auto simp: parent_def)
  have nth: "ks' ! k = (if k = i then ks ! j else if k = j then ks ! i else ks ! k)" if "k < n" for k
    using that ij assms(4,5) unfolding ks'_def by (simp add: swap_nth)
  have A: "ks ! parent k \<le> ks ! k" if "k < n" "0 < k" "k \<noteq> i" "k \<notin> children i" for k
    using assms(1) that by (simp add: ordered_but_def)
  have "ks' ! parent k \<le> ks' ! k" if k: "k < n" "0 < k" "k \<noteq> j" "k \<notin> children j" for k
  proof -
    have pk: "parent k < n" "parent k < k" using parent_lt [OF k(2)] k(1) by simp_all
    have pj: "parent k \<noteq> j" using k(2,4) by (simp add: parent_eq)
    consider "k = i" | "k \<noteq> i" "parent k = i" | "k \<noteq> i" "parent k \<noteq> i" by blast
    then show ?thesis
    proof cases
      case 1
      then have "ks ! parent i \<le> ks ! j"
        using assms(2,3,4) k(2) by (auto simp: bridged_def)
      then show ?thesis using 1 nth [OF k(1)] nth [OF pk(1)] pj pk(2) by simp
    next
      case 2
      then have "k \<in> children i" using k(2) by (auto simp: parent_eq)
      from least [OF this k(1)] show ?thesis using 2 nth [OF k(1)] nth [OF pk(1)] k(3) by simp
    next
      case 3
      then have "k \<notin> children i" using k(2) by (auto simp: parent_def)
      from A [OF k(1,2) 3(1) this] show ?thesis using 3 nth [OF k(1)] nth [OF pk(1)] k(3) pj by simp
    qed
  qed
  moreover have "ks' ! parent j \<le> ks' ! k" if "k < n" "k \<in> children j" for k
  proof -
    have k: "0 < k" "parent k = j" "k \<noteq> i" "k \<noteq> j"
      using that(2) ij(1) by (auto simp: parent_def)
    then have "parent k \<noteq> i" using ij(1) by simp
    with k(1) have k5: "k \<notin> children i" by (simp add: parent_eq)
    from A [OF that(1) k(1,3) k5] k show ?thesis using nth [OF that(1)] nth [of i] ij assms(4) by simp
  qed
  ultimately show ?thesis using nth [of i] nth [of j] ij assms(4) by (simp add: ordered_but_def bridged_def)
qed

section \<open>The contract of heap.Interface\<close>

locale heap_interface =
  fixes inv :: "'h \<Rightarrow> bool"
    and items :: "'h \<Rightarrow> 'x list"
    and key :: "'x \<Rightarrow> 'k :: linorder"
    and lessf :: "'h \<Rightarrow> nat \<Rightarrow> nat \<Rightarrow> err + bool"
    and swap :: "'h \<Rightarrow> nat \<Rightarrow> nat \<Rightarrow> err + 'h"
  assumes less_ok: "\<lbrakk>inv h; i < length (items h); j < length (items h)\<rbrakk> \<Longrightarrow>
      lessf h i j = Inr (key (items h ! i) < key (items h ! j))"
    and swap_ok: "\<lbrakk>inv h; i < length (items h); j < length (items h)\<rbrakk> \<Longrightarrow>
      \<exists>h'. swap h i j = Inr h' \<and> inv h' \<and>
           items h' = (items h)[i := items h ! j, j := items h ! i]"
begin

lemma keys_swap:
  assumes "i < length (items h)" and "j < length (items h)"
    and "items h' = (items h)[i := items h ! j, j := items h ! i]"
  shows "map key (items h') =
    (map key (items h))[i := map key (items h) ! j, j := map key (items h) ! i]"
  using assms by (simp add: map_update)

lemma up_correct:
  assumes "inv h" and "j < length (items h)"
    and "ordered_but {j} (length (items h)) (map key (items h))"
    and "bridged j (length (items h)) (map key (items h))"
  shows "\<exists>h'. heap_up lessf swap h j = Inr h' \<and> inv h' \<and> mset (items h') = mset (items h) \<and>
              heap_ordered (map key (items h'))"
  using assms
proof (induction j arbitrary: h rule: less_induct)
  case (less j)
  let ?ks = "map key (items h)" and ?n = "length (items h)" and ?i = "parent j"
  show ?case
  proof (cases "0 < j \<and> ?ks ! j < ?ks ! ?i")
    case False
    have "heap_ordered ?ks"
      unfolding ordered_but_def
    proof (intro allI impI)
      fix k assume k: "k < length ?ks" "0 < k"
      show "?ks ! parent k \<le> ?ks ! k"
        using less.prems(3) False k by (cases "k = j") (auto simp: ordered_but_def)
    qed
    moreover have "heap_up lessf swap h j = Inr h"
    proof (cases "j = 0")
      case True
      then show ?thesis by (subst heap_up.simps) simp
    next
      case jp: False
      then have i: "?i < j" by (simp add: parent_lt)
      with False jp less.prems(1,2) show ?thesis
        by (simp add: heap_up_parent less_ok)
    qed
    ultimately show ?thesis using less.prems(1) by auto
  next
    case True
    then have i: "?i < j" by (simp add: parent_lt)
    then have il: "?i < ?n" using less.prems(2) by simp
    obtain h1 where h1: "swap h ?i j = Inr h1" "inv h1"
      "items h1 = (items h)[?i := items h ! j, j := items h ! ?i]"
      using swap_ok [OF less.prems(1) il less.prems(2)] by blast
    have ks1: "map key (items h1) = ?ks[?i := ?ks ! j, j := ?ks ! ?i]"
      using keys_swap [OF il less.prems(2) h1(3)] .
    have "ordered_but {?i} ?n (map key (items h1)) \<and> bridged ?i ?n (map key (items h1))"
      unfolding ks1 by (rule up_step) (use True less.prems in simp_all)
    then obtain h2 where "heap_up lessf swap h1 ?i = Inr h2" "inv h2" "mset (items h2) = mset (items h1)"
      "heap_ordered (map key (items h2))"
      using less.IH [OF i h1(2)] il h1(3) by auto
    moreover have "mset (items h1) = mset (items h)"
      using mset_swap [OF less.prems(2) il] h1(3) by (simp add: list_update_swap)
    moreover have "heap_up lessf swap h j = heap_up lessf swap h1 ?i"
      using True i il less.prems(1,2) h1(1)
      by (simp add: heap_up_parent less_ok)
    ultimately show ?thesis by auto
  qed
qed

text \<open>
  \<open>heap_down_loop\<close> either stops where it starts, and then the children are in order, or it
  moves down and leaves the first \<open>n\<close> elements in heap order.
\<close>

lemma down_loop_correct:
  assumes "inv h" and "i < n" and "n \<le> length (items h)"
    and "ordered_but (insert i (children i)) n (map key (items h))"
    and "bridged i n (map key (items h))"
  shows "\<exists>h' m. heap_down_loop lessf swap h i n = Inr (h', m) \<and> inv h' \<and>
     mset (items h') = mset (items h) \<and> drop n (items h') = drop n (items h) \<and>
     (if m = i then h' = h \<and> ordered_but {i} n (map key (items h))
      else i < m \<and> ordered_but {} n (map key (items h')))"
  using assms
proof (induction "n - i" arbitrary: h i rule: less_induct)
  case less
  let ?ks = "map key (items h)"
  have nth: "\<And>k. k < n \<Longrightarrow> ?ks ! k = key (items h ! k)" using less.prems(3) by simp
  show ?case
  proof (cases "n \<le> 2 * i + 1")
    case True
    then have "heap_down_loop lessf swap h i n = Inr (h, i)" by (subst heap_down_loop.simps) simp
    moreover have "ordered_but {i} n ?ks"
      using True less.prems(4) by (auto simp: ordered_but_def)
    ultimately show ?thesis using less.prems(1) by auto
  next
    case False
    define j where "j = (if 2 * i + 2 < n \<and> ?ks ! (2 * i + 2) < ?ks ! (2 * i + 1) then 2 * i + 2 else 2 * i + 1)"
    have j: "j \<in> children i" "j < n" using False by (auto simp: j_def)
    have pick: "(if 2 * i + 1 + 1 < n then bindE (lessf h (2 * i + 1 + 1) (2 * i + 1))
        (\<lambda>b. Inr (if b then 2 * i + 1 + 1 else 2 * i + 1)) else Inr (2 * i + 1)) = Inr j"
      using False less.prems(1,3) by (simp add: j_def less_ok)
    have least: "?ks ! j \<le> ?ks ! k" if "k \<in> children i" "k < n" for k
      using that by (auto simp: j_def)
    show ?thesis
    proof (cases "?ks ! j < ?ks ! i")
      case stop: False
      have "heap_down_loop lessf swap h i n = Inr (h, i)"
        using False pick stop less.prems(1,2,3) j(2) nth [of i] nth [of j]
        by (subst heap_down_loop.simps) (simp only: Let_def, simp add: less_ok)
      moreover have "ordered_but {i} n ?ks"
        unfolding ordered_but_def
      proof (intro allI impI)
        fix k assume k: "k < n" "0 < k" "k \<notin> {i}"
        show "?ks ! parent k \<le> ?ks ! k"
        proof (cases "k \<in> children i")
          case True
          then have "parent k = i" by (auto simp: parent_def)
          with least [OF True k(1)] stop show ?thesis by simp
        next
          case False
          with less.prems(4) k show ?thesis by (simp add: ordered_but_def)
        qed
      qed
      ultimately show ?thesis using less.prems(1) by auto
    next
      case go: True
      have il: "i < length (items h)" "j < length (items h)" using less.prems j by simp_all
      obtain h1 where h1: "swap h i j = Inr h1" "inv h1"
        "items h1 = (items h)[i := items h ! j, j := items h ! i]"
        using swap_ok [OF less.prems(1) il] by blast
      have ks1: "map key (items h1) = ?ks[i := ?ks ! j, j := ?ks ! i]"
        using keys_swap [OF il h1(3)] .
      have step: "ordered_but (insert j (children j)) n (map key (items h1))"
        "bridged j n (map key (items h1))"
        "map key (items h1) ! parent j < map key (items h1) ! j"
        using down_step [OF less.prems(4,5) j] less.prems(3) least go unfolding ks1 by simp_all
      have "n - j < n - i" using j by auto
      from less.hyps [OF this h1(2) j(2) _ step(1,2)] less.prems(3) h1(3)
      obtain h2 m where h2: "heap_down_loop lessf swap h1 j n = Inr (h2, m)" "inv h2"
        "mset (items h2) = mset (items h1)" "drop n (items h2) = drop n (items h1)"
        "if m = j then h2 = h1 \<and> ordered_but {j} n (map key (items h1))
         else j < m \<and> ordered_but {} n (map key (items h2))" by auto
      have "heap_down_loop lessf swap h i n = Inr (h2, m)"
        using False pick go less.prems(1,2,3) j(2) nth [of i] nth [of j] h1(1) h2(1)
        by (subst heap_down_loop.simps) (simp only: Let_def, simp add: less_ok)
      moreover have "mset (items h1) = mset (items h)"
        using mset_swap [OF il(2,1)] h1(3) by (simp add: list_update_swap)
      moreover have "drop n (items h1) = drop n (items h)"
        using j(2) less.prems(2) h1(3) by simp
      moreover have "i < m \<and> ordered_but {} n (map key (items h2))"
        using h2(5) step(3) j(1) by (auto simp: ordered_but_def split: if_splits)
      ultimately show ?thesis using h2 by auto
    qed
  qed
qed

lemma Fix_correct:
  assumes "inv h" and "i < length (items h)" and "len h = Inr (length (items h))"
    and "ordered_but (insert i (children i)) (length (items h)) (map key (items h))"
    and "bridged i (length (items h)) (map key (items h))"
  shows "\<exists>h'. heap_Fix len lessf swap h i = Inr h' \<and> inv h' \<and> mset (items h') = mset (items h) \<and>
              heap_ordered (map key (items h'))"
proof -
  obtain h1 m where h1: "heap_down_loop lessf swap h i (length (items h)) = Inr (h1, m)" "inv h1"
    "mset (items h1) = mset (items h)"
    "if m = i then h1 = h \<and> ordered_but {i} (length (items h)) (map key (items h))
     else i < m \<and> ordered_but {} (length (items h)) (map key (items h1))"
    using down_loop_correct [OF assms(1,2) order_refl assms(4,5)] by blast
  show ?thesis
  proof (cases "m = i")
    case True
    with h1 up_correct [OF assms(1,2) _ assms(5)] show ?thesis
      by (simp add: heap_Fix_def heap_down_def assms(3))
  next
    case False
    with h1 mset_eq_length [OF h1(3)] show ?thesis
      by (simp add: heap_Fix_def heap_down_def assms(3))
  qed
qed

text \<open>\<open>Push\<close>: the new element is at the end, and \<open>up\<close> moves it to its place.\<close>

lemma Push_correct:
  assumes "push x h = Inr h1" and "inv h1" and "items h1 = items h @ [x]"
    and "len h1 = Inr (length (items h1))" and "heap_ordered (map key (items h))"
  shows "\<exists>h'. heap_Push len lessf swap push x h = Inr h' \<and> inv h' \<and>
              mset (items h') = add_mset x (mset (items h)) \<and> heap_ordered (map key (items h'))"
proof -
  let ?n = "length (items h)"
  have "ordered_but {?n} (Suc ?n) (map key (items h @ [x]))"
    unfolding ordered_but_def
  proof (intro allI impI)
    fix k assume k: "k < Suc ?n" "0 < k" "k \<notin> {?n}"
    then have "k < ?n" "parent k < ?n" using parent_lt [of k] by auto
    moreover from this assms(5) k(2) have "map key (items h) ! parent k \<le> map key (items h) ! k"
      unfolding ordered_but_def by (metis empty_iff length_map)
    ultimately show "map key (items h @ [x]) ! parent k \<le> map key (items h @ [x]) ! k"
      by (simp add: nth_append)
  qed
  moreover have "bridged ?n (Suc ?n) (map key (items h @ [x]))" by (auto simp: bridged_def)
  ultimately show ?thesis
    using up_correct [OF assms(2), of ?n] assms(1,3,4) by (simp add: heap_Push_def)
qed

text \<open>
  \<open>Pop\<close>: the root is swapped to the end, where the implementation's own \<open>Pop\<close> takes it,
  and the other elements are left in heap order.
\<close>

lemma Pop_correct:
  assumes "inv h" and "items h \<noteq> []" and "len h = Inr (length (items h))"
    and "heap_ordered (map key (items h))"
  shows "\<exists>h'. heap_Pop len lessf swap pop h = pop h' \<and> inv h' \<and> mset (items h') = mset (items h) \<and>
     last (items h') = hd (items h) \<and> heap_ordered (map key (butlast (items h')))"
proof -
  let ?n = "length (items h) - 1"
  have n: "0 < length (items h)" "?n < length (items h)" using assms(2) by simp_all
  obtain h1 where h1: "swap h 0 ?n = Inr h1" "inv h1"
    "items h1 = (items h)[0 := items h ! ?n, ?n := items h ! 0]"
    using swap_ok [OF assms(1) n] by blast
  have m1: "mset (items h1) = mset (items h)"
    using mset_swap [OF n(2,1)] h1(3) by simp
  have len1: "length (items h1) = length (items h)" by (simp add: h1(3))
  have last1: "drop ?n (items h1) = [hd (items h)]"
  proof -
    have "items h1 ! ?n = hd (items h)"
      using n by (simp add: h1(3) nth_list_update hd_conv_nth assms(2))
    moreover have "drop ?n (items h1) = [items h1 ! ?n]"
      using n len1 by (simp add: Cons_nth_drop_Suc [symmetric])
    ultimately show ?thesis by simp
  qed
  have final: "last (items h') = hd (items h) \<and> heap_ordered (map key (butlast (items h')))"
    if "drop ?n (items h') = drop ?n (items h1)" "mset (items h') = mset (items h1)"
      "ordered_but {} ?n (map key (items h'))" for h'
  proof -
    have len': "length (items h') = length (items h)" using mset_eq_length [OF that(2)] len1 by simp
    have "last (items h') = last (drop ?n (items h'))" using n len' by (subst last_drop) simp_all
    moreover have "ordered_but {} ?n (map key (butlast (items h')))"
      unfolding ordered_but_def
    proof (intro allI impI)
      fix k assume k: "k < ?n" "0 < k"
      then have "parent k < ?n" using parent_lt [of k] by simp
      moreover have "map key (items h') ! parent k \<le> map key (items h') ! k"
        using that(3) k by (simp only: ordered_but_def) simp
      ultimately show "map key (butlast (items h')) ! parent k \<le> map key (butlast (items h')) ! k"
        using k len' by (simp add: nth_butlast)
    qed
    ultimately show ?thesis using that(1) last1 len' by simp
  qed
  show ?thesis
  proof (cases "?n = 0")
    case True
    have "heap_down_loop lessf swap h1 0 0 = Inr (h1, 0)" by (subst heap_down_loop.simps) simp
    then have "heap_Pop len lessf swap pop h = pop h1"
      using h1(1) True by (simp add: heap_Pop_def heap_down_def assms(3))
    with final [of h1] h1 m1 True show ?thesis by (auto simp: ordered_but_def)
  next
    case False
    have heap: "(map key (items h)) ! parent k \<le> (map key (items h)) ! k"
      if "k < length (items h)" "0 < k" for k
      using assms(4) that by (simp add: ordered_but_def)
    have "ordered_but (insert 0 (children 0)) ?n (map key (items h1))"
      unfolding ordered_but_def
    proof (intro allI impI)
      fix k assume k: "k < ?n" "0 < k" "k \<notin> insert 0 (children 0)"
      then have "parent k \<noteq> 0" "parent k < k" by (auto simp: parent_def)
      with heap [of k] k show "map key (items h1) ! parent k \<le> map key (items h1) ! k"
        by (simp add: h1(3))
    qed
    moreover have "bridged 0 ?n (map key (items h1))" by (simp add: bridged_def)
    ultimately obtain h2 m where h2: "heap_down_loop lessf swap h1 0 ?n = Inr (h2, m)" "inv h2"
      "mset (items h2) = mset (items h1)" "drop ?n (items h2) = drop ?n (items h1)"
      "if m = 0 then h2 = h1 \<and> ordered_but {0} ?n (map key (items h1))
       else 0 < m \<and> ordered_but {} ?n (map key (items h2))"
      using down_loop_correct [OF h1(2), of 0 ?n] False len1 by auto
    have "ordered_but {} ?n (map key (items h2))"
      using h2(5) by (auto simp: ordered_but_def split: if_splits)
    moreover have "heap_Pop len lessf swap pop h = pop h2"
      using h1(1) h2(1) by (simp add: heap_Pop_def heap_down_def assms(3))
    ultimately show ?thesis using final [of h2] h2 m1 by auto
  qed
qed

end

text \<open>When no key gets smaller than before, a changed element leaves the heap fit for \<open>Fix\<close>.\<close>

lemma ordered_update:
  fixes ks :: "('k :: linorder) list"
  assumes "heap_ordered ks" and "i < length ks"
  shows "ordered_but (insert i (children i)) (length ks) (ks[i := v])"
    and "bridged i (length ks) (ks[i := v])"
proof -
  have ord: "ks ! parent k \<le> ks ! k" if "k < length ks" "0 < k" for k
    using assms(1) that by (simp add: ordered_but_def)
  show "ordered_but (insert i (children i)) (length ks) (ks[i := v])"
    unfolding ordered_but_def
  proof (intro allI impI)
    fix k assume k: "k < length ks" "0 < k" "k \<notin> insert i (children i)"
    then have "parent k \<noteq> i" by (auto simp: parent_def)
    with k ord [OF k(1,2)] show "ks[i := v] ! parent k \<le> ks[i := v] ! k" by simp
  qed
  show "bridged i (length ks) (ks[i := v])"
    unfolding bridged_def
  proof (intro impI allI)
    fix k assume k: "0 < i" "k < length ks" "k \<in> children i"
    have "0 < k" "parent k = i" "k \<noteq> i" using k(3) by (auto simp: parent_def)
    with ord [OF k(2)] ord [OF assms(2) k(1)] parent_lt [OF k(1)]
    show "ks[i := v] ! parent i \<le> ks[i := v] ! k" by simp
  qed
qed

end
