(* ===== verification/RemoteMap.thy ===== *)
theory RemoteMap
  imports GoHeap "HOL-Library.Finite_Map"
begin

text \<open>
  The map of live peers (\<open>src/turbotunnel/remotemap.go\<close>): \<open>remoteMapInner\<close> is a heap of
  peer records ordered by the time they were last seen, with a map from addresses to heap indices;
  each record holds the channels of the peer's send queue and stash.  Channels are references into
  a store, so a queue that a caller has fetched stays the same queue when the map changes, and can
  be closed under it.  The invariant \<open>rm_inv\<close> ties the heap, the address map and the channels
  together; every operation keeps it and none of the code's own panics is reachable.
\<close>

section \<open>Channels\<close>

record chan =
  ch_buf :: "bytes list"
  ch_cap :: nat
  ch_closed :: bool

type_synonym chans = "chan list"

text \<open>
  A send or a receive in a \<open>select\<close> with a \<open>default\<close> branch.  Sending on a closed channel
  panics; receiving from one that is empty gives the zero value \<open>nil\<close>.
\<close>

definition ch_send :: "nat \<Rightarrow> bytes \<Rightarrow> chans \<Rightarrow> err + bool \<times> chans" where
  "ch_send c p cs =
     (if ch_closed (cs ! c) then Inl Panic
      else if length (ch_buf (cs ! c)) < ch_cap (cs ! c)
      then Inr (True, cs[c := (cs ! c)\<lparr>ch_buf := ch_buf (cs ! c) @ [p]\<rparr>])
      else Inr (False, cs))"

definition ch_recv :: "nat \<Rightarrow> chans \<Rightarrow> bytes option \<times> chans" where
  "ch_recv c cs =
     (case ch_buf (cs ! c) of
        p # ps \<Rightarrow> (Some p, cs[c := (cs ! c)\<lparr>ch_buf := ps\<rparr>])
      | [] \<Rightarrow> (if ch_closed (cs ! c) then Some [] else None, cs))"

definition ch_close :: "nat \<Rightarrow> chans \<Rightarrow> err + chans" where
  "ch_close c cs =
     (if ch_closed (cs ! c) then Inl Panic else Inr (cs[c := (cs ! c)\<lparr>ch_closed := True\<rparr>]))"

definition make_chan :: "nat \<Rightarrow> chan" where
  "make_chan cap = \<lparr>ch_buf = [], ch_cap = cap, ch_closed = False\<rparr>"

section \<open>remoteMapInner\<close>

definition QueueSize :: nat where
  "QueueSize = 1024"

record 'a remoteRecord =
  rec_Addr :: 'a
  rec_LastSeen :: int
  rec_SendQueue :: nat
  rec_Stash :: nat

record 'a remoteMapInner =
  byAge :: "'a remoteRecord list"
  byAddr :: "('a, nat) fmap"

subsection \<open>heap.Interface for remoteMapInner\<close>

definition inner_Len :: "'a remoteMapInner \<Rightarrow> err + nat" where
  "inner_Len m =
     (if length (byAge m) \<noteq> fcard (fmdom (byAddr m)) then Inl Panic else Inr (length (byAge m)))"

definition inner_Less :: "'a remoteMapInner \<Rightarrow> nat \<Rightarrow> nat \<Rightarrow> err + bool" where
  "inner_Less m i j =
     (if length (byAge m) \<le> i \<or> length (byAge m) \<le> j then Inl Panic
      else Inr (rec_LastSeen (byAge m ! i) < rec_LastSeen (byAge m ! j)))"

definition inner_Swap :: "'a remoteMapInner \<Rightarrow> nat \<Rightarrow> nat \<Rightarrow> err + 'a remoteMapInner" where
  "inner_Swap m i j =
     (if length (byAge m) \<le> i \<or> length (byAge m) \<le> j then Inl Panic
      else let age = (byAge m)[i := byAge m ! j, j := byAge m ! i] in
        Inr \<lparr>byAge = age,
             byAddr = fmupd (rec_Addr (age ! j)) j (fmupd (rec_Addr (age ! i)) i (byAddr m))\<rparr>)"

definition inner_Push :: "'a remoteRecord \<Rightarrow> 'a remoteMapInner \<Rightarrow> err + 'a remoteMapInner" where
  "inner_Push r m =
     (if fmlookup (byAddr m) (rec_Addr r) \<noteq> None then Inl Panic
      else Inr \<lparr>byAge = byAge m @ [r],
                byAddr = fmupd (rec_Addr r) (length (byAge m)) (byAddr m)\<rparr>)"

definition inner_Pop :: "'a remoteMapInner \<Rightarrow> err + 'a remoteRecord \<times> 'a remoteMapInner" where
  "inner_Pop m =
     (let n = fcard (fmdom (byAddr m)) in
      if n = 0 \<or> length (byAge m) < n then Inl Panic
      else Inr (byAge m ! (n - 1),
                \<lparr>byAge = take (n - 1) (byAge m),
                 byAddr = fmdrop (rec_Addr (byAge m ! (n - 1))) (byAddr m)\<rparr>))"

definition age_Fix :: "'a remoteMapInner \<Rightarrow> nat \<Rightarrow> err + 'a remoteMapInner" where
  "age_Fix = heap_Fix inner_Len inner_Less inner_Swap"

definition age_Push :: "'a remoteRecord \<Rightarrow> 'a remoteMapInner \<Rightarrow> err + 'a remoteMapInner" where
  "age_Push = heap_Push inner_Len inner_Less inner_Swap inner_Push"

definition age_Pop :: "'a remoteMapInner \<Rightarrow> err + 'a remoteRecord \<times> 'a remoteMapInner" where
  "age_Pop = heap_Pop inner_Len inner_Less inner_Swap inner_Pop"

section \<open>RemoteMap\<close>

record 'a RemoteMap =
  rm_inner :: "'a remoteMapInner"
  rm_chans :: chans

definition NewRemoteMap :: "'a RemoteMap" where
  "NewRemoteMap = \<lparr>rm_inner = \<lparr>byAge = [], byAddr = fmempty\<rparr>, rm_chans = []\<rparr>"

definition Lookup :: "'a \<Rightarrow> int \<Rightarrow> 'a RemoteMap \<Rightarrow> err + 'a remoteRecord \<times> 'a RemoteMap" where
  "Lookup addr now m =
     (let inner = rm_inner m in
      case fmlookup (byAddr inner) addr of
        Some i \<Rightarrow>
          (let r = (byAge inner ! i)\<lparr>rec_LastSeen := now\<rparr> in
           bindE (age_Fix (inner\<lparr>byAge := (byAge inner)[i := r]\<rparr>) i) (\<lambda>inner'.
             Inr (r, m\<lparr>rm_inner := inner'\<rparr>)))
      | None \<Rightarrow>
          (let c = length (rm_chans m);
               r = \<lparr>rec_Addr = addr, rec_LastSeen = now, rec_SendQueue = c, rec_Stash = c + 1\<rparr> in
           bindE (age_Push r inner) (\<lambda>inner'.
             Inr (r, m\<lparr>rm_inner := inner', rm_chans := rm_chans m @ [make_chan QueueSize, make_chan 1]\<rparr>))))"

text \<open>The fast path of \<open>SendQueue\<close> and \<open>Unstash\<close> leaves the record as it is.\<close>

definition SendQueue :: "'a \<Rightarrow> int \<Rightarrow> 'a RemoteMap \<Rightarrow> err + nat \<times> 'a RemoteMap" where
  "SendQueue addr now m =
     (case fmlookup (byAddr (rm_inner m)) addr of
        Some i \<Rightarrow> Inr (rec_SendQueue (byAge (rm_inner m) ! i), m)
      | None \<Rightarrow> bindE (Lookup addr now m) (\<lambda>(r, m'). Inr (rec_SendQueue r, m')))"

definition Stash :: "'a \<Rightarrow> bytes \<Rightarrow> int \<Rightarrow> 'a RemoteMap \<Rightarrow> err + bool \<times> 'a RemoteMap" where
  "Stash addr p now m =
     bindE (Lookup addr now m) (\<lambda>(r, m').
     bindE (ch_send (rec_Stash r) p (rm_chans m')) (\<lambda>(sent, cs).
       Inr (sent, m'\<lparr>rm_chans := cs\<rparr>)))"

definition Unstash :: "'a \<Rightarrow> int \<Rightarrow> 'a RemoteMap \<Rightarrow> err + nat \<times> 'a RemoteMap" where
  "Unstash addr now m =
     (case fmlookup (byAddr (rm_inner m)) addr of
        Some i \<Rightarrow> Inr (rec_Stash (byAge (rm_inner m) ! i), m)
      | None \<Rightarrow> bindE (Lookup addr now m) (\<lambda>(r, m'). Inr (rec_Stash r, m')))"

lemma inner_Swap_length: "inner_Swap m i j = Inr m' \<Longrightarrow> length (byAge m') = length (byAge m)"
  by (auto simp: inner_Swap_def Let_def split: if_splits)

lemma age_Pop_shorter:
  assumes "age_Pop inner = Inr (r, inner')"
  shows "length (byAge inner') < length (byAge inner)"
proof -
  from assms obtain n h1 h2 m where "inner_Swap inner 0 n = Inr h1"
    "heap_down_loop inner_Less inner_Swap h1 0 n = Inr (h2, m)" "inner_Pop h2 = Inr (r, inner')"
    by (auto simp: age_Pop_def heap_Pop_def heap_down_def result_simps split: prod.splits)
  moreover from this have "length (byAge h1) = length (byAge inner)"
    "length (byAge h2) = length (byAge h1)"
    using heap_down_loop_preserves [of inner_Swap "\<lambda>m. length (byAge m)"] inner_Swap_length by blast+
  moreover define k where "k = fcard (fmdom (byAddr h2))"
  have "length (byAge inner') < length (byAge h2)"
    using \<open>inner_Pop h2 = Inr (r, inner')\<close>
    unfolding inner_Pop_def k_def [symmetric] Let_def by (auto split: if_splits)
  ultimately show ?thesis by simp
qed

function removeExpired :: "int \<Rightarrow> int \<Rightarrow> 'a RemoteMap \<Rightarrow> err + 'a RemoteMap" where
  "removeExpired now timeout m =
     (let inner = rm_inner m in
      if byAge inner \<noteq> [] \<and> now - rec_LastSeen (byAge inner ! 0) \<ge> timeout then
        bindE (age_Pop inner) (\<lambda>(r, inner').
        bindE (ch_close (rec_SendQueue r) (rm_chans m)) (\<lambda>cs.
          removeExpired now timeout (m\<lparr>rm_inner := inner', rm_chans := cs\<rparr>)))
      else Inr m)"
  by pat_completeness auto
termination
  by (relation "measure (\<lambda>(_, _, m). length (byAge (rm_inner m)))") (auto dest: age_Pop_shorter)

declare removeExpired.simps [simp del]

section \<open>Invariants\<close>

text \<open>The address map sends the address of each record to its place in the heap, and nothing else.\<close>

definition inner_wf :: "'a remoteMapInner \<Rightarrow> bool" where
  "inner_wf m \<longleftrightarrow>
     (\<forall>a i. fmlookup (byAddr m) a = Some i \<longleftrightarrow> i < length (byAge m) \<and> rec_Addr (byAge m ! i) = a)"

lemma inner_wfD:
  "inner_wf m \<Longrightarrow> fmlookup (byAddr m) a = Some i \<longleftrightarrow> i < length (byAge m) \<and> rec_Addr (byAge m ! i) = a"
  by (simp add: inner_wf_def)

lemma inner_wf_distinct: "inner_wf m \<Longrightarrow> distinct (map rec_Addr (byAge m))"
  unfolding distinct_conv_nth
proof (intro allI impI, goal_cases)
  case (1 i j)
  then have "fmlookup (byAddr m) (rec_Addr (byAge m ! i)) = Some i"
    "fmlookup (byAddr m) (rec_Addr (byAge m ! j)) = Some j" by (simp_all add: inner_wfD)
  with 1 show ?case by auto
qed

lemma inner_wf_dom:
  assumes "inner_wf m"
  shows "fset (fmdom (byAddr m)) = rec_Addr ` set (byAge m)"
  using inner_wfD [OF assms] by (fastforce simp: fmlookup_dom_iff set_conv_nth)

lemma inner_wf_Len: "inner_wf m \<Longrightarrow> inner_Len m = Inr (length (byAge m))"
  using distinct_card [OF inner_wf_distinct, of m] by (simp add: inner_Len_def fcard.rep_eq inner_wf_dom)

lemma inner_Swap_ok:
  assumes "inner_wf m" and "i < length (byAge m)" and "j < length (byAge m)"
  shows "\<exists>m'. inner_Swap m i j = Inr m' \<and> inner_wf m' \<and>
              byAge m' = (byAge m)[i := byAge m ! j, j := byAge m ! i]"
proof -
  let ?age = "(byAge m)[i := byAge m ! j, j := byAge m ! i]"
  let ?addr = "fmupd (rec_Addr (?age ! j)) j (fmupd (rec_Addr (?age ! i)) i (byAddr m))"
  have inj: "rec_Addr (byAge m ! k) = rec_Addr (byAge m ! l) \<longleftrightarrow> k = l"
    if "k < length (byAge m)" "l < length (byAge m)" for k l
    using nth_eq_iff_index_eq [OF inner_wf_distinct [OF assms(1)]] that by simp
  have "fmlookup ?addr a = Some k \<longleftrightarrow> k < length ?age \<and> rec_Addr (?age ! k) = a" for a k
    using assms(2,3) inner_wfD [OF assms(1), of a k] inj
    by (auto simp: nth_list_update split: if_splits)
  then show ?thesis using assms(2,3) by (simp add: inner_Swap_def inner_wf_def Let_def)
qed

interpretation age: heap_interface inner_wf byAge rec_LastSeen inner_Less inner_Swap
  by unfold_locales (simp_all add: inner_Less_def inner_Swap_ok)

lemma inner_Push_ok:
  assumes "inner_wf m" and "fmlookup (byAddr m) (rec_Addr r) = None"
  shows "\<exists>m'. inner_Push r m = Inr m' \<and> inner_wf m' \<and> byAge m' = byAge m @ [r]"
proof -
  have "rec_Addr (byAge m ! i) \<noteq> rec_Addr r" if "i < length (byAge m)" for i
    using inner_wfD [OF assms(1), of "rec_Addr r" i] assms(2) that by simp
  then show ?thesis
    using assms by (auto simp: inner_Push_def inner_wf_def nth_append less_Suc_eq)
qed

lemma inner_Pop_ok:
  assumes "inner_wf m" and "byAge m \<noteq> []"
  shows "\<exists>m'. inner_Pop m = Inr (last (byAge m), m') \<and> inner_wf m' \<and> byAge m' = butlast (byAge m)"
proof -
  let ?n = "length (byAge m)"
  have n: "fcard (fmdom (byAddr m)) = ?n" "0 < ?n"
    using inner_wf_Len [OF assms(1)] assms(2) by (auto simp: inner_Len_def split: if_splits)
  have inj: "rec_Addr (byAge m ! k) = rec_Addr (byAge m ! l) \<longleftrightarrow> k = l" if "k < ?n" "l < ?n" for k l
    using nth_eq_iff_index_eq [OF inner_wf_distinct [OF assms(1)]] that by simp
  have "fmlookup (fmdrop (rec_Addr (byAge m ! (?n - 1))) (byAddr m)) a = Some k \<longleftrightarrow>
      k < ?n - 1 \<and> rec_Addr (take (?n - 1) (byAge m) ! k) = a" for a k
    using inner_wfD [OF assms(1), of a k] inj [of k "?n - 1"] n(2) by auto
  then have "inner_wf \<lparr>byAge = take (?n - 1) (byAge m),
      byAddr = fmdrop (rec_Addr (byAge m ! (?n - 1))) (byAddr m)\<rparr>"
    by (simp add: inner_wf_def del: fmlookup_drop One_nat_def)
  then show ?thesis
    using n assms(2) by (simp add: inner_Pop_def Let_def last_conv_nth butlast_conv_take)
qed

section \<open>The abstract map of peers\<close>

text \<open>What the structure means: for each live address its record.\<close>

definition peer :: "'a RemoteMap \<Rightarrow> 'a \<Rightarrow> 'a remoteRecord option" where
  "peer m a = map_option ((!) (byAge (rm_inner m))) (fmlookup (byAddr (rm_inner m)) a)"

definition good_chan :: "chans \<Rightarrow> nat \<Rightarrow> nat \<Rightarrow> bool" where
  "good_chan cs cap c \<longleftrightarrow> c < length cs \<and> \<not> ch_closed (cs ! c) \<and> ch_cap (cs ! c) = cap \<and>
     length (ch_buf (cs ! c)) \<le> cap"

text \<open>
  The channels of the live peers are pairwise different, open, of the right capacity and never
  over it.
\<close>

definition chans_ok :: "chans \<Rightarrow> 'a remoteRecord list \<Rightarrow> bool" where
  "chans_ok cs rs \<longleftrightarrow> distinct (map rec_SendQueue rs @ map rec_Stash rs) \<and>
     (\<forall>r\<in>set rs. good_chan cs QueueSize (rec_SendQueue r) \<and> good_chan cs 1 (rec_Stash r))"

definition rm_inv :: "'a RemoteMap \<Rightarrow> bool" where
  "rm_inv m \<longleftrightarrow> inner_wf (rm_inner m) \<and> heap_ordered (map rec_LastSeen (byAge (rm_inner m))) \<and>
     chans_ok (rm_chans m) (byAge (rm_inner m))"

lemma peer_eq_Some:
  "rm_inv m \<Longrightarrow> peer m a = Some r \<longleftrightarrow> r \<in> set (byAge (rm_inner m)) \<and> rec_Addr r = a"
  unfolding peer_def rm_inv_def
  by (auto simp: inner_wfD in_set_conv_nth)

lemma peer_eq_None: "peer m a = None \<longleftrightarrow> fmlookup (byAddr (rm_inner m)) a = None"
  by (simp add: peer_def)

lemma rm_inv_New [simp]: "rm_inv NewRemoteMap"
  by (simp add: rm_inv_def NewRemoteMap_def inner_wf_def ordered_but_def chans_ok_def)

lemma chans_ok_mset: "mset rs = mset rs' \<Longrightarrow> chans_ok cs rs \<longleftrightarrow> chans_ok cs rs'"
  unfolding chans_ok_def
  by (metis mset_append mset_eq_imp_distinct_iff mset_eq_setD mset_map)

lemma peer_extI:
  assumes "rm_inv m" and "rm_inv m'"
    and "\<And>b x. b \<noteq> a \<Longrightarrow> rec_Addr x = b \<Longrightarrow>
           x \<in> set (byAge (rm_inner m')) \<longleftrightarrow> x \<in> set (byAge (rm_inner m))"
    and "r \<in> set (byAge (rm_inner m'))" and "rec_Addr r = a"
  shows "peer m' = (peer m)(a \<mapsto> r)"
proof (rule ext)
  fix b
  show "peer m' b = ((peer m)(a \<mapsto> r)) b"
  proof (cases "b = a")
    case True
    then show ?thesis using peer_eq_Some [OF assms(2), of a r] assms(4,5) by simp
  next
    case False
    have "peer m' b = Some x \<longleftrightarrow> peer m b = Some x" for x
      using peer_eq_Some [OF assms(1)] peer_eq_Some [OF assms(2)] assms(3) [OF False] by blast
    then have "peer m' b = peer m b" by (metis option.exhaust)
    with False show ?thesis by simp
  qed
qed

lemma good_chan_append: "good_chan cs cap c \<Longrightarrow> good_chan (cs @ xs) cap c"
  by (simp add: good_chan_def nth_append)

lemma Lookup_found:
  assumes inv: "rm_inv m" and "peer m a = Some r0"
  shows "\<exists>m'. Lookup a now m = Inr (r0\<lparr>rec_LastSeen := now\<rparr>, m') \<and> rm_inv m' \<and>
     peer m' = (peer m)(a \<mapsto> r0\<lparr>rec_LastSeen := now\<rparr>) \<and> rm_chans m' = rm_chans m"
proof -
  let ?inner = "rm_inner m" and ?r = "r0\<lparr>rec_LastSeen := now\<rparr>"
  from assms obtain i where i: "fmlookup (byAddr ?inner) a = Some i" "r0 = byAge ?inner ! i"
    by (auto simp: peer_def)
  have wf: "inner_wf ?inner" and heap: "heap_ordered (map rec_LastSeen (byAge ?inner))"
    and ch: "chans_ok (rm_chans m) (byAge ?inner)" using inv by (simp_all add: rm_inv_def)
  have il: "i < length (byAge ?inner)" "rec_Addr r0 = a" using inner_wfD [OF wf] i by auto
  let ?h = "?inner\<lparr>byAge := (byAge ?inner)[i := ?r]\<rparr>"
  have wfh: "inner_wf ?h"
    using inner_wfD [OF wf] il i(2) by (auto simp: inner_wf_def nth_list_update)
  have keys: "map rec_LastSeen (byAge ?h) = (map rec_LastSeen (byAge ?inner))[i := now]"
    by (simp add: map_update)
  have "\<exists>h'. age_Fix ?h i = Inr h' \<and> inner_wf h' \<and> mset (byAge h') = mset (byAge ?h) \<and>
      heap_ordered (map rec_LastSeen (byAge h'))"
    unfolding age_Fix_def
  proof (rule age.Fix_correct [OF wfh])
    show "i < length (byAge ?h)" using il by simp
    show "inner_Len ?h = Inr (length (byAge ?h))" by (rule inner_wf_Len [OF wfh])
    show "ordered_but (insert i (children i)) (length (byAge ?h)) (map rec_LastSeen (byAge ?h))"
      "bridged i (length (byAge ?h)) (map rec_LastSeen (byAge ?h))"
      unfolding keys using ordered_update [OF heap, of i now] il(1) by simp_all
  qed
  then obtain h' where h': "age_Fix ?h i = Inr h'" "inner_wf h'" "mset (byAge h') = mset (byAge ?h)"
    "heap_ordered (map rec_LastSeen (byAge h'))" by blast
  let ?m = "m\<lparr>rm_inner := h'\<rparr>"
  have "map rec_SendQueue (byAge ?h) = map rec_SendQueue (byAge ?inner)"
    "map rec_Stash (byAge ?h) = map rec_Stash (byAge ?inner)"
    using i(2) il(1) list_update_id [of "map rec_SendQueue (byAge ?inner)" i]
      list_update_id [of "map rec_Stash (byAge ?inner)" i] by (simp_all add: map_update del: list_update_id)
  then have "chans_ok (rm_chans m) (byAge ?h)"
    using ch il(1) i(2) unfolding chans_ok_def
    by (auto dest!: subsetD [OF set_update_subset_insert])
  then have inv': "rm_inv ?m"
    using h' chans_ok_mset [OF h'(3)] by (simp add: rm_inv_def)
  have set': "set (byAge h') = set ((byAge ?inner)[i := ?r])" using mset_eq_setD [OF h'(3)] by simp
  have "peer ?m = (peer m)(a \<mapsto> ?r)"
  proof (rule peer_extI [OF inv inv'])
    show "?r \<in> set (byAge (rm_inner ?m))" using il(1) by (simp add: set' set_update_memI)
    fix b and x :: "'a remoteRecord" assume b: "b \<noteq> a" "rec_Addr x = b"
    have "x \<in> set ((byAge ?inner)[i := ?r]) \<longleftrightarrow> x \<in> set (byAge ?inner)"
      using b il i(2) by (auto simp: in_set_conv_nth nth_list_update split: if_splits)
    then show "x \<in> set (byAge (rm_inner ?m)) \<longleftrightarrow> x \<in> set (byAge (rm_inner m))" by (simp add: set')
  qed (use il in simp)
  then show ?thesis using i h'(1) inv' by (simp add: Lookup_def Let_def)
qed

lemma Lookup_new:
  fixes m :: "'a RemoteMap"
  assumes inv: "rm_inv m" and "peer m a = None"
  defines "c \<equiv> length (rm_chans m)"
  shows "\<exists>r m'. Lookup a now m = Inr (r, m') \<and> rm_inv m' \<and> peer m' = (peer m)(a \<mapsto> r) \<and>
     r = \<lparr>rec_Addr = a, rec_LastSeen = now, rec_SendQueue = c, rec_Stash = Suc c\<rparr> \<and>
     rm_chans m' = rm_chans m @ [make_chan QueueSize, make_chan 1]"
proof -
  let ?inner = "rm_inner m"
  let ?r = "\<lparr>rec_Addr = a, rec_LastSeen = now, rec_SendQueue = c, rec_Stash = Suc c\<rparr>"
  let ?cs = "rm_chans m @ [make_chan QueueSize, make_chan 1]"
  have wf: "inner_wf ?inner" and heap: "heap_ordered (map rec_LastSeen (byAge ?inner))"
    and ch: "chans_ok (rm_chans m) (byAge ?inner)" using inv by (simp_all add: rm_inv_def)
  have none: "fmlookup (byAddr ?inner) a = None" using assms(2) by (simp add: peer_eq_None)
  obtain h1 where h1: "inner_Push ?r ?inner = Inr h1" "inner_wf h1" "byAge h1 = byAge ?inner @ [?r]"
    using inner_Push_ok [OF wf, of ?r] none by auto
  obtain h' where h': "age_Push ?r ?inner = Inr h'" "inner_wf h'"
    "mset (byAge h') = add_mset ?r (mset (byAge ?inner))" "heap_ordered (map rec_LastSeen (byAge h'))"
    using age.Push_correct [where push = inner_Push and len = inner_Len, OF h1 inner_wf_Len [OF h1(2)] heap] by (auto simp: age_Push_def)
  let ?m = "m\<lparr>rm_inner := h', rm_chans := ?cs\<rparr>"
  have old: "rec_SendQueue r < c \<and> rec_Stash r < c" if "r \<in> set (byAge ?inner)" for r
    using ch that unfolding c_def by (simp add: chans_ok_def good_chan_def)
  have "chans_ok ?cs (byAge ?inner @ [?r])"
    using ch old unfolding chans_ok_def
    by (auto simp: good_chan_append)
      (auto simp: good_chan_def c_def nth_append make_chan_def dest!: old)
  moreover have "mset (byAge h') = mset (byAge ?inner @ [?r])" using h'(3) by simp
  ultimately have "chans_ok ?cs (byAge h')" using chans_ok_mset by blast
  with h' have inv': "rm_inv ?m" by (simp add: rm_inv_def)
  have set': "set (byAge h') = insert ?r (set (byAge ?inner))"
    using mset_eq_setD [of "byAge h'" "?r # byAge ?inner"] h'(3) by simp
  have "peer ?m = (peer m)(a \<mapsto> ?r)"
    by (rule peer_extI [OF inv inv']) (auto simp: set')
  then show ?thesis using none h'(1) inv' by (simp add: Lookup_def Let_def c_def)
qed

section \<open>Every operation keeps the invariant\<close>

text \<open>A fetch of a queue or stash: an existing peer is returned untouched, a new one is made.\<close>

lemma fetch_ok:
  assumes "rm_inv m"
  shows "\<exists>r m'. SendQueue a now m = Inr (rec_SendQueue r, m') \<and> Unstash a now m = Inr (rec_Stash r, m') \<and>
     rm_inv m' \<and> peer m' = (peer m)(a \<mapsto> r) \<and>
     (case peer m a of Some r0 \<Rightarrow> r = r0 \<and> m' = m | None \<Rightarrow> Lookup a now m = Inr (r, m'))"
proof (cases "peer m a")
  case None
  obtain r m' where "Lookup a now m = Inr (r, m')" "rm_inv m'" "peer m' = (peer m)(a \<mapsto> r)"
    using Lookup_new [OF assms None, of now] by blast
  with None peer_eq_None [of m a] show ?thesis
    by (intro exI [of _ r] exI [of _ m']) (simp add: SendQueue_def Unstash_def)
next
  case (Some r)
  then have "(peer m)(a \<mapsto> r) = peer m" by (rule map_upd_triv)
  with Some assms show ?thesis
    by (intro exI [of _ r] exI [of _ m]) (auto simp: SendQueue_def Unstash_def peer_def)
qed

text \<open>Sends and receives on the channels keep them within their capacity.\<close>

lemma ch_send_ok:
  assumes "chans_ok cs rs" and "good_chan cs cap c"
  shows "\<exists>b cs'. ch_send c p cs = Inr (b, cs') \<and> chans_ok cs' rs \<and>
           b = (length (ch_buf (cs ! c)) < cap) \<and> length cs' = length cs \<and>
           ch_buf (cs' ! c) = ch_buf (cs ! c) @ (if b then [p] else []) \<and>
           (\<forall>d. d \<noteq> c \<longrightarrow> cs' ! d = cs ! d)"
proof -
  let ?cs = "cs[c := (cs ! c)\<lparr>ch_buf := ch_buf (cs ! c) @ [p]\<rparr>]"
  have "good_chan ?cs cap' d" if "good_chan cs cap' d" "length (ch_buf (cs ! c)) < cap" for cap' d
    using that assms(2) by (cases "d = c") (simp_all add: good_chan_def)
  with assms(1) have "chans_ok ?cs rs" if "length (ch_buf (cs ! c)) < cap"
    using that by (simp add: chans_ok_def)
  with assms show ?thesis by (simp add: ch_send_def good_chan_def)
qed

lemma ch_recv_ok:
  assumes "chans_ok cs rs"
  shows "chans_ok (snd (ch_recv c cs)) rs"
proof -
  have "good_chan (cs[c := (cs ! c)\<lparr>ch_buf := ps\<rparr>]) cap d"
    if "good_chan cs cap d" "ch_buf (cs ! c) = p # ps" for cap d p ps
    using that by (cases "d = c") (simp_all add: good_chan_def)
  then have "chans_ok (cs[c := (cs ! c)\<lparr>ch_buf := ps\<rparr>]) rs" if "ch_buf (cs ! c) = p # ps" for p ps
    using assms that unfolding chans_ok_def by blast
  with assms show ?thesis by (simp add: ch_recv_def split: list.splits)
qed

lemma rm_inv_chans: "rm_inv m \<Longrightarrow> chans_ok cs (byAge (rm_inner m)) \<Longrightarrow> rm_inv (m\<lparr>rm_chans := cs\<rparr>)"
  by (simp add: rm_inv_def)

lemma peer_chans [simp]: "peer (m\<lparr>rm_chans := cs\<rparr>) = peer m"
  by (simp add: fun_eq_iff peer_def)

lemma peer_good:
  assumes "rm_inv m" and "peer m a = Some r"
  shows "good_chan (rm_chans m) QueueSize (rec_SendQueue r)" and "good_chan (rm_chans m) 1 (rec_Stash r)"
  using assms peer_eq_Some [OF assms(1)] by (auto simp: rm_inv_def chans_ok_def)

lemma Lookup_ok:
  assumes "rm_inv m"
  shows "\<exists>r m'. Lookup a now m = Inr (r, m') \<and> rm_inv m' \<and> peer m' = (peer m)(a \<mapsto> r)"
  using Lookup_found [OF assms] Lookup_new [OF assms] by (cases "peer m a") blast+

lemma Stash_ok:
  assumes "rm_inv m"
  shows "\<exists>sent m'. Stash a p now m = Inr (sent, m') \<and> rm_inv m'"
proof -
  obtain r m1 where m1: "Lookup a now m = Inr (r, m1)" "rm_inv m1" "peer m1 a = Some r"
    using Lookup_ok [OF assms] by fastforce
  have "chans_ok (rm_chans m1) (byAge (rm_inner m1))" using m1(2) by (simp add: rm_inv_def)
  from ch_send_ok [OF this peer_good(2) [OF m1(2,3)], of p]
  obtain b cs where "ch_send (rec_Stash r) p (rm_chans m1) = Inr (b, cs)" "chans_ok cs (byAge (rm_inner m1))"
    by blast
  with rm_inv_chans [OF m1(2)] show ?thesis by (simp add: Stash_def m1(1))
qed

subsection \<open>Expiry\<close>

definition expired :: "int \<Rightarrow> int \<Rightarrow> 'a remoteRecord \<Rightarrow> bool" where
  "expired now timeout r \<longleftrightarrow> now - rec_LastSeen r \<ge> timeout"

text \<open>
  \<open>removeExpired\<close> on the abstract map: it drops exactly the records that are too old and
  closes exactly their send queues.
\<close>

lemma removeExpired_ok:
  assumes "rm_inv m"
  shows "\<exists>m'. removeExpired now timeout m = Inr m' \<and> rm_inv m' \<and>
     set (byAge (rm_inner m')) = {r \<in> set (byAge (rm_inner m)). \<not> expired now timeout r} \<and>
     length (rm_chans m') = length (rm_chans m) \<and>
     (\<forall>c < length (rm_chans m). rm_chans m' ! c =
        (if \<exists>r\<in>set (byAge (rm_inner m)). expired now timeout r \<and> rec_SendQueue r = c
         then (rm_chans m ! c)\<lparr>ch_closed := True\<rparr> else rm_chans m ! c))"
  using assms
proof (induction "length (byAge (rm_inner m))" arbitrary: m rule: less_induct)
  case less
  let ?inner = "rm_inner m"
  have wf: "inner_wf ?inner" and heap: "heap_ordered (map rec_LastSeen (byAge ?inner))"
    and ch: "chans_ok (rm_chans m) (byAge ?inner)" using less.prems by (simp_all add: rm_inv_def)
  show ?case
  proof (cases "byAge ?inner \<noteq> [] \<and> expired now timeout (byAge ?inner ! 0)")
    case False
    have "\<not> expired now timeout r" if "r \<in> set (byAge ?inner)" for r
    proof -
      from that obtain k where k: "k < length (byAge ?inner)" "r = byAge ?inner ! k"
        by (auto simp: in_set_conv_nth)
      then have "rec_LastSeen (byAge ?inner ! 0) \<le> rec_LastSeen r"
        using heap_min_root [OF heap, of k] nth_map [of 0 "byAge ?inner" rec_LastSeen]
        by (cases "byAge ?inner = []") simp_all
      with False k show ?thesis by (auto simp: expired_def)
    qed
    moreover have "removeExpired now timeout m = Inr m"
      using False by (subst removeExpired.simps) (auto simp: expired_def Let_def)
    ultimately show ?thesis using less.prems by auto
  next
    case True
    then have ne: "byAge ?inner \<noteq> []" by simp
    obtain h1 where h1: "age_Pop ?inner = inner_Pop h1" "inner_wf h1" "mset (byAge h1) = mset (byAge ?inner)"
      "last (byAge h1) = hd (byAge ?inner)" "heap_ordered (map rec_LastSeen (butlast (byAge h1)))"
      using age.Pop_correct [where pop = inner_Pop and len = inner_Len, OF wf ne inner_wf_Len [OF wf] heap] unfolding age_Pop_def by blast
    have ne1: "byAge h1 \<noteq> []" using ne h1(3) by (metis mset_zero_iff)
    obtain h' where h': "inner_Pop h1 = Inr (last (byAge h1), h')" "inner_wf h'" "byAge h' = butlast (byAge h1)"
      using inner_Pop_ok [OF h1(2) ne1] by blast
    let ?r = "last (byAge h1)"
    have r: "?r = byAge ?inner ! 0" using h1(4) ne by (simp add: hd_conv_nth)
    have split: "mset (byAge ?inner) = mset (byAge h' @ [?r])"
      using h1(3) h'(3) ne1 append_butlast_last_id [OF ne1] by metis
    have ch1: "chans_ok (rm_chans m) (byAge h' @ [?r])" using ch chans_ok_mset [OF split] by simp
    have set1: "set (byAge ?inner) = insert ?r (set (byAge h'))" using mset_eq_setD [OF split] by simp
    let ?c = "rec_SendQueue ?r"
    let ?cs = "(rm_chans m)[?c := (rm_chans m ! ?c)\<lparr>ch_closed := True\<rparr>]"
    have cl: "ch_close ?c (rm_chans m) = Inr ?cs" and cb: "?c < length (rm_chans m)"
      using ch1 by (simp_all add: chans_ok_def good_chan_def ch_close_def)
    have other: "rec_SendQueue x \<noteq> ?c \<and> rec_Stash x \<noteq> ?c" if "x \<in> set (byAge h')" for x
      using ch1 that by (auto simp: chans_ok_def image_iff)
    have "chans_ok ?cs (byAge h')"
      using ch1 other unfolding chans_ok_def good_chan_def by (auto simp: nth_list_update)
    then have inv': "rm_inv (m\<lparr>rm_inner := h', rm_chans := ?cs\<rparr>)"
      using h1(5) h' by (simp add: rm_inv_def)
    let ?m1 = "m\<lparr>rm_inner := h', rm_chans := ?cs\<rparr>"
    have m1: "rm_inner ?m1 = h'" "rm_chans ?m1 = ?cs" "length ?cs = length (rm_chans m)" by simp_all
    have "length (byAge h') < length (byAge ?inner)" using mset_eq_length [OF split] by simp
    from less.hyps [of ?m1, unfolded m1, OF this inv']
    obtain m2 where m2: "removeExpired now timeout ?m1 = Inr m2" "rm_inv m2"
      "set (byAge (rm_inner m2)) = {r \<in> set (byAge h'). \<not> expired now timeout r}"
      "length (rm_chans m2) = length (rm_chans m)"
      "\<forall>c < length (rm_chans m). rm_chans m2 ! c =
        (if \<exists>r\<in>set (byAge h'). expired now timeout r \<and> rec_SendQueue r = c
         then (?cs ! c)\<lparr>ch_closed := True\<rparr> else ?cs ! c)" by blast
    have "removeExpired now timeout m = Inr m2"
      using True h1(1) h'(1) cl m2(1) by (subst removeExpired.simps) (simp add: expired_def Let_def)
    moreover have "set (byAge (rm_inner m2)) = {r \<in> set (byAge ?inner). \<not> expired now timeout r}"
      using m2(3) set1 True r by auto
    moreover have "rm_chans m2 ! c =
        (if \<exists>r\<in>set (byAge ?inner). expired now timeout r \<and> rec_SendQueue r = c
         then (rm_chans m ! c)\<lparr>ch_closed := True\<rparr> else rm_chans m ! c)" if "c < length (rm_chans m)" for c
      using m2(5) that set1 True r other cb by (auto simp: nth_list_update)
    ultimately show ?thesis using m2(2,4) by auto
  qed
qed

section \<open>Properties\<close>

text \<open>
  The public operations, as data, so that a history is a list of them.  \<open>OpRecv\<close> is a receive on
  a channel that some caller fetched earlier; it may name any channel, live or closed.
\<close>

datatype 'a rm_op =
    OpSendQueue 'a int
  | OpStash 'a bytes int
  | OpUnstash 'a int
  | OpRecv nat
  | OpExpire int int

fun rm_step :: "'a rm_op \<Rightarrow> 'a RemoteMap \<Rightarrow> err + 'a RemoteMap" where
  "rm_step (OpSendQueue a now) m = bindE (SendQueue a now m) (\<lambda>(_, m'). Inr m')"
| "rm_step (OpStash a p now) m = bindE (Stash a p now m) (\<lambda>(_, m'). Inr m')"
| "rm_step (OpUnstash a now) m = bindE (Unstash a now m) (\<lambda>(_, m'). Inr m')"
| "rm_step (OpRecv c) m = Inr (m\<lparr>rm_chans := snd (ch_recv c (rm_chans m))\<rparr>)"
| "rm_step (OpExpire now timeout) m = removeExpired now timeout m"

fun rm_run :: "'a rm_op list \<Rightarrow> 'a RemoteMap \<Rightarrow> err + 'a RemoteMap" where
  "rm_run [] m = Inr m"
| "rm_run (op # ops) m = bindE (rm_step op m) (rm_run ops)"

lemma rm_step_ok:
  assumes "rm_inv m"
  shows "\<exists>m'. rm_step op m = Inr m' \<and> rm_inv m'"
proof (cases op)
  case (OpSendQueue a now)
  with fetch_ok [OF assms, of a now] show ?thesis by auto
next
  case (OpStash a p now)
  with Stash_ok [OF assms, of a p now] show ?thesis by auto
next
  case (OpUnstash a now)
  with fetch_ok [OF assms, of a now] show ?thesis by auto
next
  case (OpRecv c)
  have "chans_ok (rm_chans m) (byAge (rm_inner m))" using assms by (simp add: rm_inv_def)
  from rm_inv_chans [OF assms ch_recv_ok [OF this]] OpRecv show ?thesis by simp
next
  case (OpExpire now timeout)
  with removeExpired_ok [OF assms, of now timeout] show ?thesis by auto
qed

lemma rm_run_ok: "rm_inv m \<Longrightarrow> \<exists>m'. rm_run ops m = Inr m' \<and> rm_inv m'"
proof (induction ops arbitrary: m)
  case (Cons op ops)
  from rm_step_ok [OF Cons.prems, of op] obtain m1 where "rm_step op m = Inr m1" "rm_inv m1" by blast
  with Cons.IH [of m1] show ?case by simp
qed simp

text \<open>A map with one peer, seen at time 0.\<close>

lemma one_peer:
  "\<exists>m r. SendQueue (7 :: nat) 0 NewRemoteMap = Inr (0, m) \<and> rm_inv m \<and> peer m 7 = Some r \<and>
         rec_LastSeen r = 0 \<and> rec_SendQueue r = 0 \<and> length (rm_chans m) = 2"
proof -
  have none: "peer (NewRemoteMap :: nat RemoteMap) 7 = None" "rm_chans (NewRemoteMap :: nat RemoteMap) = []"
    by (simp_all add: peer_eq_None NewRemoteMap_def)
  from Lookup_new [OF rm_inv_New none(1), of 0] none(2)
  obtain r m where "Lookup (7 :: nat) 0 NewRemoteMap = Inr (r, m)" "rm_inv m" "peer m 7 = Some r"
    "rec_LastSeen r = 0" "rec_SendQueue r = 0" "length (rm_chans m) = 2" by auto
  then show ?thesis using none(1) by (auto simp: SendQueue_def peer_eq_None)
qed

text \<open>
  C6: Whatever history of operations a \<open>RemoteMap\<close> goes through, no panic of the code is
  reached (inconsistent map, duplicate address, index out of range, a channel closed twice, a send
  on a closed stash), and the invariant holds: the address map and the heap agree, the heap is
  ordered by age, and the channels of the live peers are pairwise different, open and within their
  capacity.
\<close>

theorem RemoteMap_safe: "\<exists>m. rm_run ops NewRemoteMap = Inr m \<and> rm_inv m"
  by (rule rm_run_ok) simp

text \<open>
  C7: \<open>removeExpired\<close> refines the abstract operation on the map of peers: exactly the peers
  last seen \<open>timeout\<close> or longer ago disappear, the others keep their records, exactly the send
  queues of the removed peers are closed, and no packet in any channel is touched.
\<close>

theorem removeExpired_exact:
  assumes "rm_inv m"
  shows "\<exists>m'. removeExpired now timeout m = Inr m' \<and> rm_inv m' \<and>
     peer m' = (\<lambda>a. case peer m a of None \<Rightarrow> None
                     | Some r \<Rightarrow> if expired now timeout r then None else Some r) \<and>
     map ch_buf (rm_chans m') = map ch_buf (rm_chans m) \<and>
     (\<forall>c < length (rm_chans m). ch_closed (rm_chans m' ! c) \<longleftrightarrow> ch_closed (rm_chans m ! c) \<or>
        (\<exists>a r. peer m a = Some r \<and> expired now timeout r \<and> rec_SendQueue r = c))"
proof -
  obtain m' where m': "removeExpired now timeout m = Inr m'" "rm_inv m'"
    "set (byAge (rm_inner m')) = {r \<in> set (byAge (rm_inner m)). \<not> expired now timeout r}"
    "length (rm_chans m') = length (rm_chans m)"
    "\<And>c. c < length (rm_chans m) \<Longrightarrow> rm_chans m' ! c =
        (if \<exists>r\<in>set (byAge (rm_inner m)). expired now timeout r \<and> rec_SendQueue r = c
         then (rm_chans m ! c)\<lparr>ch_closed := True\<rparr> else rm_chans m ! c)"
    using removeExpired_ok [OF assms] by blast
  have live: "(\<exists>r\<in>set (byAge (rm_inner m)). P r) \<longleftrightarrow> (\<exists>a r. peer m a = Some r \<and> P r)" for P
    using peer_eq_Some [OF assms] by blast
  have "peer m' a = (case peer m a of None \<Rightarrow> None
                     | Some r \<Rightarrow> if expired now timeout r then None else Some r)" for a
  proof (cases "peer m' a")
    case None
    have "expired now timeout r" if "peer m a = Some r" for r
      using that None peer_eq_Some [OF assms, of a r] peer_eq_Some [OF m'(2), of a r] m'(3) by auto
    with None show ?thesis by (auto split: option.splits)
  next
    case (Some r)
    then have "peer m a = Some r" "\<not> expired now timeout r"
      using peer_eq_Some [OF assms, of a r] peer_eq_Some [OF m'(2), of a r] m'(3) by auto
    with Some show ?thesis by simp
  qed
  moreover have "map ch_buf (rm_chans m') = map ch_buf (rm_chans m)"
    using m'(4,5) by (auto intro!: nth_equalityI)
  ultimately show ?thesis using m'(1,2,5) by (auto simp: live fun_eq_iff)
qed

theorem removeExpired_exact_witness:
  "\<exists>m m'. SendQueue (7 :: nat) 0 NewRemoteMap = Inr (0, m) \<and> removeExpired 240 240 m = Inr m' \<and>
          peer m' 7 = None \<and> ch_closed (rm_chans m' ! 0)"
proof -
  obtain m r where m: "SendQueue (7 :: nat) 0 NewRemoteMap = Inr (0, m)" "rm_inv m" "peer m 7 = Some r"
    "rec_LastSeen r = 0" "rec_SendQueue r = 0" "length (rm_chans m) = 2"
    using one_peer by blast
  have "expired 240 240 r" using m(4) by (simp add: expired_def)
  then have "\<exists>a r. peer m a = Some r \<and> expired 240 240 r \<and> rec_SendQueue r = 0" using m(3,5) by blast
  moreover obtain m' where "removeExpired 240 240 m = Inr m'"
    "peer m' = (\<lambda>a. case peer m a of None \<Rightarrow> None | Some r \<Rightarrow> if expired 240 240 r then None else Some r)"
    "\<forall>c < 2. ch_closed (rm_chans m' ! c) \<longleftrightarrow> ch_closed (rm_chans m ! c) \<or>
        (\<exists>a r. peer m a = Some r \<and> expired 240 240 r \<and> rec_SendQueue r = c)"
    using removeExpired_exact [OF m(2), of 240 240] unfolding m(6) by blast
  ultimately show ?thesis using m(1,3) \<open>expired 240 240 r\<close> by simp
qed

text \<open>
  Fetching a queue does not count as seeing the peer.  Once a peer has a record, later
  fetches of its send queue or stash, however recent, return the same channels and leave the
  whole map unchanged: the record keeps the time of its creation, and the peer is removed, its
  queue closed, \<open>timeout\<close> after that time even if it has been active all along.
\<close>

theorem fetch_does_not_refresh:
  assumes "rm_inv m" and "peer m a = Some r" and "expired now timeout r"
  shows "SendQueue a t m = Inr (rec_SendQueue r, m) \<and> Unstash a t m = Inr (rec_Stash r, m) \<and>
     (\<exists>m'. bindE (SendQueue a now m) (\<lambda>(_, m1). removeExpired now timeout m1) = Inr m' \<and>
           peer m' a = None \<and> ch_closed (rm_chans m' ! rec_SendQueue r))"
proof -
  have q: "SendQueue a t m = Inr (rec_SendQueue r, m) \<and> Unstash a t m = Inr (rec_Stash r, m)" for t
    using fetch_ok [OF assms(1), of a t] assms(2) by auto
  obtain m' where m': "removeExpired now timeout m = Inr m'" "rm_inv m'"
    "set (byAge (rm_inner m')) = {r \<in> set (byAge (rm_inner m)). \<not> expired now timeout r}"
    "\<And>c. c < length (rm_chans m) \<Longrightarrow> rm_chans m' ! c =
        (if \<exists>r\<in>set (byAge (rm_inner m)). expired now timeout r \<and> rec_SendQueue r = c
         then (rm_chans m ! c)\<lparr>ch_closed := True\<rparr> else rm_chans m ! c)"
    using removeExpired_ok [OF assms(1)] by blast
  have r: "r \<in> set (byAge (rm_inner m))" "rec_Addr r = a"
    using peer_eq_Some [OF assms(1)] assms(2) by auto
  have "peer m' a = None"
  proof (rule ccontr)
    assume "peer m' a \<noteq> None"
    then obtain r' where "peer m' a = Some r'" by blast
    then have "peer m a = Some r'" "\<not> expired now timeout r'"
      using peer_eq_Some [OF m'(2)] peer_eq_Some [OF assms(1)] m'(3) by auto
    with assms(2,3) show False by simp
  qed
  moreover have "rec_SendQueue r < length (rm_chans m)"
    using peer_good(1) [OF assms(1,2)] by (simp add: good_chan_def)
  then have "ch_closed (rm_chans m' ! rec_SendQueue r)" using m'(4) r(1) assms(3) by auto
  ultimately show ?thesis using q m'(1) by auto
qed

theorem fetch_does_not_refresh_witness:
  "\<exists>m m'. SendQueue (7 :: nat) 0 NewRemoteMap = Inr (0, m) \<and> SendQueue 7 239 m = Inr (0, m) \<and>
     bindE (SendQueue 7 240 m) (\<lambda>(_, m1). removeExpired 240 240 m1) = Inr m' \<and> peer m' 7 = None"
proof -
  obtain m r where m: "SendQueue (7 :: nat) 0 NewRemoteMap = Inr (0, m)" "rm_inv m" "peer m 7 = Some r"
    "rec_LastSeen r = 0" "rec_SendQueue r = 0" "length (rm_chans m) = 2"
    using one_peer by blast
  have "expired 240 240 r" using m(4) by (simp add: expired_def)
  from fetch_does_not_refresh [OF m(2,3) this, of 239] m(1,5) show ?thesis by auto
qed

end
