(* ===== verification/QueueConn.thy ===== *)
theory QueueConn
  imports RemoteMap
begin

text \<open>
  \<open>QueuePacketConn\<close> (\<open>src/turbotunnel/queuepacketconn.go\<close>): one bounded queue of incoming
  packets tagged with their source, and for each peer the bounded send queue and one-packet stash
  of its \<open>RemoteMap\<close>.  The locale \<open>mailboxes\<close> is the contract that the three kinds of queue
  share (append if there is room, else drop); it yields what a whole run of writes leaves in each
  of them.  The buffers of \<open>bufferPool\<close> are copied into and never shared, so a packet is its
  value here.
\<close>

section \<open>State and operations\<close>

record 'a QueuePacketConn =
  qc_remotes :: "'a RemoteMap"
  qc_localAddr :: 'a
  qc_recvQueue :: "(bytes \<times> 'a) list"
  qc_closed :: "err option"

definition NewQueuePacketConn :: "'a \<Rightarrow> 'a QueuePacketConn" where
  "NewQueuePacketConn localAddr =
     \<lparr>qc_remotes = NewRemoteMap, qc_localAddr = localAddr, qc_recvQueue = [], qc_closed = None\<rparr>"

definition QueueIncoming :: "bytes \<Rightarrow> 'a \<Rightarrow> 'a QueuePacketConn \<Rightarrow> 'a QueuePacketConn" where
  "QueueIncoming p addr c =
     (if qc_closed c \<noteq> None then c
      else if length (qc_recvQueue c) < QueueSize then c\<lparr>qc_recvQueue := qc_recvQueue c @ [(p, addr)]\<rparr>
      else c)"

definition OutgoingQueue :: "'a \<Rightarrow> int \<Rightarrow> 'a QueuePacketConn \<Rightarrow> err + nat \<times> 'a QueuePacketConn" where
  "OutgoingQueue addr now c =
     bindE (SendQueue addr now (qc_remotes c)) (\<lambda>(q, m). Inr (q, c\<lparr>qc_remotes := m\<rparr>))"

definition conn_Stash :: "bytes \<Rightarrow> 'a \<Rightarrow> int \<Rightarrow> 'a QueuePacketConn \<Rightarrow> err + bool \<times> 'a QueuePacketConn" where
  "conn_Stash p addr now c =
     bindE (Stash addr p now (qc_remotes c)) (\<lambda>(b, m). Inr (b, c\<lparr>qc_remotes := m\<rparr>))"

definition conn_Unstash :: "'a \<Rightarrow> int \<Rightarrow> 'a QueuePacketConn \<Rightarrow> err + nat \<times> 'a QueuePacketConn" where
  "conn_Unstash addr now c =
     bindE (Unstash addr now (qc_remotes c)) (\<lambda>(q, m). Inr (q, c\<lparr>qc_remotes := m\<rparr>))"

text \<open>\<open>None\<close>: the call blocks until a packet arrives or the connection is closed.\<close>

definition ReadFrom :: "nat \<Rightarrow> 'a QueuePacketConn \<Rightarrow> (err + bytes \<times> 'a) option \<times> 'a QueuePacketConn" where
  "ReadFrom n c =
     (case qc_closed c of
        Some e \<Rightarrow> (Some (Inl e), c)
      | None \<Rightarrow> (case qc_recvQueue c of
            [] \<Rightarrow> (None, c)
          | (p, addr) # q \<Rightarrow> (Some (Inr (take n p, addr)), c\<lparr>qc_recvQueue := q\<rparr>)))"

text \<open>
  \<open>WriteTo\<close> fetches the send queue and then sends on it; another goroutine may run between the
  two steps, so they are two definitions.
\<close>

definition WriteTo_fetch :: "'a \<Rightarrow> int \<Rightarrow> 'a QueuePacketConn \<Rightarrow> err + nat \<times> 'a QueuePacketConn" where
  "WriteTo_fetch addr now c =
     (case qc_closed c of
        Some e \<Rightarrow> Inl e
      | None \<Rightarrow> bindE (SendQueue addr now (qc_remotes c)) (\<lambda>(q, m). Inr (q, c\<lparr>qc_remotes := m\<rparr>)))"

definition WriteTo_send :: "nat \<Rightarrow> bytes \<Rightarrow> 'a QueuePacketConn \<Rightarrow> err + nat \<times> 'a QueuePacketConn" where
  "WriteTo_send q p c =
     bindE (ch_send q p (rm_chans (qc_remotes c))) (\<lambda>(_, cs).
       Inr (length p, c\<lparr>qc_remotes := (qc_remotes c)\<lparr>rm_chans := cs\<rparr>\<rparr>))"

definition WriteTo :: "bytes \<Rightarrow> 'a \<Rightarrow> int \<Rightarrow> 'a QueuePacketConn \<Rightarrow> err + nat \<times> 'a QueuePacketConn" where
  "WriteTo p addr now c = bindE (WriteTo_fetch addr now c) (\<lambda>(q, c'). WriteTo_send q p c')"

definition closeWithError :: "err option \<Rightarrow> 'a QueuePacketConn \<Rightarrow> (err + unit) \<times> 'a QueuePacketConn" where
  "closeWithError e c =
     (case qc_closed c of
        None \<Rightarrow> (Inr (), c\<lparr>qc_closed := Some (case e of None \<Rightarrow> Errorf | Some e \<Rightarrow> e)\<rparr>)
      | Some e' \<Rightarrow> (Inl e', c))"

definition Close :: "'a QueuePacketConn \<Rightarrow> (err + unit) \<times> 'a QueuePacketConn" where
  "Close c = closeWithError None c"

text \<open>A receive on a channel that was fetched before, in a \<open>select\<close>.\<close>

definition conn_recv :: "nat \<Rightarrow> 'a QueuePacketConn \<Rightarrow> bytes option \<times> 'a QueuePacketConn" where
  "conn_recv q c =
     (let (p, cs) = ch_recv q (rm_chans (qc_remotes c))
      in (p, c\<lparr>qc_remotes := (qc_remotes c)\<lparr>rm_chans := cs\<rparr>\<rparr>))"

section \<open>What a connection holds\<close>

definition conn_inv :: "'a QueuePacketConn \<Rightarrow> bool" where
  "conn_inv c \<longleftrightarrow> rm_inv (qc_remotes c) \<and> length (qc_recvQueue c) \<le> QueueSize"

text \<open>The packets waiting for a peer, and the packet in its stash.\<close>

definition sendq :: "'a RemoteMap \<Rightarrow> 'a \<Rightarrow> bytes list" where
  "sendq m a = (case peer m a of None \<Rightarrow> [] | Some r \<Rightarrow> ch_buf (rm_chans m ! rec_SendQueue r))"

definition stashq :: "'a RemoteMap \<Rightarrow> 'a \<Rightarrow> bytes list" where
  "stashq m a = (case peer m a of None \<Rightarrow> [] | Some r \<Rightarrow> ch_buf (rm_chans m ! rec_Stash r))"

definition outgoing :: "'a QueuePacketConn \<Rightarrow> 'a \<Rightarrow> bytes list" where
  "outgoing c = sendq (qc_remotes c)"

definition stashed :: "'a QueuePacketConn \<Rightarrow> 'a \<Rightarrow> bytes list" where
  "stashed c = stashq (qc_remotes c)"

section \<open>The contract of a family of bounded queues\<close>

fun put_all :: "('t \<Rightarrow> 'k \<Rightarrow> 'p \<Rightarrow> 's \<Rightarrow> err + 's) \<Rightarrow> ('t \<times> 'k \<times> 'p) list \<Rightarrow> 's \<Rightarrow> err + 's" where
  "put_all put [] s = Inr s"
| "put_all put ((t, k, p) # ws) s = bindE (put t k p s) (put_all put ws)"

definition packets_for :: "'k \<Rightarrow> ('t \<times> 'k \<times> 'p) list \<Rightarrow> 'p list" where
  "packets_for k ws = map (\<lambda>(t, k, p). p) (filter (\<lambda>(t, k', p). k' = k) ws)"

lemma packets_for_simps [simp]:
  "packets_for k [] = []"
  "packets_for k ((t, k', p) # ws) = (if k' = k then p # packets_for k ws else packets_for k ws)"
  by (simp_all add: packets_for_def)

locale mailboxes =
  fixes inv :: "'s \<Rightarrow> bool"
    and contents :: "'s \<Rightarrow> 'k \<Rightarrow> 'p list"
    and put :: "'t \<Rightarrow> 'k \<Rightarrow> 'p \<Rightarrow> 's \<Rightarrow> err + 's"
    and cap :: nat
  assumes put_ok: "inv s \<Longrightarrow> \<exists>s'. put t k p s = Inr s' \<and> inv s' \<and>
      contents s' = (contents s)(k := take cap (contents s k @ [p]))"
    and bounded: "inv s \<Longrightarrow> length (contents s k) \<le> cap"
begin

text \<open>
  A run of writes never fails, and leaves in each queue the packets that were there and those
  written to it, in order, up to the capacity.
\<close>

lemma put_all_ok:
  "inv s \<Longrightarrow> \<exists>s'. put_all put ws s = Inr s' \<and> inv s' \<and>
     (\<forall>k. contents s' k = take cap (contents s k @ packets_for k ws))"
proof (induction ws arbitrary: s)
  case Nil
  then show ?case by (simp add: bounded)
next
  case (Cons w ws)
  obtain t k p where w: "w = (t, k, p)" by (cases w)
  obtain s1 where s1: "put t k p s = Inr s1" "inv s1"
    "contents s1 = (contents s)(k := take cap (contents s k @ [p]))"
    using put_ok [OF Cons.prems] by blast
  obtain s2 where s2: "put_all put ws s1 = Inr s2" "inv s2"
    "\<And>k. contents s2 k = take cap (contents s1 k @ packets_for k ws)"
    using Cons.IH [OF s1(2)] by blast
  have "contents s2 k' = take cap (contents s k' @ packets_for k' (w # ws))" for k'
  proof (cases "k' = k")
    case True
    have "take cap (take cap xs @ ys) = take cap (xs @ ys)" for xs ys :: "'p list"
      by (cases "length xs \<le> cap") simp_all
    from this [of "contents s k @ [p]" "packets_for k ws"] True show ?thesis
      by (simp add: s2(3) s1(3) w)
  qed (simp add: s2(3) s1(3) w)
  with s1(1) s2(1,2) show ?case by (auto simp: w)
qed

end

subsection \<open>The incoming queue\<close>

definition put_incoming :: "unit \<Rightarrow> unit \<Rightarrow> bytes \<times> 'a \<Rightarrow> 'a QueuePacketConn \<Rightarrow> err + 'a QueuePacketConn" where
  "put_incoming t k pa c = Inr (QueueIncoming (fst pa) (snd pa) c)"

interpretation incoming: mailboxes
  "\<lambda>c. conn_inv c \<and> qc_closed c = None" "\<lambda>c k. qc_recvQueue c" put_incoming QueueSize
  by unfold_locales (auto simp: put_incoming_def QueueIncoming_def conn_inv_def fun_eq_iff)

subsection \<open>The send queues and the stashes\<close>

lemma chans_distinct:
  assumes "rm_inv m" and "peer m a = Some r" and "peer m b = Some r'"
  shows "rec_SendQueue r' = rec_SendQueue r \<longleftrightarrow> a = b" and "rec_Stash r' = rec_Stash r \<longleftrightarrow> a = b"
    and "rec_Stash r' \<noteq> rec_SendQueue r"
proof -
  have ra: "r \<in> set (byAge (rm_inner m)) \<and> rec_Addr r = a"
    and rb: "r' \<in> set (byAge (rm_inner m)) \<and> rec_Addr r' = b"
    using peer_eq_Some [OF assms(1)] assms(2,3) by blast+
  have mem: "r \<in> set (byAge (rm_inner m))" "r' \<in> set (byAge (rm_inner m))" "r = r' \<longleftrightarrow> a = b"
    using ra rb assms(2,3) by (blast, blast, metis option.inject)
  have "distinct (map rec_SendQueue (byAge (rm_inner m)) @ map rec_Stash (byAge (rm_inner m)))"
    using assms(1) by (simp add: rm_inv_def chans_ok_def)
  then have inj: "inj_on rec_SendQueue (set (byAge (rm_inner m)))" "inj_on rec_Stash (set (byAge (rm_inner m)))"
    and dis: "rec_SendQueue ` set (byAge (rm_inner m)) \<inter> rec_Stash ` set (byAge (rm_inner m)) = {}"
    by (simp_all add: distinct_map)
  show "rec_SendQueue r' = rec_SendQueue r \<longleftrightarrow> a = b" "rec_Stash r' = rec_Stash r \<longleftrightarrow> a = b"
    using inj_on_eq_iff [OF inj(1) mem(2,1)] inj_on_eq_iff [OF inj(2) mem(2,1)] mem(3) by auto
  show "rec_Stash r' \<noteq> rec_SendQueue r" using dis mem by blast
qed

lemma views_of_peers:
  assumes "peer m' = (peer m)(a \<mapsto> r)" and "rm_inv m"
    and "\<And>b x. peer m b = Some x \<Longrightarrow> rm_chans m' ! rec_SendQueue x = rm_chans m ! rec_SendQueue x \<and>
                 rm_chans m' ! rec_Stash x = rm_chans m ! rec_Stash x"
    and "ch_buf (rm_chans m' ! rec_SendQueue r) = sendq m a"
    and "ch_buf (rm_chans m' ! rec_Stash r) = stashq m a"
  shows "sendq m' = sendq m \<and> stashq m' = stashq m"
  using assms(1,3,4,5) by (auto simp: fun_eq_iff sendq_def stashq_def split: option.splits)

lemma Lookup_views:
  assumes "rm_inv m"
  shows "\<exists>r m'. Lookup a now m = Inr (r, m') \<and> rm_inv m' \<and> peer m' a = Some r \<and>
                sendq m' = sendq m \<and> stashq m' = stashq m"
proof (cases "peer m a")
  case None
  obtain r m' where m': "Lookup a now m = Inr (r, m')" "rm_inv m'" "peer m' = (peer m)(a \<mapsto> r)"
    "rec_SendQueue r = length (rm_chans m)" "rec_Stash r = Suc (length (rm_chans m))"
    "rm_chans m' = rm_chans m @ [make_chan QueueSize, make_chan 1]"
    using Lookup_new [OF assms None, of now] by auto
  have "sendq m' = sendq m \<and> stashq m' = stashq m"
  proof (rule views_of_peers [OF m'(3) assms])
    fix b x assume "peer m b = Some x"
    from peer_good [OF assms this]
    show "rm_chans m' ! rec_SendQueue x = rm_chans m ! rec_SendQueue x \<and>
          rm_chans m' ! rec_Stash x = rm_chans m ! rec_Stash x"
      by (simp add: m'(6) good_chan_def nth_append)
  qed (simp_all add: m' sendq_def stashq_def None make_chan_def nth_append)
  with m' show ?thesis by auto
next
  case (Some r)
  obtain m' where m': "Lookup a now m = Inr (r\<lparr>rec_LastSeen := now\<rparr>, m')" "rm_inv m'"
    "peer m' = (peer m)(a \<mapsto> r\<lparr>rec_LastSeen := now\<rparr>)" "rm_chans m' = rm_chans m"
    using Lookup_found [OF assms Some, of now] by blast
  have "sendq m' = sendq m \<and> stashq m' = stashq m"
    by (rule views_of_peers [OF m'(3) assms]; simp add: m'(4) sendq_def stashq_def Some)
  with m' show ?thesis by auto
qed

lemma fetch_views:
  assumes "rm_inv m"
  shows "\<exists>r m'. SendQueue a now m = Inr (rec_SendQueue r, m') \<and> Unstash a now m = Inr (rec_Stash r, m') \<and>
     rm_inv m' \<and> peer m' a = Some r \<and> sendq m' = sendq m \<and> stashq m' = stashq m"
proof -
  obtain r m' where m': "SendQueue a now m = Inr (rec_SendQueue r, m')" "Unstash a now m = Inr (rec_Stash r, m')"
    "rm_inv m'" "peer m' = (peer m)(a \<mapsto> r)"
    "case peer m a of Some r0 \<Rightarrow> r = r0 \<and> m' = m | None \<Rightarrow> Lookup a now m = Inr (r, m')"
    using fetch_ok [OF assms, of a now] by blast
  have "sendq m' = sendq m \<and> stashq m' = stashq m"
    using m'(5) Lookup_views [OF assms, of a now] by (auto split: option.splits)
  with m' show ?thesis by auto
qed

text \<open>A send on one channel of one peer shows in that queue alone.\<close>

lemma send_views:
  assumes "rm_inv m" and "peer m a = Some r"
  shows "\<exists>b cs. ch_send (rec_SendQueue r) p (rm_chans m) = Inr (b, cs) \<and> rm_inv (m\<lparr>rm_chans := cs\<rparr>) \<and>
      sendq (m\<lparr>rm_chans := cs\<rparr>) = (sendq m)(a := take QueueSize (sendq m a @ [p])) \<and>
      stashq (m\<lparr>rm_chans := cs\<rparr>) = stashq m"
    and "\<exists>b cs. ch_send (rec_Stash r) p (rm_chans m) = Inr (b, cs) \<and> rm_inv (m\<lparr>rm_chans := cs\<rparr>) \<and>
      stashq (m\<lparr>rm_chans := cs\<rparr>) = (stashq m)(a := take 1 (stashq m a @ [p])) \<and>
      sendq (m\<lparr>rm_chans := cs\<rparr>) = sendq m"
proof -
  have ok: "chans_ok (rm_chans m) (byAge (rm_inner m))" using assms(1) by (simp add: rm_inv_def)
  note good = peer_good [OF assms]
  note d = chans_distinct [OF assms] chans_distinct(3) [OF assms(1) _ assms(2)]
  have full: "take n xs = xs" "take n (xs @ [p]) = (if length xs < n then xs @ [p] else xs)"
    if "length xs \<le> n" for n and xs :: "bytes list" using that by auto
  show "\<exists>b cs. ch_send (rec_SendQueue r) p (rm_chans m) = Inr (b, cs) \<and> rm_inv (m\<lparr>rm_chans := cs\<rparr>) \<and>
      sendq (m\<lparr>rm_chans := cs\<rparr>) = (sendq m)(a := take QueueSize (sendq m a @ [p])) \<and>
      stashq (m\<lparr>rm_chans := cs\<rparr>) = stashq m"
  proof -
    obtain b cs where cs: "ch_send (rec_SendQueue r) p (rm_chans m) = Inr (b, cs)"
      "chans_ok cs (byAge (rm_inner m))" "b = (length (ch_buf (rm_chans m ! rec_SendQueue r)) < QueueSize)"
      "ch_buf (cs ! rec_SendQueue r) = ch_buf (rm_chans m ! rec_SendQueue r) @ (if b then [p] else [])"
      "\<And>d. d \<noteq> rec_SendQueue r \<Longrightarrow> cs ! d = rm_chans m ! d"
      using ch_send_ok [OF ok good(1), of p] by blast
    have "sendq (m\<lparr>rm_chans := cs\<rparr>) x = ((sendq m)(a := take QueueSize (sendq m a @ [p]))) x" for x
      using cs(3-5) assms(2) d(1) good(1) full(2)
      by (cases "x = a") (auto simp: sendq_def good_chan_def split: option.splits)
    moreover have "stashq (m\<lparr>rm_chans := cs\<rparr>) x = stashq m x" for x
      using cs(5) d(3) by (auto simp: stashq_def split: option.splits)
    ultimately show ?thesis using cs(1) rm_inv_chans [OF assms(1) cs(2)] by (auto simp: fun_eq_iff)
  qed
  show "\<exists>b cs. ch_send (rec_Stash r) p (rm_chans m) = Inr (b, cs) \<and> rm_inv (m\<lparr>rm_chans := cs\<rparr>) \<and>
      stashq (m\<lparr>rm_chans := cs\<rparr>) = (stashq m)(a := take 1 (stashq m a @ [p])) \<and>
      sendq (m\<lparr>rm_chans := cs\<rparr>) = sendq m"
  proof -
    obtain b cs where cs: "ch_send (rec_Stash r) p (rm_chans m) = Inr (b, cs)"
      "chans_ok cs (byAge (rm_inner m))" "b = (length (ch_buf (rm_chans m ! rec_Stash r)) < 1)"
      "ch_buf (cs ! rec_Stash r) = ch_buf (rm_chans m ! rec_Stash r) @ (if b then [p] else [])"
      "\<And>d. d \<noteq> rec_Stash r \<Longrightarrow> cs ! d = rm_chans m ! d"
      using ch_send_ok [OF ok good(2), of p] by blast
    have "stashq (m\<lparr>rm_chans := cs\<rparr>) x = ((stashq m)(a := take 1 (stashq m a @ [p]))) x" for x
      using cs(3-5) assms(2) d(2) good(2) full(2) [of _ 1]
      by (cases "x = a") (auto simp: stashq_def good_chan_def split: option.splits)
    moreover have "sendq (m\<lparr>rm_chans := cs\<rparr>) x = sendq m x" for x
      using cs(5) d(4) by (fastforce simp: sendq_def split: option.splits)
    ultimately show ?thesis using cs(1) rm_inv_chans [OF assms(1) cs(2)] by (auto simp: fun_eq_iff)
  qed
qed

text \<open>A receive takes the oldest packet of one queue.\<close>

lemma recv_views:
  assumes "rm_inv m" and "peer m a = Some r"
  shows "\<exists>cs. ch_recv (rec_SendQueue r) (rm_chans m) =
        ((case sendq m a of [] \<Rightarrow> None | p # _ \<Rightarrow> Some p), cs) \<and> rm_inv (m\<lparr>rm_chans := cs\<rparr>) \<and>
      sendq (m\<lparr>rm_chans := cs\<rparr>) = (sendq m)(a := tl (sendq m a)) \<and> stashq (m\<lparr>rm_chans := cs\<rparr>) = stashq m"
    and "\<exists>cs. ch_recv (rec_Stash r) (rm_chans m) =
        ((case stashq m a of [] \<Rightarrow> None | p # _ \<Rightarrow> Some p), cs) \<and> rm_inv (m\<lparr>rm_chans := cs\<rparr>) \<and>
      stashq (m\<lparr>rm_chans := cs\<rparr>) = (stashq m)(a := tl (stashq m a)) \<and> sendq (m\<lparr>rm_chans := cs\<rparr>) = sendq m"
proof -
  have ok: "chans_ok (rm_chans m) (byAge (rm_inner m))" using assms(1) by (simp add: rm_inv_def)
  note good = peer_good [OF assms]
  note d = chans_distinct [OF assms] chans_distinct(3) [OF assms(1) _ assms(2)]
  let ?q = "rec_SendQueue r" and ?s = "rec_Stash r"
  have upd: "snd (ch_recv c (rm_chans m)) ! e =
      (if e = c then (rm_chans m ! c)\<lparr>ch_buf := tl (ch_buf (rm_chans m ! c))\<rparr> else rm_chans m ! e)"
    if "c < length (rm_chans m)" for c e
    using that by (auto simp: ch_recv_def split: list.splits)
  have views: "sendq m a = ch_buf (rm_chans m ! ?q)" "stashq m a = ch_buf (rm_chans m ! ?s)"
    using assms(2) by (simp_all add: sendq_def stashq_def)
  show "\<exists>cs. ch_recv ?q (rm_chans m) = ((case sendq m a of [] \<Rightarrow> None | p # _ \<Rightarrow> Some p), cs) \<and>
      rm_inv (m\<lparr>rm_chans := cs\<rparr>) \<and>
      sendq (m\<lparr>rm_chans := cs\<rparr>) = (sendq m)(a := tl (sendq m a)) \<and> stashq (m\<lparr>rm_chans := cs\<rparr>) = stashq m"
  proof (intro exI conjI)
    let ?cs = "snd (ch_recv ?q (rm_chans m))"
    show "ch_recv ?q (rm_chans m) = ((case sendq m a of [] \<Rightarrow> None | p # _ \<Rightarrow> Some p), ?cs)"
      using good(1) by (auto simp: views ch_recv_def good_chan_def split: list.splits)
    show "rm_inv (m\<lparr>rm_chans := ?cs\<rparr>)" using rm_inv_chans [OF assms(1) ch_recv_ok [OF ok]] .
    show "sendq (m\<lparr>rm_chans := ?cs\<rparr>) = (sendq m)(a := tl (sendq m a))"
      using upd [of ?q] good(1) d(1) assms(2)
      by (fastforce simp: sendq_def good_chan_def split: option.splits)
    show "stashq (m\<lparr>rm_chans := ?cs\<rparr>) = stashq m"
      using upd [of ?q] good(1) d(3) by (auto simp: stashq_def good_chan_def split: option.splits)
  qed
  show "\<exists>cs. ch_recv ?s (rm_chans m) = ((case stashq m a of [] \<Rightarrow> None | p # _ \<Rightarrow> Some p), cs) \<and>
      rm_inv (m\<lparr>rm_chans := cs\<rparr>) \<and>
      stashq (m\<lparr>rm_chans := cs\<rparr>) = (stashq m)(a := tl (stashq m a)) \<and> sendq (m\<lparr>rm_chans := cs\<rparr>) = sendq m"
  proof (intro exI conjI)
    let ?cs = "snd (ch_recv ?s (rm_chans m))"
    show "ch_recv ?s (rm_chans m) = ((case stashq m a of [] \<Rightarrow> None | p # _ \<Rightarrow> Some p), ?cs)"
      using good(2) by (auto simp: views ch_recv_def good_chan_def split: list.splits)
    show "rm_inv (m\<lparr>rm_chans := ?cs\<rparr>)" using rm_inv_chans [OF assms(1) ch_recv_ok [OF ok]] .
    show "stashq (m\<lparr>rm_chans := ?cs\<rparr>) = (stashq m)(a := tl (stashq m a))"
      using upd [of ?s] good(2) d(2) assms(2)
      by (fastforce simp: stashq_def good_chan_def split: option.splits)
    show "sendq (m\<lparr>rm_chans := ?cs\<rparr>) = sendq m"
      using upd [of ?s] good(2) d(4) by (fastforce simp: sendq_def good_chan_def split: option.splits)
  qed
qed

lemma queue_lengths:
  assumes "rm_inv m"
  shows "length (sendq m a) \<le> QueueSize" and "length (stashq m a) \<le> 1"
  using peer_good [OF assms, of a]
  by (auto simp: sendq_def stashq_def good_chan_def split: option.splits)

section \<open>The operations of the connection\<close>

lemma conn_inv_New [simp]: "conn_inv (NewQueuePacketConn localAddr)"
  by (simp add: conn_inv_def NewQueuePacketConn_def)

lemma New_open [simp]: "qc_closed (NewQueuePacketConn localAddr) = None"
  by (simp add: NewQueuePacketConn_def)

lemma WriteTo_ok:
  assumes "conn_inv c" and "qc_closed c = None"
  shows "\<exists>c'. WriteTo p a now c = Inr (length p, c') \<and> conn_inv c' \<and> qc_closed c' = None \<and>
     outgoing c' = (outgoing c)(a := take QueueSize (outgoing c a @ [p])) \<and> stashed c' = stashed c \<and>
     qc_recvQueue c' = qc_recvQueue c"
proof -
  obtain r m where m: "SendQueue a now (qc_remotes c) = Inr (rec_SendQueue r, m)" "rm_inv m"
    "peer m a = Some r" "sendq m = sendq (qc_remotes c)" "stashq m = stashq (qc_remotes c)"
    using fetch_views [of "qc_remotes c" a now] assms(1) by (auto simp: conn_inv_def)
  obtain b cs where "ch_send (rec_SendQueue r) p (rm_chans m) = Inr (b, cs)" "rm_inv (m\<lparr>rm_chans := cs\<rparr>)"
    "sendq (m\<lparr>rm_chans := cs\<rparr>) = (sendq m)(a := take QueueSize (sendq m a @ [p]))"
    "stashq (m\<lparr>rm_chans := cs\<rparr>) = stashq m"
    using send_views(1) [OF m(2,3), of p] by blast
  with m assms show ?thesis
    by (simp add: WriteTo_def WriteTo_fetch_def WriteTo_send_def conn_inv_def outgoing_def stashed_def)
qed

lemma conn_Stash_ok:
  assumes "conn_inv c"
  shows "\<exists>b c'. conn_Stash p a now c = Inr (b, c') \<and> conn_inv c' \<and> qc_closed c' = qc_closed c \<and>
     stashed c' = (stashed c)(a := take 1 (stashed c a @ [p])) \<and> outgoing c' = outgoing c \<and>
     qc_recvQueue c' = qc_recvQueue c"
proof -
  obtain r m where m: "Lookup a now (qc_remotes c) = Inr (r, m)" "rm_inv m"
    "peer m a = Some r" "sendq m = sendq (qc_remotes c)" "stashq m = stashq (qc_remotes c)"
    using Lookup_views [of "qc_remotes c" a now] assms(1) by (auto simp: conn_inv_def)
  obtain b cs where "ch_send (rec_Stash r) p (rm_chans m) = Inr (b, cs)" "rm_inv (m\<lparr>rm_chans := cs\<rparr>)"
    "stashq (m\<lparr>rm_chans := cs\<rparr>) = (stashq m)(a := take 1 (stashq m a @ [p]))"
    "sendq (m\<lparr>rm_chans := cs\<rparr>) = sendq m"
    using send_views(2) [OF m(2,3), of p] by blast
  with m assms show ?thesis
    by (simp add: conn_Stash_def Stash_def conn_inv_def outgoing_def stashed_def)
qed

definition put_outgoing :: "int \<Rightarrow> 'a \<Rightarrow> bytes \<Rightarrow> 'a QueuePacketConn \<Rightarrow> err + 'a QueuePacketConn" where
  "put_outgoing now a p c = bindE (WriteTo p a now c) (\<lambda>(_, c'). Inr c')"

definition put_stash :: "int \<Rightarrow> 'a \<Rightarrow> bytes \<Rightarrow> 'a QueuePacketConn \<Rightarrow> err + 'a QueuePacketConn" where
  "put_stash now a p c = bindE (conn_Stash p a now c) (\<lambda>(_, c'). Inr c')"

interpretation outgoing: mailboxes
  "\<lambda>c. conn_inv c \<and> qc_closed c = None" outgoing put_outgoing QueueSize
proof unfold_locales
  fix s :: "'a QueuePacketConn" and t k p assume "conn_inv s \<and> qc_closed s = None"
  with WriteTo_ok [of s p k t] show "\<exists>s'. put_outgoing t k p s = Inr s' \<and>
      (conn_inv s' \<and> qc_closed s' = None) \<and>
      outgoing s' = (outgoing s)(k := take QueueSize (outgoing s k @ [p]))"
    by (auto simp: put_outgoing_def)
qed (auto simp: outgoing_def conn_inv_def queue_lengths)

interpretation stash: mailboxes conn_inv stashed put_stash 1
proof unfold_locales
  fix s :: "'a QueuePacketConn" and t k p assume "conn_inv s"
  with conn_Stash_ok [of s p k t] show "\<exists>s'. put_stash t k p s = Inr s' \<and> conn_inv s' \<and>
      stashed s' = (stashed s)(k := take 1 (stashed s k @ [p]))"
    by (auto simp: put_stash_def)
qed (use queue_lengths(2) in \<open>auto simp: stashed_def conn_inv_def\<close>)

section \<open>Properties\<close>

text \<open>
  C8: Writes to a connection never fail while it is open, and each peer's send queue holds exactly
  the packets written to that peer, in order, up to 1024: a write to one peer never shows up in, or
  displaces a packet from, the queue of another, and packets past the capacity are dropped.
\<close>

theorem WriteTo_per_peer_fifo:
  "\<exists>c. put_all put_outgoing ws (NewQueuePacketConn localAddr) = Inr c \<and>
       (\<forall>a. outgoing c a = take QueueSize (packets_for a ws))"
proof -
  have "outgoing (NewQueuePacketConn localAddr) a = []" for a
    by (simp add: outgoing_def sendq_def NewQueuePacketConn_def NewRemoteMap_def peer_def)
  with outgoing.put_all_ok [of "NewQueuePacketConn localAddr" ws] show ?thesis
    by (metis append_Nil conn_inv_New New_open)
qed

text \<open>
  The stash of a peer holds one packet: of any sequence of packets stashed for a peer the
  first is kept and the others are refused, whatever is stashed for other peers.
\<close>

theorem stash_keeps_first:
  "\<exists>c. put_all put_stash ws (NewQueuePacketConn localAddr) = Inr c \<and>
       (\<forall>a. stashed c a = take 1 (packets_for a ws))"
proof -
  have "stashed (NewQueuePacketConn localAddr) a = []" for a
    by (simp add: stashed_def stashq_def NewQueuePacketConn_def NewRemoteMap_def peer_def)
  with stash.put_all_ok [of "NewQueuePacketConn localAddr" ws] show ?thesis by (metis append_Nil conn_inv_New)
qed

text \<open>
  After \<open>Close\<close> the connection is inert: incoming packets are dropped, reads and writes
  return the stored error, a second \<open>Close\<close> returns an error, and none of them changes the
  state again.
\<close>

theorem closed_is_inert:
  assumes "qc_closed c = None" and "Close c = (r, c')"
  shows "r = Inr () \<and> QueueIncoming p a c' = c' \<and> ReadFrom n c' = (Some (Inl Errorf), c') \<and>
     WriteTo p a now c' = Inl Errorf \<and> Close c' = (Inl Errorf, c')"
  using assms
  by (auto simp: Close_def closeWithError_def QueueIncoming_def ReadFrom_def WriteTo_def WriteTo_fetch_def)

theorem closed_is_inert_witness:
  "WriteTo [1] (5 :: nat) 0 (snd (Close (NewQueuePacketConn 0))) = Inl Errorf"
  using closed_is_inert [OF New_open prod.collapse [symmetric], of 0] by blast

text \<open>
  \<open>WriteTo\<close> can panic.  It fetches the send queue of the peer and then sends on it; when the
  peer's record has reached its age limit, which fetching does not refresh, the expiry goroutine
  can run between the two steps and close the queue, and the send is then a send on a closed
  channel.
\<close>

theorem WriteTo_expiry_race:
  assumes "conn_inv c" and "qc_closed c = None" and "peer (qc_remotes c) a = Some r"
    and "expired now timeout r"
  shows "\<exists>m. WriteTo_fetch a t c = Inr (rec_SendQueue r, c) \<and>
     removeExpired now timeout (qc_remotes c) = Inr m \<and>
     WriteTo_send (rec_SendQueue r) p (c\<lparr>qc_remotes := m\<rparr>) = Inl Panic"
proof -
  have inv: "rm_inv (qc_remotes c)" using assms(1) by (simp add: conn_inv_def)
  have "SendQueue a t (qc_remotes c) = Inr (rec_SendQueue r, qc_remotes c)"
    using fetch_ok [OF inv, of a t] assms(3) by auto
  moreover obtain m where "removeExpired now timeout (qc_remotes c) = Inr m"
    "\<forall>i < length (rm_chans (qc_remotes c)). rm_chans m ! i =
        (if \<exists>r\<in>set (byAge (rm_inner (qc_remotes c))). expired now timeout r \<and> rec_SendQueue r = i
         then (rm_chans (qc_remotes c) ! i)\<lparr>ch_closed := True\<rparr> else rm_chans (qc_remotes c) ! i)"
    using removeExpired_ok [OF inv] by blast
  moreover from this(2) have "ch_closed (rm_chans m ! rec_SendQueue r)"
    using peer_good(1) [OF inv assms(3)] peer_eq_Some [OF inv] assms(3,4) by (auto simp: good_chan_def)
  ultimately show ?thesis
    using assms(2) by (simp add: WriteTo_fetch_def WriteTo_send_def ch_send_def)
qed

theorem WriteTo_expiry_race_witness:
  "\<exists>m c. SendQueue (7 :: nat) 0 NewRemoteMap = Inr (0, m) \<and>
     c = (NewQueuePacketConn 0)\<lparr>qc_remotes := m\<rparr> \<and> WriteTo_fetch 7 239 c = Inr (0, c) \<and>
     (\<exists>m'. removeExpired 240 240 m = Inr m' \<and> WriteTo_send 0 [1] (c\<lparr>qc_remotes := m'\<rparr>) = Inl Panic)"
proof -
  obtain m r where m: "SendQueue (7 :: nat) 0 NewRemoteMap = Inr (0, m)" "rm_inv m" "peer m 7 = Some r"
    "rec_LastSeen r = 0" "rec_SendQueue r = 0"
    using one_peer by blast
  let ?c = "(NewQueuePacketConn 0)\<lparr>qc_remotes := m\<rparr>"
  have "conn_inv ?c" "qc_closed ?c = None" "peer (qc_remotes ?c) 7 = Some r" "expired 240 240 r"
    using m by (simp_all add: conn_inv_def NewQueuePacketConn_def expired_def)
  from WriteTo_expiry_race [OF this, of 239 "[1]"] m(1,5) show ?thesis by auto
qed

end
