(* ===== verification/ClientID.thy ===== *)
theory ClientID
  imports GoStd
begin

text \<open>
  Addresses: \<open>ClientID\<close> of \<open>src/turbotunnel/clientid.go\<close> and \<open>DummyAddr\<close> of
  \<open>src/turbotunnel/consts.go\<close>, which implement \<open>net.Addr\<close> beside the addresses of real
  sockets.  A \<open>ClientID\<close> is an array of eight bytes.
\<close>

type_synonym ClientID = bytes

datatype net_addr =
    DummyAddr
  | ClientAddr ClientID
  | SocketAddr string

text \<open>\<open>rand.Read\<close> fills the array or reports an error; the error is a panic here.\<close>

definition NewClientID :: "err + bytes \<Rightarrow> err + ClientID" where
  "NewClientID rand = (case rand of Inl _ \<Rightarrow> Inl Panic | Inr cid \<Rightarrow> Inr cid)"

definition ClientID_String :: "ClientID \<Rightarrow> bytes" where
  "ClientID_String cid = hex_encode cid"

text \<open>The text of a ClientID identifies it.\<close>

lemma ClientID_String_inj: "ClientID_String a = ClientID_String b \<longleftrightarrow> a = b"
  unfolding ClientID_String_def by (metis hex_decode_encode sum.inject(2))

end
