(* ===== verification/Client.thy ===== *)
theory Client
  imports DnsLimits DnsTxt Base32 Framing QueueConn ClientID
begin

text \<open>
  The client's side of the DNS channel (\<open>src/dnstt-client/lib/dns.go\<close>): a packet and its padding
  become the labels of a query name (\<open>send\<close>), a response's TXT record becomes packets
  (\<open>dnsResponsePayload\<close>, \<open>nextPacket\<close>, \<open>recvLoop\<close>); and the packet size that the domain
  leaves room for (\<open>dnsNameCapacity\<close> of \<open>client.go\<close>).
\<close>

section \<open>Constants and state\<close>

definition numPadding :: nat where "numPadding = 3"
definition numPaddingForPoll :: nat where "numPaddingForPoll = 8"
definition pollLimit :: nat where "pollLimit = 64"

text \<open>\<open>pollChan\<close> carries empty values, so its contents are a count.\<close>

record DNSPacketConn =
  dc_clientID :: ClientID
  dc_domain :: Name
  dc_pollChan :: nat
  dc_conn :: "net_addr QueuePacketConn"

section \<open>Receiving\<close>

definition dnsResponsePayload :: "casemap \<Rightarrow> Message \<Rightarrow> Name \<Rightarrow> bytes option" where
  "dnsResponsePayload u resp domain =
     (if msg_Flags resp AND 0x8000 \<noteq> 0x8000 then None
      else if msg_Flags resp AND 0x000f \<noteq> RcodeNoError then None
      else if length (msg_Answer resp) \<noteq> 1 then None
      else
        let answer = msg_Answer resp ! 0
        in case Name_TrimSuffix u (rr_Name answer) domain of
             None \<Rightarrow> None
           | Some _ \<Rightarrow>
               if rr_Type answer \<noteq> RRTypeTXT then None
               else (case DecodeRDataTXT (rr_Data answer) of
                       Inl _ \<Rightarrow> None
                     | Inr payload \<Rightarrow> Some payload))"

definition client_nextPacket :: "bytes \<Rightarrow> err + bytes \<times> bytes" where
  "client_nextPacket r =
     bindE (read_u16 r) (\<lambda>(n, r'). unexpectedE (ReadFull (unat n) r'))"

lemma client_nextPacket_shrinks:
  "client_nextPacket r = Inr (p, r') \<Longrightarrow> length r' < length r"
  by (auto simp: client_nextPacket_def result_simps ReadFull_eq_Inr dest!: read_u16_shrinks)

text \<open>The loop of \<open>recvLoop\<close> over the packets of one payload, and the error that ends it.\<close>

function client_packets :: "bytes \<Rightarrow> bytes list \<times> err" where
  "client_packets r =
     (case client_nextPacket r of
        Inl e \<Rightarrow> ([], e)
      | Inr (p, r') \<Rightarrow> (case client_packets r' of (ps, e) \<Rightarrow> (p # ps, e)))"
  by pat_completeness auto
termination
  by (relation "measure length") (auto dest: client_nextPacket_shrinks)

declare client_packets.simps [simp del]

text \<open>One datagram through \<open>recvLoop\<close>, of which at most 4096 bytes are read.\<close>

definition client_recv :: "casemap \<Rightarrow> bytes \<Rightarrow> net_addr \<Rightarrow> DNSPacketConn \<Rightarrow> DNSPacketConn" where
  "client_recv u datagram addr c =
     (case MessageFromWireFormat (take 4096 datagram) of
        Inl _ \<Rightarrow> c
      | Inr resp \<Rightarrow>
          let payload = (case dnsResponsePayload u resp (dc_domain c) of None \<Rightarrow> [] | Some p \<Rightarrow> p);
              ps = fst (client_packets payload);
              c' = c\<lparr>dc_conn := fold (\<lambda>p. QueueIncoming p addr) ps (dc_conn c)\<rparr>
          in if ps \<noteq> [] \<and> dc_pollChan c' < pollLimit then c'\<lparr>dc_pollChan := dc_pollChan c' + 1\<rparr>
             else c')"

section \<open>Sending\<close>

text \<open>With \<open>n = 0\<close> the loop of \<open>chunks\<close> would not end: the value is then \<open>None\<close>.\<close>

partial_function (option) chunks :: "bytes \<Rightarrow> nat \<Rightarrow> bytes list option" where
  "chunks p n =
     (if p = [] then Some []
      else
        let sz = (if length p > n then n else length p)
        in Option.bind (chunks (drop sz p) n) (\<lambda>result. Some (take sz p # result)))"

text \<open>
  The decoded form of a query: the ClientID, a padding prefix and its random bytes, and the packet
  with its length.  \<open>rand\<close> is what is read from the system's random number generator.
\<close>

definition encodePacket :: "ClientID \<Rightarrow> bytes \<Rightarrow> bytes \<Rightarrow> err + bytes" where
  "encodePacket clientID rand p =
     (if length p \<ge> 224 then Inl Errorf
      else
        let n = (if length p = 0 then numPaddingForPoll else numPadding)
        in Inr (clientID @ [of_nat (224 + n)] @ take n rand @
                (if length p > 0 then of_nat (length p) # p else [])))"

definition query_for :: "u16 \<Rightarrow> Name \<Rightarrow> Message" where
  "query_for qid name =
     \<lparr>msg_ID = qid, msg_Flags = 0x0100,
      msg_Question = [\<lparr>q_Name = name, q_Type = RRTypeTXT, q_Class = ClassIN\<rparr>],
      msg_Answer = [], msg_Authority = [],
      msg_Additional = [\<lparr>rr_Name = [], rr_Type = RRTypeOPT, rr_Class = 4096, rr_TTL = 0, rr_Data = []\<rparr>]\<rparr>"

text \<open>\<open>send\<close>: the datagram given to \<open>transport.WriteTo\<close>.\<close>

definition send :: "casemap \<Rightarrow> u16 \<Rightarrow> bytes \<Rightarrow> bytes \<Rightarrow> DNSPacketConn \<Rightarrow> (err + bytes) option" where
  "send u qid rand p c =
     (case encodePacket (dc_clientID c) rand p of
        Inl e \<Rightarrow> Some (Inl e)
      | Inr decoded \<Rightarrow>
          (case chunks (ToLower u (b32_encode decoded)) 63 of
             None \<Rightarrow> None
           | Some labels \<Rightarrow>
               Some (bindE (NewName (labels @ dc_domain c)) (\<lambda>name. WireFormat (query_for qid name)))))"

section \<open>The room a domain leaves\<close>

fun nameCapacity_loop :: "int \<Rightarrow> Name \<Rightarrow> int" where
  "nameCapacity_loop capacity [] = capacity"
| "nameCapacity_loop capacity (label # domain) =
     nameCapacity_loop (capacity - (int (length label) + 1)) domain"

text \<open>Go's division truncates towards zero; a valid domain leaves a capacity that is not negative.\<close>

definition quo :: "int \<Rightarrow> int \<Rightarrow> int" where
  "quo a b = (if 0 \<le> a then a div b else - (- a div b))"

definition dnsNameCapacity :: "Name \<Rightarrow> int" where
  "dnsNameCapacity domain =
     (let capacity = nameCapacity_loop (255 - 1) domain;
          capacity = quo (capacity * 63) 64
      in quo (capacity * 5) 8)"

definition client_mtu :: "Name \<Rightarrow> int" where
  "client_mtu domain = dnsNameCapacity domain - 8 - 1 - int numPadding - 1"

section \<open>The framing of downstream packets\<close>

interpretation downstream: framing client_nextPacket frame16 ok16 client_packets EOF
proof
  fix p rest assume "ok16 p"
  then show "client_nextPacket (frame16 p @ rest) = Inr (p, rest)"
    by (simp add: client_nextPacket_def frame16_def ok16_def)
next
  show "client_nextPacket [] = Inl EOF" by (simp add: client_nextPacket_def)
next
  fix p k assume "ok16 p" "k < length (frame16 p)" "0 < k"
  then show "\<exists>e. client_nextPacket (take k (frame16 p)) = Inl e \<and> e \<noteq> EOF"
    by (auto simp: client_nextPacket_def read_u16_cut ok16_def ReadFull_def unexpected_def)
next
  fix s e assume "client_nextPacket s = Inl e"
  then show "client_packets s = ([], e)" by (subst client_packets.simps) simp
next
  fix s p rest assume "client_nextPacket s = Inr (p, rest)"
  then show "client_packets s = (case client_packets rest of (ps, e) \<Rightarrow> (p # ps, e))"
    by (subst client_packets.simps) simp
qed

section \<open>Lemmas on chunks\<close>

lemma chunks_ok:
  assumes "0 < n"
  shows "\<exists>ls. chunks p n = Some ls \<and> concat ls = p \<and> list_all (\<lambda>l. l \<noteq> [] \<and> length l \<le> n) ls \<and>
     length ls = (length p + n - 1) div n"
proof (induction p rule: length_induct)
  case (1 p)
  show ?case
  proof (cases "p = []")
    case True
    then show ?thesis using assms by (subst chunks.simps) simp
  next
    case False
    let ?sz = "if length p > n then n else length p"
    have sz: "0 < ?sz" "?sz \<le> n" using False assms by auto
    have "length (drop ?sz p) < length p" using sz False by simp
    with 1 obtain ls where ls: "chunks (drop ?sz p) n = Some ls" "concat ls = drop ?sz p"
      "list_all (\<lambda>l. l \<noteq> [] \<and> length l \<le> n) ls" "length ls = (length (drop ?sz p) + n - 1) div n"
      by blast
    have "chunks p n = Some (take ?sz p # ls)"
      using False ls(1) by (subst chunks.simps) (simp add: Let_def)
    moreover have "length (take ?sz p # ls) = (length p + n - 1) div n"
    proof (cases "length p > n")
      case True
      then have len: "length ls = (length p - 1) div n" using ls(4) by simp
      have "(length p + n - 1) div n = ((length p - 1) + n) div n" using True by simp
      also have "\<dots> = Suc ((length p - 1) div n)" using assms by simp
      finally show ?thesis using len by simp
    next
      case less: False
      obtain k where k: "length p = Suc k" "k < n" using less False by (cases p) auto
      have "(length p + n - 1) div n = Suc (k div n)" using assms by (simp add: k(1))
      also have "\<dots> = 1" using k(2) by simp
      finally have "(length p + n - 1) div n = 1" .
      moreover have "length ls = 0" using ls(4) less assms by simp
      ultimately show ?thesis by simp
    qed
    moreover have "concat (take ?sz p # ls) = p" using ls(2) by simp
    moreover have "list_all (\<lambda>l. l \<noteq> [] \<and> length l \<le> n) (take ?sz p # ls)"
      using ls(3) sz False by auto
    ultimately show ?thesis by blast
  qed
qed

section \<open>What send sends\<close>

lemma nameCapacity_loop_eq: "nameCapacity_loop c domain = c + 1 - int (name_octets domain)"
  by (induction c domain rule: nameCapacity_loop.induct) (simp_all add: name_octets_def)

lemma name_octets_append: "name_octets (a @ b) + 1 = name_octets a + name_octets b"
  by (simp add: name_octets_def)

text \<open>An encoding of at most 63/64 of the free octets fits, with one length octet per 63.\<close>

lemma labels_fit:
  assumes "64 * e \<le> 63 * (C :: nat)"
  shows "e + (e + 63 - 1) div 63 \<le> C"
proof -
  have "e \<le> C" using assms by linarith
  then have "e + 62 < 63 * (C - e + 1)" using assms by (simp add: algebra_simps diff_mult_distrib2)
  then have "(e + 62) div 63 < C - e + 1" by (simp add: less_mult_imp_div_less mult.commute)
  with \<open>e \<le> C\<close> show ?thesis by simp
qed

lemma capacity_fits:
  assumes "valid_name domain" and "int n \<le> dnsNameCapacity domain"
  shows "(8 * n + 4) div 5 + ((8 * n + 4) div 5 + 63 - 1) div 63 + name_octets domain \<le> 255"
proof -
  define C where "C = 255 - name_octets domain"
  have C: "name_octets domain + C = 255" using assms(1) by (simp add: valid_name_def C_def)
  then have "nameCapacity_loop (255 - 1) domain = int C" by (simp add: nameCapacity_loop_eq)
  then have "dnsNameCapacity domain = int (C * 63 div 64 * 5 div 8)"
    by (simp add: dnsNameCapacity_def quo_def Let_def zdiv_int)
  then have "n \<le> C * 63 div 64 * 5 div 8" using assms(2) by simp
  then have "8 * n \<le> 5 * (C * 63 div 64)" by linarith
  then have "(8 * n + 4) div 5 \<le> C * 63 div 64" by linarith
  then have "64 * ((8 * n + 4) div 5) \<le> 63 * C" by linarith
  from labels_fit [OF this] C show ?thesis by linarith
qed

lemma capacity_small:
  assumes "valid_name domain"
  shows "dnsNameCapacity domain \<le> 156"
proof -
  define x where "x = nameCapacity_loop (255 - 1) domain"
  have "1 \<le> name_octets domain" by (simp add: name_octets_def)
  then have "x \<le> 254" "0 \<le> x"
    using assms by (simp_all add: x_def nameCapacity_loop_eq valid_name_def)
  then have "0 \<le> x * 63 div 64" "x * 63 div 64 \<le> 250" by simp_all
  then show ?thesis unfolding dnsNameCapacity_def x_def [symmetric] Let_def quo_def
    using \<open>0 \<le> x\<close> by simp
qed

text \<open>
  The name of the query for a payload that fits: its labels, up to the domain, spell the encoded
  payload.
\<close>

lemma query_name_ok:
  assumes "valid_name domain" and "int (length decoded) \<le> dnsNameCapacity domain"
  shows "\<exists>labels. chunks (ToLower u (b32_encode decoded)) 63 = Some labels \<and>
     concat labels = ToLower u (b32_encode decoded) \<and> NewName (labels @ domain) = Inr (labels @ domain)"
proof -
  obtain ls where ls: "chunks (ToLower u (b32_encode decoded)) 63 = Some ls"
    "concat ls = ToLower u (b32_encode decoded)" "list_all (\<lambda>l. l \<noteq> [] \<and> length l \<le> 63) ls"
    "length ls = (length (ToLower u (b32_encode decoded)) + 63 - 1) div 63"
    using chunks_ok [of 63 "ToLower u (b32_encode decoded)"] by auto
  have "name_octets ls = length ls + length (concat ls) + 1"
    by (simp add: name_octets_def sum_list_Suc_length)
  then have "name_octets (ls @ domain) \<le> 255"
    using capacity_fits [OF assms] ls(2,4) name_octets_append [of ls domain] by simp
  moreover have "list_all valid_label (ls @ domain)"
    using ls(3) assms(1) by (auto simp: valid_name_def valid_label_def list_all_iff)
  ultimately have "valid_name (ls @ domain)" by (simp add: valid_name_def)
  with ls show ?thesis by auto
qed

lemma encodePacket_ok:
  assumes "length p < 224" and "length cid = 8" and "numPaddingForPoll \<le> length rand"
  shows "\<exists>pad. encodePacket cid rand p =
      Inr (cid @ of_nat (224 + length pad) # pad @ (if p = [] then [] else of_nat (length p) # p)) \<and>
     length pad = (if p = [] then 8 else 3)"
  using assms
  by (intro exI [of _ "take (if p = [] then 8 else 3) rand"])
    (auto simp: encodePacket_def numPadding_def numPaddingForPoll_def)

lemma query_valid: "valid_name name \<Longrightarrow> valid_message (query_for qid name) \<and>
    entries (query_for qid name) \<le> Suc compressionPointerLimit"
  by (simp add: query_for_def valid_message_def valid_Question_def valid_RR_def valid_name_def
      name_octets_def entries_def compressionPointerLimit_def)

text \<open>
  Every packet within the MTU of a usable domain is sent, and the datagram parses back to the
  query whose labels spell the encoded packet.
\<close>

lemma send_ok:
  assumes "valid_name (dc_domain c)" and "80 \<le> client_mtu (dc_domain c)"
    and "int (length p) \<le> client_mtu (dc_domain c)" and "length (dc_clientID c) = 8"
    and "numPaddingForPoll \<le> length rand"
  shows "\<exists>buf labels pad decoded.
     send u qid rand p c = Some (Inr buf) \<and>
     WireFormat (query_for qid (labels @ dc_domain c)) = Inr buf \<and>
     MessageFromWireFormat buf = Inr (query_for qid (labels @ dc_domain c)) \<and>
     valid_name (labels @ dc_domain c) \<and>
     concat labels = ToLower u (b32_encode decoded) \<and>
     decoded = dc_clientID c @ of_nat (224 + length pad) # pad @ (if p = [] then [] else of_nat (length p) # p) \<and>
     length pad < 32 \<and> length p < 224"
proof -
  have small: "length p < 224"
    using assms(3) capacity_small [OF assms(1)] by (simp add: client_mtu_def)
  obtain pad where pad: "encodePacket (dc_clientID c) rand p =
      Inr (dc_clientID c @ of_nat (224 + length pad) # pad @ (if p = [] then [] else of_nat (length p) # p))"
    "length pad = (if p = [] then 8 else 3)"
    using encodePacket_ok [OF small assms(4,5)] by blast
  let ?d = "dc_clientID c @ of_nat (224 + length pad) # pad @ (if p = [] then [] else of_nat (length p) # p)"
  have "int (length ?d) \<le> dnsNameCapacity (dc_domain c)"
    using assms(2-4) pad(2) by (auto simp: client_mtu_def numPadding_def)
  from query_name_ok [OF assms(1) this] obtain labels where
    l: "chunks (ToLower u (b32_encode ?d)) 63 = Some labels" "concat labels = ToLower u (b32_encode ?d)"
    "NewName (labels @ dc_domain c) = Inr (labels @ dc_domain c)" by blast
  have v: "valid_name (labels @ dc_domain c)" using l(3) by (simp add: NewName_eq_Inr)
  obtain buf where buf: "WireFormat (query_for qid (labels @ dc_domain c)) = Inr buf"
    "MessageFromWireFormat buf = Inr (query_for qid (labels @ dc_domain c))"
    using message_roundtrip query_valid [OF v] by blast
  have "send u qid rand p c = Some (Inr buf)"
    unfolding send_def pad(1) sum.case l(1) option.case l(3) bindE_Inr buf(1) by (rule refl)
  moreover have "length pad < 32" using pad(2) by (simp split: if_splits)
  ultimately show ?thesis using buf v l(2) small by blast
qed

end
