(* ===== verification/Server.thy ===== *)
theory Server
  imports DnsLimits DnsTxt Base32 Framing QueueConn ClientID
begin

text \<open>
  The server's side of the DNS channel (\<open>src/dnstt-server/main.go\<close>): \<open>nextPacket\<close>,
  \<open>responseFor\<close>, the loops \<open>recvLoop\<close> and \<open>sendLoop\<close> as one step each, and
  \<open>computeMaxEncodedPayload\<close>.  The global variable \<open>maxUDPPayload\<close> is a parameter.
\<close>

section \<open>Packets of a query\<close>

text \<open>A prefix of at least 224 is padding, which the loop skips.\<close>

function server_nextPacket :: "bytes \<Rightarrow> err + bytes \<times> bytes" where
  "server_nextPacket r =
     (case read_byte r of
        Inl e \<Rightarrow> Inl e
      | Inr (prefix, r1) \<Rightarrow>
          if prefix \<ge> 224 then
            (let paddingLen = prefix - 224 in
             case CopyN (unat paddingLen) r1 of
               Inl e \<Rightarrow> Inl (unexpected e)
             | Inr (_, r2) \<Rightarrow> server_nextPacket r2)
          else unexpectedE (ReadFull (unat prefix) r1))"
  by pat_completeness auto
termination
  by (relation "measure length") (auto simp: read_byte_def CopyN_eq_Inr split: list.splits)

declare server_nextPacket.simps [simp del]

lemma server_nextPacket_Nil [simp]: "server_nextPacket [] = Inl EOF"
  by (subst server_nextPacket.simps) (simp add: read_byte_def)

lemma server_nextPacket_Cons:
  "server_nextPacket (b # r) =
     (if b \<ge> 224 then
        (if length r < unat (b - 224) then Inl ErrUnexpectedEOF
         else server_nextPacket (drop (unat (b - 224)) r))
      else unexpectedE (ReadFull (unat b) r))"
  by (subst server_nextPacket.simps) (simp add: read_byte_def CopyN_def unexpected_def Let_def)

lemma server_nextPacket_shrinks:
  "server_nextPacket r = Inr (p, r') \<Longrightarrow> length r' < length r"
proof (induction r rule: length_induct)
  case (1 r)
  show ?case
  proof (cases r)
    case (Cons b s)
    show ?thesis
    proof (cases "b \<ge> 224")
      case True
      let ?s = "drop (unat (b - 224)) s"
      have "server_nextPacket ?s = Inr (p, r')"
        using 1(2) True Cons by (auto simp: server_nextPacket_Cons split: if_splits)
      moreover have "length ?s < length r" using Cons by simp
      ultimately have "length r' < length ?s" using 1(1) by blast
      with Cons show ?thesis by simp
    next
      case False
      with 1(2) Cons show ?thesis by (auto simp: server_nextPacket_Cons ReadFull_eq_Inr)
    qed
  qed (use 1(2) in simp)
qed

text \<open>The loop of \<open>recvLoop\<close> over the packets of one query.\<close>

function server_packets :: "bytes \<Rightarrow> bytes list \<times> err" where
  "server_packets r =
     (case server_nextPacket r of
        Inl e \<Rightarrow> ([], e)
      | Inr (p, r') \<Rightarrow> (case server_packets r' of (ps, e) \<Rightarrow> (p # ps, e)))"
  by pat_completeness auto
termination
  by (relation "measure length") (auto dest: server_nextPacket_shrinks)

declare server_packets.simps [simp del]

section \<open>responseFor\<close>

definition responder_OPT :: RR where
  "responder_OPT = \<lparr>rr_Name = [], rr_Type = RRTypeOPT, rr_Class = 4096, rr_TTL = 0, rr_Data = []\<rparr>"

definition or_flags :: "u16 \<Rightarrow> Message \<Rightarrow> Message" where
  "or_flags f resp = resp\<lparr>msg_Flags := msg_Flags resp OR f\<rparr>"

text \<open>
  The loop over the Additional section.  \<open>Inl\<close> is an early return of the response so far;
  \<open>Inr\<close> is the response with its own OPT record, if any, and the requester's payload size.
\<close>

fun scan_OPT :: "RR list \<Rightarrow> Message \<Rightarrow> int \<Rightarrow> Message + Message \<times> int" where
  "scan_OPT [] resp payloadSize = Inr (resp, payloadSize)"
| "scan_OPT (rr # rrs) resp payloadSize =
     (if rr_Type rr \<noteq> RRTypeOPT then scan_OPT rrs resp payloadSize
      else if length (msg_Additional resp) \<noteq> 0 then Inl (or_flags RcodeFormatError resp)
      else
        let resp = resp\<lparr>msg_Additional := msg_Additional resp @ [responder_OPT]\<rparr>;
            version = drop_bit 16 (rr_TTL rr) AND 0xff
        in if version \<noteq> 0 then
             Inl (or_flags (of_nat (ExtendedRcodeBadVers AND 0xf))
               (resp\<lparr>msg_Additional := (msg_Additional resp)[0 := (msg_Additional resp ! 0)
                  \<lparr>rr_TTL := of_nat (push_bit 24 (drop_bit 4 ExtendedRcodeBadVers))\<rparr>]\<rparr>))
           else scan_OPT rrs resp (int (unat (rr_Class rr))))"

text \<open>
  The checks after the loop, on the response so far and the requester's payload size.  They come in
  the code's order, which decides the error code when several apply.
\<close>

definition respond ::
  "casemap \<Rightarrow> int \<Rightarrow> Message \<Rightarrow> Name \<Rightarrow> Message \<Rightarrow> int \<Rightarrow> Message option \<times> bytes" where
  "respond u maxUDPPayload query domain resp payloadSize =
     (let payloadSize = (if payloadSize < 512 then 512 else payloadSize)
      in if length (msg_Question query) \<noteq> 1 then (Some (or_flags RcodeFormatError resp), [])
         else
           let question = msg_Question query ! 0
           in case Name_TrimSuffix u (q_Name question) domain of
                None \<Rightarrow> (Some (or_flags RcodeNameError resp), [])
              | Some prefix \<Rightarrow>
                  let resp = or_flags 0x0400 resp
                  in if Opcode query \<noteq> 0 then (Some (or_flags RcodeNotImplemented resp), [])
                     else if q_Type question \<noteq> RRTypeTXT then
                       (Some (or_flags RcodeNameError resp), [])
                     else case b32_decode (ToUpper u (concat prefix)) of
                         None \<Rightarrow> (Some (or_flags RcodeNameError resp), [])
                       | Some payload \<Rightarrow>
                           if payloadSize < maxUDPPayload then
                             (Some (or_flags RcodeFormatError resp), [])
                           else (Some resp, payload))"

text \<open>
  \<open>responseFor\<close>: the response, if there is to be one, and the payload of the query (\<open>nil\<close>
  and the empty payload are the same to the caller).
\<close>

definition responseFor :: "casemap \<Rightarrow> int \<Rightarrow> Message \<Rightarrow> Name \<Rightarrow> Message option \<times> bytes" where
  "responseFor u maxUDPPayload query domain =
     (let resp = \<lparr>msg_ID = msg_ID query, msg_Flags = 0x8000, msg_Question = msg_Question query,
                  msg_Answer = [], msg_Authority = [], msg_Additional = []\<rparr>
      in if msg_Flags query AND 0x8000 \<noteq> 0 then (None, [])
         else case scan_OPT (msg_Additional query) resp 0 of
             Inl resp \<Rightarrow> (Some resp, [])
           | Inr (resp, payloadSize) \<Rightarrow> respond u maxUDPPayload query domain resp payloadSize)"

section \<open>recvLoop\<close>

record dns_record =
  dr_Resp :: Message
  dr_Addr :: net_addr
  dr_ClientID :: ClientID

record server =
  sv_conn :: "net_addr QueuePacketConn"
  sv_ch :: "dns_record list"

definition record_chan_cap :: nat where
  "record_chan_cap = 4096"

text \<open>One datagram through \<open>recvLoop\<close>, of which at most 4096 bytes are read.\<close>

definition server_recv :: "casemap \<Rightarrow> int \<Rightarrow> Name \<Rightarrow> bytes \<Rightarrow> net_addr \<Rightarrow> server \<Rightarrow> server" where
  "server_recv u maxUDPPayload domain datagram addr s =
     (case MessageFromWireFormat (take 4096 datagram) of
        Inl _ \<Rightarrow> s
      | Inr query \<Rightarrow>
          let (resp, payload) = responseFor u maxUDPPayload query domain;
              n = min 8 (length payload);
              clientID = take 8 (payload @ replicate 8 0);
              payload = drop n payload;
              s' = (if n = 8 then
                      s\<lparr>sv_conn := fold (\<lambda>p. QueueIncoming p (ClientAddr clientID))
                                    (fst (server_packets payload)) (sv_conn s)\<rparr>
                    else s);
              resp' = (case resp of
                         Some r \<Rightarrow> if n \<noteq> 8 \<and> Rcode r = RcodeNoError
                                   then Some (or_flags RcodeNameError r) else Some r
                       | None \<Rightarrow> None)
          in case resp' of
               None \<Rightarrow> s'
             | Some r \<Rightarrow>
                 if length (sv_ch s') < record_chan_cap
                 then s'\<lparr>sv_ch := sv_ch s' @ [\<lparr>dr_Resp = r, dr_Addr = addr, dr_ClientID = clientID\<rparr>]\<rparr>
                 else s')"

section \<open>sendLoop\<close>

definition responseTTL :: u32 where
  "responseTTL = 60"

text \<open>
  What ends the wait of the innermost \<open>select\<close> when no packet is there: the timer, or the next
  record.  In each round of the bundling loop, other goroutines may write packets before the
  \<open>select\<close> looks at the queues; the schedule gives for every round those writes and the event.
\<close>

datatype wake = Timer | NextRec dns_record

type_synonym schedule = "nat \<Rightarrow> (int \<times> net_addr \<times> bytes) list \<times> wake"

definition select_packet ::
  "nat \<Rightarrow> nat \<Rightarrow> wake \<Rightarrow> net_addr QueuePacketConn \<Rightarrow> bytes \<times> dns_record option \<times> net_addr QueuePacketConn" where
  "select_packet stashCh sendCh w c =
     (case conn_recv stashCh c of
        (Some p, c') \<Rightarrow> (p, None, c')
      | (None, _) \<Rightarrow>
          (case conn_recv sendCh c of
             (Some p, c') \<Rightarrow> (p, None, c')
           | (None, _) \<Rightarrow> (case w of Timer \<Rightarrow> ([], None, c) | NextRec r \<Rightarrow> ([], Some r, c))))"

text \<open>
  The bundling loop, from round \<open>k\<close> of the schedule: the payload, the next record if one was
  received, and the connection.
\<close>

function bundle_packets ::
  "schedule \<Rightarrow> int \<Rightarrow> nat \<Rightarrow> nat \<Rightarrow> net_addr \<Rightarrow> nat \<Rightarrow> int \<Rightarrow> bytes \<Rightarrow> net_addr QueuePacketConn \<Rightarrow>
     err + bytes \<times> dns_record option \<times> net_addr QueuePacketConn" where
  "bundle_packets sched now stashCh sendCh client k limit payload c =
     bindE (put_all put_outgoing (fst (sched k)) c) (\<lambda>c1.
       let (p, nextRec, c2) = select_packet stashCh sendCh (snd (sched k)) c1
       in if length p = 0 then Inr (payload, nextRec, c2)
          else
            let limit' = limit - (2 + int (length p))
            in if length payload \<noteq> 0 \<and> limit' < 0 then
                 bindE (conn_Stash p client now c2) (\<lambda>(_, c3). Inr (payload, nextRec, c3))
               else if length p \<ge> 65536 then Inl Panic
               else bundle_packets sched now stashCh sendCh client (Suc k) limit'
                      (payload @ be16 (of_nat (length p)) @ p) c2)"
  by pat_completeness auto
termination
  by (relation "measure (\<lambda>(_, _, _, _, _, _, limit, payload, _). nat limit + (if payload = [] then 1 else 0))")
    auto

declare bundle_packets.simps [simp del]

text \<open>The Answer section that \<open>sendLoop\<close> gives a response with data.\<close>

definition answer_with :: "bytes \<Rightarrow> Message \<Rightarrow> Message" where
  "answer_with payload resp =
     (let q = msg_Question resp ! 0 in
      resp\<lparr>msg_Answer := [\<lparr>rr_Name = q_Name q, rr_Type = q_Type q, rr_Class = q_Class q,
        rr_TTL = responseTTL, rr_Data = EncodeRDataTXT payload\<rparr>]\<rparr>)"

definition fill_response ::
  "schedule \<Rightarrow> int \<Rightarrow> int \<Rightarrow> dns_record \<Rightarrow> net_addr QueuePacketConn \<Rightarrow>
     err + Message \<times> dns_record option \<times> net_addr QueuePacketConn" where
  "fill_response sched now maxEncodedPayload rec c =
     (if Rcode (dr_Resp rec) = RcodeNoError \<and> length (msg_Question (dr_Resp rec)) = 1 then
        bindE (conn_Unstash (ClientAddr (dr_ClientID rec)) now c) (\<lambda>(stashCh, c1).
        bindE (OutgoingQueue (ClientAddr (dr_ClientID rec)) now c1) (\<lambda>(sendCh, c2).
        bindE (bundle_packets sched now stashCh sendCh (ClientAddr (dr_ClientID rec)) 0 maxEncodedPayload [] c2)
          (\<lambda>(payload, nextRec, c3). Inr (answer_with payload (dr_Resp rec), nextRec, c3))))
      else Inr (dr_Resp rec, None, c))"

text \<open>
  The datagram of a response, truncated to the limit with the TC bit set; \<open>None\<close> when the
  message cannot be serialized.
\<close>

definition response_datagram :: "int \<Rightarrow> Message \<Rightarrow> err + bytes option" where
  "response_datagram maxUDPPayload resp =
     (case WireFormat resp of
        Inl e \<Rightarrow> if e = Panic then Inl Panic else Inr None
      | Inr buf \<Rightarrow>
          if int (length buf) > maxUDPPayload then
            (if maxUDPPayload < 3 then Inl Panic
             else let b = take (nat maxUDPPayload) buf in Inr (Some (b[2 := b ! 2 OR 0x02])))
          else Inr (Some buf))"

text \<open>One round of \<open>sendLoop\<close> for the record \<open>rec\<close>.\<close>

definition server_send ::
  "int \<Rightarrow> int \<Rightarrow> schedule \<Rightarrow> int \<Rightarrow> dns_record \<Rightarrow> net_addr QueuePacketConn \<Rightarrow>
     err + (bytes \<times> net_addr) option \<times> dns_record option \<times> net_addr QueuePacketConn" where
  "server_send maxUDPPayload maxEncodedPayload sched now rec c =
     bindE (fill_response sched now maxEncodedPayload rec c) (\<lambda>(resp, nextRec, c').
     bindE (response_datagram maxUDPPayload resp) (\<lambda>buf.
       Inr (map_option (\<lambda>b. (b, dr_Addr rec)) buf, nextRec, c')))"

section \<open>computeMaxEncodedPayload\<close>

definition maxLengthName :: Name where
  "maxLengthName = [replicate 63 65, replicate 63 65, replicate 63 65, replicate 61 65]"

definition max_query :: "int \<Rightarrow> Message" where
  "max_query limit =
     \<lparr>msg_ID = 0, msg_Flags = 0,
      msg_Question = [\<lparr>q_Name = maxLengthName, q_Type = RRTypeTXT, q_Class = RRTypeTXT\<rparr>],
      msg_Answer = [], msg_Authority = [],
      msg_Additional = [\<lparr>rr_Name = [], rr_Type = RRTypeOPT,
        rr_Class = (if uint (of_int limit :: u16) \<noteq> limit then 0xffff else of_int limit),
        rr_TTL = 0, rr_Data = []\<rparr>]\<rparr>"

function search_payload :: "(nat \<Rightarrow> err + bytes) \<Rightarrow> int \<Rightarrow> nat \<Rightarrow> nat \<Rightarrow> err + nat" where
  "search_payload wire limit low high =
     (if low + 1 < high then
        (let mid = (low + high) div 2 in
         case wire mid of
           Inl _ \<Rightarrow> Inl Panic
         | Inr buf \<Rightarrow>
             if int (length buf) \<le> limit then search_payload wire limit mid high
             else search_payload wire limit low mid)
      else Inr low)"
  by pat_completeness auto
termination
  by (relation "measure (\<lambda>(_, _, low, high). high - low)") auto

declare search_payload.simps [simp del]

definition computeMaxEncodedPayload :: "casemap \<Rightarrow> int \<Rightarrow> int \<Rightarrow> err + nat" where
  "computeMaxEncodedPayload u maxUDPPayload limit =
     (case NewName maxLengthName of
        Inl _ \<Rightarrow> Inl Panic
      | Inr name \<Rightarrow>
          if sum_list (map (\<lambda>l. length l + 1) name) + 1 \<noteq> 255 then Inl Panic
          else (case fst (responseFor u maxUDPPayload (max_query limit) []) of
                  None \<Rightarrow> Inl Panic
                | Some resp \<Rightarrow>
                    search_payload (\<lambda>mid. WireFormat (answer_with (replicate mid 0) resp)) limit 0 32768))"

text \<open>The MTU that \<open>run\<close> gives to KCP, or the error that it leaves too little room.\<close>

definition server_mtu :: "casemap \<Rightarrow> int \<Rightarrow> err + nat" where
  "server_mtu u maxUDPPayload =
     bindE (computeMaxEncodedPayload u maxUDPPayload maxUDPPayload) (\<lambda>n.
       if int n - 2 < 80 then Inl Errorf else Inr (n - 2))"

section \<open>The framing of upstream packets\<close>

definition frame8 :: "bytes \<Rightarrow> bytes" where
  "frame8 p = of_nat (length p) # p"

definition ok8 :: "bytes \<Rightarrow> bool" where
  "ok8 p \<longleftrightarrow> length p < 224"

lemma short_prefix: "n < 224 \<Longrightarrow> \<not> (224 \<le> (of_nat n :: byte)) \<and> unat (of_nat n :: byte) = n"
  by (simp add: word_le_nat_alt)

interpretation upstream: framing server_nextPacket frame8 ok8 server_packets EOF
proof
  fix p rest assume "ok8 p"
  then show "server_nextPacket (frame8 p @ rest) = Inr (p, rest)"
    using short_prefix [of "length p"] by (simp add: frame8_def ok8_def server_nextPacket_Cons)
next
  show "server_nextPacket [] = Inl EOF" by simp
next
  fix p k assume k: "ok8 p" "k < length (frame8 p)" "0 < k"
  then obtain j where "k = Suc j" by (cases k) auto
  then show "\<exists>e. server_nextPacket (take k (frame8 p)) = Inl e \<and> e \<noteq> EOF"
    using k short_prefix [of "length p"]
    by (auto simp: frame8_def ok8_def server_nextPacket_Cons ReadFull_def unexpected_def)
next
  fix s e assume "server_nextPacket s = Inl e"
  then show "server_packets s = ([], e)" by (subst server_packets.simps) simp
next
  fix s p rest assume "server_nextPacket s = Inr (p, rest)"
  then show "server_packets s = (case server_packets rest of (ps, e) \<Rightarrow> (p # ps, e))"
    by (subst server_packets.simps) simp
qed

text \<open>Padding is invisible: it may stand before, between and after packets.\<close>

definition padding :: "bytes \<Rightarrow> bytes" where
  "padding pad = of_nat (224 + length pad) # pad"

lemma padding_prefix:
  assumes "n < 32"
  shows "224 \<le> (of_nat (224 + n) :: byte)" and "unat ((of_nat (224 + n) :: byte) - 224) = n"
proof -
  have "unat (of_nat (224 + n) :: byte) = 224 + n" using assms by (intro unat_of_nat_byte) simp
  then show "224 \<le> (of_nat (224 + n) :: byte)" by (simp add: word_le_nat_alt)
  show "unat ((of_nat (224 + n) :: byte) - 224) = n" using assms by simp
qed

lemma server_packets_padding:
  assumes "length pad < 32"
  shows "server_packets (padding pad @ s) = server_packets s"
proof -
  have "server_nextPacket (padding pad @ s) = server_nextPacket s"
    using padding_prefix [OF assms] by (simp add: padding_def server_nextPacket_Cons)
  then show ?thesis
    by (subst (1 2) server_packets.simps) simp
qed

section \<open>responseFor, branch by branch\<close>

text \<open>What a query must be for its response to carry data, independent of the order of the checks.\<close>

definition OPT_records :: "Message \<Rightarrow> RR list" where
  "OPT_records query = filter (\<lambda>rr. rr_Type rr = RRTypeOPT) (msg_Additional query)"

definition EDNS_version :: "RR \<Rightarrow> u32" where
  "EDNS_version rr = drop_bit 16 (rr_TTL rr) AND 0xff"

definition requester_size :: "Message \<Rightarrow> int" where
  "requester_size query =
     (case OPT_records query of [] \<Rightarrow> 512 | rr # _ \<Rightarrow> max 512 (int (unat (rr_Class rr))))"

definition acceptable :: "casemap \<Rightarrow> int \<Rightarrow> Name \<Rightarrow> Message \<Rightarrow> bytes \<Rightarrow> bool" where
  "acceptable u maxUDPPayload domain query payload \<longleftrightarrow>
     msg_Flags query AND 0x8000 = 0 \<and>
     length (OPT_records query) \<le> 1 \<and> list_all (\<lambda>rr. EDNS_version rr = 0) (OPT_records query) \<and>
     maxUDPPayload \<le> requester_size query \<and>
     Opcode query = 0 \<and>
     (\<exists>q prefix. msg_Question query = [q] \<and> Name_TrimSuffix u (q_Name q) domain = Some prefix \<and>
        q_Type q = RRTypeTXT \<and> b32_decode (ToUpper u (concat prefix)) = Some payload)"

text \<open>The response to an acceptable query: an answer section is all it lacks.\<close>

definition data_response :: "Message \<Rightarrow> Message" where
  "data_response query =
     \<lparr>msg_ID = msg_ID query, msg_Flags = 0x8400, msg_Question = msg_Question query,
      msg_Answer = [], msg_Authority = [],
      msg_Additional = (if OPT_records query = [] then [] else [responder_OPT])\<rparr>"

lemma or_flags_simps [simp]:
  "msg_Flags (or_flags f m) = msg_Flags m OR f"
  "msg_ID (or_flags f m) = msg_ID m" "msg_Question (or_flags f m) = msg_Question m"
  "msg_Answer (or_flags f m) = msg_Answer m" "msg_Authority (or_flags f m) = msg_Authority m"
  "msg_Additional (or_flags f m) = msg_Additional m"
  by (simp_all add: or_flags_def)

text \<open>With an OPT record already in the response, a second one is a format error.\<close>

lemma scan_OPT_seen:
  "length (msg_Additional resp) \<noteq> 0 \<Longrightarrow>
     scan_OPT rrs resp n =
       (if filter (\<lambda>rr. rr_Type rr = RRTypeOPT) rrs = [] then Inr (resp, n)
        else Inl (or_flags RcodeFormatError resp))"
  by (induction rrs) auto

lemma scan_OPT_eq:
  assumes "msg_Additional resp = []"
  shows "scan_OPT rrs resp n =
    (case filter (\<lambda>rr. rr_Type rr = RRTypeOPT) rrs of
       [] \<Rightarrow> Inr (resp, n)
     | rr # others \<Rightarrow>
         if EDNS_version rr \<noteq> 0 then
           Inl (or_flags 0 (resp\<lparr>msg_Additional := [responder_OPT\<lparr>rr_TTL := 0x01000000\<rparr>]\<rparr>))
         else if others \<noteq> [] then
           Inl (or_flags RcodeFormatError (resp\<lparr>msg_Additional := [responder_OPT]\<rparr>))
         else Inr (resp\<lparr>msg_Additional := [responder_OPT]\<rparr>, int (unat (rr_Class rr))))"
  using assms
proof (induction rrs)
  case (Cons rr rrs)
  have bad: "(of_nat (ExtendedRcodeBadVers AND 0xf) :: u16) = 0"
    "(of_nat (push_bit 24 (drop_bit 4 ExtendedRcodeBadVers)) :: u32) = 0x01000000" by simp_all
  from Cons show ?case
    by (auto simp: Let_def EDNS_version_def scan_OPT_seen bad)
qed simp

text \<open>The whole decision, as a table.\<close>

definition base_response :: "Message \<Rightarrow> u16 \<Rightarrow> RR list \<Rightarrow> Message" where
  "base_response query flags additional =
     \<lparr>msg_ID = msg_ID query, msg_Flags = flags, msg_Question = msg_Question query,
      msg_Answer = [], msg_Authority = [], msg_Additional = additional\<rparr>"

definition answer_question ::
  "casemap \<Rightarrow> int \<Rightarrow> Message \<Rightarrow> Name \<Rightarrow> RR list \<Rightarrow> int \<Rightarrow> Message \<times> bytes" where
  "answer_question u maxUDPPayload query domain additional reqSize =
     (case msg_Question query of
        [q] \<Rightarrow>
          (case Name_TrimSuffix u (q_Name q) domain of
             None \<Rightarrow> (base_response query 0x8003 additional, [])
           | Some prefix \<Rightarrow>
               if Opcode query \<noteq> 0 then (base_response query 0x8404 additional, [])
               else if q_Type q \<noteq> RRTypeTXT then (base_response query 0x8403 additional, [])
               else (case b32_decode (ToUpper u (concat prefix)) of
                       None \<Rightarrow> (base_response query 0x8403 additional, [])
                     | Some payload \<Rightarrow>
                         if reqSize < maxUDPPayload then (base_response query 0x8401 additional, [])
                         else (base_response query 0x8400 additional, payload)))
      | _ \<Rightarrow> (base_response query 0x8001 additional, []))"

definition response_table :: "casemap \<Rightarrow> int \<Rightarrow> Message \<Rightarrow> Name \<Rightarrow> Message option \<times> bytes" where
  "response_table u maxUDPPayload query domain =
     (if msg_Flags query AND 0x8000 \<noteq> 0 then (None, [])
      else apfst Some
       (case OPT_records query of
          [] \<Rightarrow> answer_question u maxUDPPayload query domain [] 512
        | rr # others \<Rightarrow>
            if EDNS_version rr \<noteq> 0 then
              (base_response query 0x8000 [responder_OPT\<lparr>rr_TTL := 0x01000000\<rparr>], [])
            else if others \<noteq> [] then (base_response query 0x8001 [responder_OPT], [])
            else answer_question u maxUDPPayload query domain [responder_OPT]
                   (max 512 (int (unat (rr_Class rr))))))"

lemma apfst_Some_eq [simp]: "apfst Some x = (Some r, p) \<longleftrightarrow> x = (r, p)"
  by (cases x) simp

lemma length_1_cases: "length xs \<noteq> 1 \<longleftrightarrow> xs = [] \<or> (\<exists>a b c. xs = a # b # c)"
  by (cases xs; cases "tl xs") auto

lemma responseFor_table: "responseFor u maxUDPPayload query domain = response_table u maxUDPPayload query domain"
proof (cases "msg_Flags query AND 0x8000 \<noteq> 0")
  case True
  then show ?thesis by (simp add: responseFor_def response_table_def)
next
  case False
  have cont: "respond u maxUDPPayload query domain (base_response query 0x8000 additional) n =
      apfst Some (answer_question u maxUDPPayload query domain additional (max 512 n))"
    for n additional
  proof (cases "length (msg_Question query) = 1")
    case True
    then obtain q where q: "msg_Question query = [q]" by (auto simp: length_Suc_conv)
    have m: "(if n < 512 then 512 else n) = max 512 n" by simp
    show ?thesis
      unfolding respond_def answer_question_def q Let_def m
      by (simp add: or_flags_def base_response_def del: max_less_iff_conj split: option.splits)
  next
    case False
    then have "answer_question u maxUDPPayload query domain additional (max 512 n) =
        (base_response query 0x8001 additional, [])"
      unfolding length_1_cases by (auto simp: answer_question_def)
    with False show ?thesis by (simp add: respond_def or_flags_def base_response_def)
  qed
  let ?resp = "base_response query 0x8000 []"
  have base: "\<lparr>msg_ID = msg_ID query, msg_Flags = 0x8000, msg_Question = msg_Question query,
      msg_Answer = [], msg_Authority = [], msg_Additional = []\<rparr> = ?resp"
    by (simp add: base_response_def)
  have scan: "scan_OPT (msg_Additional query) ?resp 0 = (case OPT_records query of
       [] \<Rightarrow> Inr (?resp, 0)
     | rr # others \<Rightarrow>
         if EDNS_version rr \<noteq> 0 then
           Inl (base_response query 0x8000 [responder_OPT\<lparr>rr_TTL := 0x01000000\<rparr>])
         else if others \<noteq> [] then Inl (base_response query 0x8001 [responder_OPT])
         else Inr (base_response query 0x8000 [responder_OPT], int (unat (rr_Class rr))))"
    by (subst scan_OPT_eq) (auto simp: OPT_records_def base_response_def or_flags_def split: list.splits)
  show ?thesis
  proof (cases "OPT_records query")
    case Nil
    then show ?thesis
      using False cont [of "[]" 0]
      by (simp add: responseFor_def response_table_def base scan Let_def)
  next
    case (Cons rr others)
    then show ?thesis
      using False cont [of "[responder_OPT]" "int (unat (rr_Class rr))"]
      by (simp add: responseFor_def response_table_def base scan Let_def)
  qed
qed

lemmas response_table_simps = response_table_def answer_question_def base_response_def

lemma Rcode_base [simp]: "Rcode (base_response query f ad) = f AND 0x000f"
  by (simp add: Rcode_def base_response_def)

lemma responseFor_acceptable:
  assumes "acceptable u maxUDPPayload domain query payload"
  shows "responseFor u maxUDPPayload query domain = (Some (data_response query), payload)"
proof -
  obtain q prefix where q: "msg_Question query = [q]" "Name_TrimSuffix u (q_Name q) domain = Some prefix"
    "q_Type q = RRTypeTXT" "b32_decode (ToUpper u (concat prefix)) = Some payload"
    using assms by (auto simp: acceptable_def)
  have "answer_question u maxUDPPayload query domain ad n = (base_response query 0x8400 ad, payload)"
    if "maxUDPPayload \<le> n" for ad n
    using assms q that by (simp add: answer_question_def acceptable_def)
  then show ?thesis
    using assms
    by (auto simp: responseFor_table response_table_def acceptable_def requester_size_def
        data_response_def base_response_def split: list.splits)
qed

text \<open>
  A response with RCODE 0 in its header is given in two cases: the query is acceptable, or it has
  an EDNS version other than 0, and then the extended code says BADVERS.
\<close>

lemma responseFor_NoError:
  assumes "responseFor u maxUDPPayload query domain = (Some resp, payload)" and "Rcode resp = RcodeNoError"
  shows "(acceptable u maxUDPPayload domain query payload \<and> resp = data_response query) \<or>
    (payload = [] \<and> (\<exists>rr others. OPT_records query = rr # others \<and> EDNS_version rr \<noteq> 0) \<and>
     resp = base_response query 0x8000 [responder_OPT\<lparr>rr_TTL := 0x01000000\<rparr>])"
proof -
  have q: "msg_Flags query AND 0x8000 = 0"
    using assms(1) by (auto simp: responseFor_table response_table_def split: if_splits)
  have aq: "r = base_response query 0x8400 ad \<and> (\<exists>q prefix. msg_Question query = [q] \<and>
      Name_TrimSuffix u (q_Name q) domain = Some prefix \<and> q_Type q = RRTypeTXT \<and>
      b32_decode (ToUpper u (concat prefix)) = Some payload) \<and> Opcode query = 0 \<and> maxUDPPayload \<le> n"
    if "answer_question u maxUDPPayload query domain ad n = (r, payload)" "Rcode r = 0" for ad n r
    using that by (auto simp: answer_question_def split: list.splits option.splits if_splits)
  show ?thesis
  proof (cases "OPT_records query")
    case Nil
    then have "answer_question u maxUDPPayload query domain [] 512 = (resp, payload)"
      using assms(1) q by (auto simp: responseFor_table response_table_def)
    from aq [OF this assms(2)] Nil q show ?thesis
      by (auto simp: acceptable_def requester_size_def data_response_def base_response_def)
  next
    case (Cons rr others)
    show ?thesis
    proof (cases "EDNS_version rr = 0 \<and> others = []")
      case True
      then have "answer_question u maxUDPPayload query domain [responder_OPT]
          (max 512 (int (unat (rr_Class rr)))) = (resp, payload)"
        using assms(1) q Cons by (auto simp: responseFor_table response_table_def)
      from aq [OF this assms(2)] Cons q True show ?thesis
        by (auto simp: acceptable_def requester_size_def data_response_def base_response_def)
    next
      case False
      then show ?thesis
        using assms q Cons by (auto simp: responseFor_table response_table_def split: if_splits)
    qed
  qed
qed

section \<open>Properties\<close>

text \<open>A query's payload after the ClientID: packets and stretches of padding, in any order.\<close>

datatype piece = Packet bytes | Padding bytes

fun piece_bytes :: "piece \<Rightarrow> bytes" where
  "piece_bytes (Packet p) = frame8 p"
| "piece_bytes (Padding pad) = padding pad"

fun piece_ok :: "piece \<Rightarrow> bool" where
  "piece_ok (Packet p) = ok8 p"
| "piece_ok (Padding pad) = (length pad < 32)"

fun piece_packets :: "piece list \<Rightarrow> bytes list" where
  "piece_packets [] = []"
| "piece_packets (Packet p # ps) = p # piece_packets ps"
| "piece_packets (Padding _ # ps) = piece_packets ps"

lemma server_packets_pieces:
  "list_all piece_ok ps \<Longrightarrow> server_packets (concat (map piece_bytes ps)) = (piece_packets ps, EOF)"
proof (induction ps rule: piece_packets.induct)
  case 1
  show ?case using upstream.drain_frames [of "[]"] by simp
next
  case (2 p ps)
  then show ?case using upstream.drain_frames_append [of "[p]" "concat (map piece_bytes ps)"] by simp
next
  case (3 pad ps)
  then show ?case by (simp add: server_packets_padding)
qed

text \<open>
  C9: The server reads exactly the packets of a query, in order, whatever padding stands before,
  between and after them, and ends at the end of the query with \<open>io.EOF\<close>.
\<close>

theorem padding_is_ignored:
  assumes "list_all piece_ok ps"
  shows "server_packets (concat (map piece_bytes ps)) = (piece_packets ps, EOF)"
  by (rule server_packets_pieces [OF assms])

theorem padding_is_ignored_witness:
  "server_packets (concat (map piece_bytes [Padding [9, 9], Packet [1], Padding [], Packet [2, 3]])) =
     ([[1], [2, 3]], EOF)"
  by (subst padding_is_ignored) (simp_all add: ok8_def)


text \<open>
  The response code of a message as its receiver reads it: the low four bits are in the header and
  the high eight in the TTL of the OPT record (RFC 6891, section 6.1.3).
\<close>

definition extended_rcode :: "Message \<Rightarrow> nat" where
  "extended_rcode m =
     (case OPT_records m of
        [] \<Rightarrow> unat (Rcode m)
      | rr # _ \<Rightarrow> 16 * unat (drop_bit 24 (rr_TTL rr)) + unat (Rcode m))"

text \<open>
  A query with an unknown EDNS version is not answered with BADVERS (16).  \<open>responseFor\<close>
  makes that response, but its low four bits are 0, so \<open>recvLoop\<close> takes it for a success
  without a ClientID and sets the bits of NXDOMAIN: the record that goes to \<open>sendLoop\<close> has the
  extended code 19.
\<close>

theorem BADVERS_becomes_19:
  assumes "MessageFromWireFormat (take 4096 datagram) = Inr query" and "msg_Flags query AND 0x8000 = 0"
    and "OPT_records query = rr # others" and "EDNS_version rr \<noteq> 0"
    and "length (sv_ch s) < record_chan_cap"
  shows "extended_rcode (the (fst (responseFor u maxUDPPayload query domain))) = 16 \<and>
     (\<exists>r. sv_ch (server_recv u maxUDPPayload domain datagram addr s) = sv_ch s @ [r] \<and>
          extended_rcode (dr_Resp r) = 19)"
proof -
  let ?r = "base_response query 0x8000 [responder_OPT\<lparr>rr_TTL := 0x01000000\<rparr>]"
  have r: "responseFor u maxUDPPayload query domain = (Some ?r, [])"
    using assms(2-4) by (simp add: responseFor_table response_table_def)
  have "extended_rcode ?r = 16" "extended_rcode (or_flags RcodeNameError ?r) = 19"
    by (simp_all add: extended_rcode_def OPT_records_def base_response_def responder_OPT_def
        Rcode_def or_flags_def)
  then show ?thesis using assms(1,5) by (simp add: server_recv_def r)
qed

definition badvers_query :: Message where
  "badvers_query =
     \<lparr>msg_ID = 1, msg_Flags = 0x0100, msg_Question = [\<lparr>q_Name = [[97]], q_Type = 16, q_Class = 1\<rparr>],
      msg_Answer = [], msg_Authority = [],
      msg_Additional = [\<lparr>rr_Name = [], rr_Type = 41, rr_Class = 4096, rr_TTL = 0x00010000, rr_Data = []\<rparr>]\<rparr>"

lemma badvers_parse: "\<exists>buf. MessageFromWireFormat (take 4096 buf) = Inr badvers_query"
proof -
  have "valid_message badvers_query" "entries badvers_query \<le> Suc compressionPointerLimit"
    by (simp_all add: badvers_query_def valid_message_def entries_def valid_Question_def valid_RR_def
        valid_name_def valid_label_def name_octets_def compressionPointerLimit_def)
  then obtain buf where buf: "WireFormat badvers_query = Inr buf" "MessageFromWireFormat buf = Inr badvers_query"
    using message_roundtrip by blast
  have "length buf = 30"
    using buf(1) unfolding WireFormat_def WriteMessage_def
    by (auto simp: badvers_query_def WriteCount_ok WriteQuestion_def WriteRR_def builder_Write_def
        newMessageBuilder_def cachedPtr_def Let_def)
  then have "take 4096 buf = buf" by simp
  with buf(2) show ?thesis by metis
qed

theorem BADVERS_becomes_19_witness:
  "\<exists>datagram r. MessageFromWireFormat (take 4096 datagram) = Inr badvers_query \<and>
     sv_ch (server_recv \<lparr>uniLower = id, uniUpper = id\<rparr> 1232 [[97]] datagram DummyAddr
          \<lparr>sv_conn = NewQueuePacketConn DummyAddr, sv_ch = []\<rparr>) = [r] \<and> extended_rcode (dr_Resp r) = 19"
proof -
  obtain datagram where parse: "MessageFromWireFormat (take 4096 datagram) = Inr badvers_query"
    using badvers_parse by blast
  let ?rr = "msg_Additional badvers_query ! 0"
  let ?s = "\<lparr>sv_conn = NewQueuePacketConn DummyAddr, sv_ch = []\<rparr>"
  have q: "msg_Flags badvers_query AND 0x8000 = 0" "OPT_records badvers_query = ?rr # []" "EDNS_version ?rr \<noteq> 0"
    by (simp_all add: badvers_query_def OPT_records_def EDNS_version_def)
  have "length (sv_ch ?s) < record_chan_cap" by (simp add: record_chan_cap_def)
  from BADVERS_becomes_19 [OF parse q this, of "\<lparr>uniLower = id, uniUpper = id\<rparr>" 1232 "[[97]]" DummyAddr]
  show ?thesis using parse by auto
qed

end
