(* ===== verification/ServerBundle.thy ===== *)
theory ServerBundle
  imports Server
begin

text \<open>
  The bundling loop of the server's \<open>sendLoop\<close>: it takes packets from the stash and the send queue
  of one client as long as they fit, keeps their order, returns the first that does not fit to the
  stash, and loses none.
\<close>

section \<open>Fetched channels stay the client's channels\<close>

lemma WriteTo_keeps_peer:
  assumes "conn_inv c" and "peer (qc_remotes c) a = Some r" and "WriteTo p b now c = Inr (n, c')"
  shows "peer (qc_remotes c') a = Some r"
proof -
  have "rm_inv (qc_remotes c)" using assms(1) by (simp add: conn_inv_def)
  from fetch_ok [OF this, of b now] assms(2,3) show ?thesis
    by (auto simp: WriteTo_def WriteTo_fetch_def WriteTo_send_def result_simps split: option.splits prod.splits)
qed

lemma put_all_keeps_peer:
  assumes "conn_inv c \<and> qc_closed c = None" and "peer (qc_remotes c) a = Some r"
    and "put_all put_outgoing ws c = Inr c'"
  shows "peer (qc_remotes c') a = Some r"
  using assms
proof (induction ws arbitrary: c)
  case (Cons w ws)
  obtain t b p where w: "w = (t, b, p)" by (cases w)
  obtain c1 where c1: "WriteTo p b t c = Inr (length p, c1)" "conn_inv c1" "qc_closed c1 = None"
    using WriteTo_ok [of c p b t] Cons.prems(1) by auto
  have "peer (qc_remotes c1) a = Some r"
    using WriteTo_keeps_peer [OF _ Cons.prems(2) c1(1)] Cons.prems(1) by blast
  with Cons.IH [of c1] c1 Cons.prems(3) show ?case by (simp add: w put_outgoing_def)
qed simp

lemma put_all_stash:
  assumes "conn_inv c \<and> qc_closed c = None" and "put_all put_outgoing ws c = Inr c'"
  shows "stashed c' = stashed c"
  using assms
proof (induction ws arbitrary: c)
  case (Cons w ws)
  obtain t b p where w: "w = (t, b, p)" by (cases w)
  obtain c1 where c1: "WriteTo p b t c = Inr (length p, c1)" "conn_inv c1" "qc_closed c1 = None"
    "stashed c1 = stashed c"
    using WriteTo_ok [of c p b t] Cons.prems(1) by auto
  with Cons.IH [of c1] Cons.prems(2) show ?case by (simp add: w put_outgoing_def)
qed simp

text \<open>What one \<open>select\<close> takes, in terms of the packets that wait for the client.\<close>

definition waiting :: "net_addr QueuePacketConn \<Rightarrow> net_addr \<Rightarrow> bytes list" where
  "waiting c a = stashed c a @ outgoing c a"

lemma select_packet_ok:
  assumes "conn_inv c" and "peer (qc_remotes c) a = Some r"
  shows "\<exists>p nextRec c'. select_packet (rec_Stash r) (rec_SendQueue r) w c = (p, nextRec, c') \<and>
     conn_inv c' \<and> peer (qc_remotes c') a = Some r \<and> qc_closed c' = qc_closed c \<and>
     (\<forall>b. b \<noteq> a \<longrightarrow> stashed c' b = stashed c b \<and> outgoing c' b = outgoing c b) \<and>
     (case waiting c a of
        [] \<Rightarrow> p = [] \<and> c' = c \<and> nextRec = (case w of Timer \<Rightarrow> None | NextRec r \<Rightarrow> Some r)
      | x # xs \<Rightarrow> p = x \<and> nextRec = None \<and> stashed c' a = [] \<and> outgoing c' a = xs)"
proof -
  let ?m = "qc_remotes c"
  have inv: "rm_inv ?m" using assms(1) by (simp add: conn_inv_def)
  obtain cs where s: "ch_recv (rec_Stash r) (rm_chans ?m) =
      ((case stashq ?m a of [] \<Rightarrow> None | p # _ \<Rightarrow> Some p), cs)" "rm_inv (?m\<lparr>rm_chans := cs\<rparr>)"
    "stashq (?m\<lparr>rm_chans := cs\<rparr>) = (stashq ?m)(a := tl (stashq ?m a))" "sendq (?m\<lparr>rm_chans := cs\<rparr>) = sendq ?m"
    using recv_views(2) [OF inv assms(2)] by blast
  obtain cs' where q: "ch_recv (rec_SendQueue r) (rm_chans ?m) =
      ((case sendq ?m a of [] \<Rightarrow> None | p # _ \<Rightarrow> Some p), cs')" "rm_inv (?m\<lparr>rm_chans := cs'\<rparr>)"
    "sendq (?m\<lparr>rm_chans := cs'\<rparr>) = (sendq ?m)(a := tl (sendq ?m a))" "stashq (?m\<lparr>rm_chans := cs'\<rparr>) = stashq ?m"
    using recv_views(1) [OF inv assms(2)] by blast
  note defs = select_packet_def conn_recv_def conn_inv_def waiting_def stashed_def outgoing_def
  show ?thesis
  proof (cases "stashq ?m a")
    case (Cons p ps)
    have "ps = []" using queue_lengths(2) [OF inv, of a] Cons by simp
    with Cons s assms show ?thesis by (simp add: defs)
  next
    case stash: Nil
    show ?thesis
    proof (cases "sendq ?m a")
      case (Cons p ps)
      with stash s(1) q assms show ?thesis by (simp add: defs)
    next
      case Nil
      with stash s(1) q(1) assms show ?thesis by (simp add: defs split: wake.splits)
    qed
  qed
qed

section \<open>The loop\<close>

text \<open>Packets that could not be framed would be a panic; KCP's packets are at most its MTU.\<close>

definition framable :: "schedule \<Rightarrow> net_addr QueuePacketConn \<Rightarrow> net_addr \<Rightarrow> bool" where
  "framable sched c a \<longleftrightarrow> list_all ok16 (waiting c a) \<and> (\<forall>k. list_all ok16 (packets_for a (fst (sched k))))"

text \<open>No packet is written to the client while its response is being built.\<close>

definition quiet :: "schedule \<Rightarrow> net_addr \<Rightarrow> bool" where
  "quiet sched a \<longleftrightarrow> (\<forall>k. packets_for a (fst (sched k)) = [])"

definition framed_length :: "bytes list \<Rightarrow> nat" where
  "framed_length ps = length (concat (map frame16 ps))"

lemma framed_length_simps [simp]:
  "framed_length [] = 0" "framed_length (p # ps) = 2 + length p + framed_length ps"
  by (simp_all add: framed_length_def)

lemma bundle_ok:
  assumes "conn_inv c" and "qc_closed c = None" and "peer (qc_remotes c) a = Some r"
    and "framable sched c a"
  shows "\<exists>ps nextRec c'.
     bundle_packets sched now (rec_Stash r) (rec_SendQueue r) a k limit payload c =
       Inr (payload @ concat (map frame16 ps), nextRec, c') \<and>
     conn_inv c' \<and> qc_closed c' = None \<and> list_all (\<lambda>p. p \<noteq> [] \<and> ok16 p) ps \<and>
     (ps = [] \<or> int (framed_length ps) \<le> limit \<or> payload = [] \<and> length ps = 1) \<and>
     (quiet sched a \<longrightarrow> [] \<notin> set (waiting c a) \<longrightarrow>
        waiting c a = ps @ waiting c' a \<and>
        (waiting c' a = [] \<or> (payload \<noteq> [] \<or> ps \<noteq> []) \<and>
           limit < int (framed_length (ps @ [hd (waiting c' a)]))))"
  using assms
proof (induction "nat limit + (if payload = [] then 1 else 0)" arbitrary: k limit payload c rule: less_induct)
  case less
  let ?b = "bundle_packets sched now (rec_Stash r) (rec_SendQueue r) a"
  let ?ws = "fst (sched k)"
  have c0: "conn_inv c \<and> qc_closed c = None" using less.prems by simp
  obtain c1 where c1: "put_all put_outgoing ?ws c = Inr c1" "conn_inv c1" "qc_closed c1 = None"
    "\<And>b. outgoing c1 b = take QueueSize (outgoing c b @ packets_for b ?ws)"
    using outgoing.put_all_ok [OF c0, of ?ws] by blast
  have st1: "stashed c1 = stashed c" by (rule put_all_stash [OF c0 c1(1)])
  have peer1: "peer (qc_remotes c1) a = Some r" by (rule put_all_keeps_peer [OF c0 less.prems(3) c1(1)])
  have fr1: "list_all ok16 (waiting c1 a)"
    using less.prems(4) by (auto simp: framable_def waiting_def st1 c1(4) list_all_iff dest!: in_set_takeD)
  have quiet1: "waiting c1 a = waiting c a" if "quiet sched a"
  proof -
    have "length (outgoing c a) \<le> QueueSize" using outgoing.bounded [OF c0] .
    then show ?thesis using that c1(4) [of a] by (simp add: waiting_def st1 quiet_def)
  qed
  obtain p nextRec c2 where sel: "select_packet (rec_Stash r) (rec_SendQueue r) (snd (sched k)) c1 = (p, nextRec, c2)"
    and c2: "conn_inv c2" "peer (qc_remotes c2) a = Some r" "qc_closed c2 = None"
    and wait: "case waiting c1 a of
        [] \<Rightarrow> p = [] \<and> c2 = c1 \<and> nextRec = (case snd (sched k) of Timer \<Rightarrow> None | NextRec r \<Rightarrow> Some r)
      | x # xs \<Rightarrow> p = x \<and> nextRec = None \<and> stashed c2 a = [] \<and> outgoing c2 a = xs"
    using select_packet_ok [OF c1(2) peer1, of "snd (sched k)"] c1(3) by metis
  have unfold: "?b k limit payload c =
     (if length p = 0 then Inr (payload, nextRec, c2)
      else if length payload \<noteq> 0 \<and> limit - (2 + int (length p)) < 0 then
        bindE (conn_Stash p a now c2) (\<lambda>(_, c3). Inr (payload, nextRec, c3))
      else if length p \<ge> 65536 then Inl Panic
      else ?b (Suc k) (limit - (2 + int (length p))) (payload @ be16 (of_nat (length p)) @ p) c2)"
    by (subst bundle_packets.simps) (simp only: c1(1) bindE_Inr sel Let_def prod.case)
  show ?case
  proof (cases "p = []")
    case True
    then have "?b k limit payload c = Inr (payload @ concat (map frame16 []), nextRec, c2)"
      by (simp add: unfold)
    moreover have "waiting c2 a = [] \<and> waiting c a = waiting c2 a"
      if "quiet sched a" "[] \<notin> set (waiting c a)"
      using wait True quiet1 [OF that(1)] that(2) by (auto split: list.splits)
    ultimately show ?thesis using c2 by (intro exI [of _ "[]"]) auto
  next
    case False
    then obtain xs where xs: "waiting c1 a = p # xs" "waiting c2 a = xs" "stashed c2 a = []"
      "outgoing c2 a = xs" "nextRec = None"
      using wait by (auto split: list.splits simp: waiting_def)
    have okp: "ok16 p" "list_all ok16 xs" using fr1 xs(1) by simp_all
    show ?thesis
    proof (cases "length payload \<noteq> 0 \<and> limit - (2 + int (length p)) < 0")
      case full: True
      obtain b c3 where c3: "conn_Stash p a now c2 = Inr (b, c3)" "conn_inv c3" "qc_closed c3 = None"
        "stashed c3 = (stashed c2)(a := take 1 (stashed c2 a @ [p]))" "outgoing c3 = outgoing c2"
        using conn_Stash_ok [OF c2(1), of p a now] c2(3) by auto
      have "?b k limit payload c = Inr (payload @ concat (map frame16 []), nextRec, c3)"
        using False full c3(1) by (simp add: unfold)
      moreover have "waiting c3 a = p # xs" using c3(4,5) xs by (simp add: waiting_def)
      moreover have "framed_length [p] = 2 + length p" by simp
      moreover have "waiting c a = p # xs" if "quiet sched a" using quiet1 [OF that] xs(1) by simp
      ultimately show ?thesis
        using c3(2,3) full
        by (intro exI [of _ "[]"] exI [of _ nextRec] exI [of _ c3]) auto
    next
      case fits: False
      let ?limit = "limit - (2 + int (length p))"
      let ?payload = "payload @ be16 (of_nat (length p)) @ p"
      have step: "?b k limit payload c = ?b (Suc k) ?limit ?payload c2"
      proof -
        have "\<not> length p = 0" "\<not> length p \<ge> 65536" using False okp(1) by (simp_all add: ok16_def)
        then show ?thesis by (simp only: unfold if_not_P [OF fits] if_False)
      qed
      have "?payload \<noteq> []" using False by simp
      moreover from this have "nat ?limit + (if ?payload = [] then 1 else 0) <
          nat limit + (if payload = [] then 1 else 0)" using fits by auto
      moreover have "framable sched c2 a"
        using less.prems(4) okp(2) xs(2) by (simp add: framable_def)
      ultimately obtain ps nextRec' c' where IH:
        "?b (Suc k) ?limit ?payload c2 = Inr (?payload @ concat (map frame16 ps), nextRec', c')"
        "conn_inv c'" "qc_closed c' = None" "list_all (\<lambda>p. p \<noteq> [] \<and> ok16 p) ps"
        "ps = [] \<or> int (framed_length ps) \<le> ?limit"
        "quiet sched a \<Longrightarrow> [] \<notin> set (waiting c2 a) \<Longrightarrow> waiting c2 a = ps @ waiting c' a \<and>
          (waiting c' a = [] \<or> ?limit < int (framed_length (ps @ [hd (waiting c' a)])))"
        using less.hyps [of ?limit ?payload c2 "Suc k"] c2 by blast
      have "?b k limit payload c = Inr (payload @ concat (map frame16 (p # ps)), nextRec', c')"
        using step IH(1) by (simp add: frame16_def)
      moreover have "int (framed_length (p # ps)) \<le> limit \<or> payload = [] \<and> length (p # ps) = 1"
        using IH(5) fits by auto
      moreover have "waiting c a = (p # ps) @ waiting c' a \<and>
          (waiting c' a = [] \<or> (payload \<noteq> [] \<or> p # ps \<noteq> []) \<and>
             limit < int (framed_length ((p # ps) @ [hd (waiting c' a)])))"
        if "quiet sched a" "[] \<notin> set (waiting c a)"
      proof -
        have wa: "waiting c a = p # waiting c2 a" using quiet1 [OF that(1)] xs(1,2) by simp
        with that(2) have "[] \<notin> set (waiting c2 a)" by simp
        from IH(6) [OF that(1) this] show ?thesis using wa False by auto
      qed
      ultimately show ?thesis
        using IH(2-4) False okp(1)
        by (intro exI [of _ "p # ps"] exI [of _ nextRec'] exI [of _ c']) auto
    qed
  qed
qed

section \<open>Properties\<close>


text \<open>A connection with two packets waiting for a peer.\<close>

lemma two_waiting:
  "\<exists>c r. put_all put_outgoing [(0, DummyAddr, [1]), (0, DummyAddr, [2, 3])] (NewQueuePacketConn DummyAddr) = Inr c \<and>
     conn_inv c \<and> qc_closed c = None \<and> peer (qc_remotes c) DummyAddr = Some r \<and>
     waiting c DummyAddr = [[1], [2, 3]]"
proof -
  let ?c = "NewQueuePacketConn DummyAddr"
  obtain c1 where c1: "WriteTo [1] DummyAddr 0 ?c = Inr (length [1], c1)" "conn_inv c1" "qc_closed c1 = None"
    "outgoing c1 = (outgoing ?c)(DummyAddr := take QueueSize (outgoing ?c DummyAddr @ [[1]]))"
    "stashed c1 = stashed ?c"
    using WriteTo_ok [of ?c "[1]" DummyAddr 0] by auto
  obtain c2 where c2: "WriteTo [2, 3] DummyAddr 0 c1 = Inr (length [2, 3], c2)" "conn_inv c2"
    "qc_closed c2 = None" "outgoing c2 = (outgoing c1)(DummyAddr := take QueueSize (outgoing c1 DummyAddr @ [[2, 3]]))"
    "stashed c2 = stashed c1"
    using WriteTo_ok [OF c1(2,3), of "[2, 3]" DummyAddr 0] by auto
  have "outgoing ?c DummyAddr = []" "stashed ?c DummyAddr = []"
    by (simp_all add: outgoing_def sendq_def stashed_def stashq_def NewQueuePacketConn_def
        NewRemoteMap_def peer_def)
  then have w: "outgoing c2 DummyAddr = [[1], [2, 3]]" "stashed c2 DummyAddr = []"
    by (simp_all add: c2(4,5) c1(4,5) QueueSize_def)
  then obtain r where "peer (qc_remotes c2) DummyAddr = Some r"
    by (auto simp: outgoing_def sendq_def split: option.splits)
  with c1 c2 w show ?thesis by (auto simp: put_outgoing_def waiting_def)
qed


end
