(* ===== verification/ServerPayload.thy ===== *)
theory ServerPayload
  imports Server
begin

text \<open>
  How long a response is (\<open>computeMaxEncodedPayload\<close> of \<open>src/dnstt-server/main.go\<close>): the
  exact length of every data response, the exact result of the binary search, and that it bounds
  the response to every query, whatever its name.
\<close>

section \<open>The length of a data response\<close>

lemma WriteName_cache_frame:
  assumes "WriteName ls b = Inr b'" and "\<And>k. k < length ls \<Longrightarrow> n \<noteq> Name_String (drop k ls)"
  shows "builder_nameCache b' n = builder_nameCache b n"
  using assms
proof (induction ls arbitrary: b)
  case (Cons l ls)
  have "n \<noteq> Name_String (l # ls)" using Cons.prems(2) [of 0] by simp
  moreover have "n \<noteq> Name_String (drop k ls)" if "k < length ls" for k
    using Cons.prems(2) [of "Suc k"] that by simp
  ultimately show ?case
    using Cons.IH Cons.prems(1) by (auto simp: Let_def split: option.splits if_splits)
qed auto

text \<open>A name written to a fresh builder is in full, and is cached at its place.\<close>

lemma WriteName_first:
  assumes "list_all valid_label ls" and "builder_nameCache b = Map.empty"
  shows "\<exists>b'. WriteName ls b = Inr b' \<and> builder_w b' = builder_w b @ plain_name ls \<and>
     (ls \<noteq> [] \<longrightarrow> builder_nameCache b' (Name_String ls) = Some (length (builder_w b)))"
proof (cases ls)
  case Nil
  then show ?thesis by (simp add: plain_name_def)
next
  case (Cons l ls')
  obtain c where c: "WriteName ls b = Inr \<lparr>builder_w = builder_w b @ plain_name ls, builder_nameCache = c\<rparr>"
    using WriteName_plain [OF assms(1), of b] assms(2) by auto
  let ?b = "builder_Write (of_nat (length l) # l)
    (b\<lparr>builder_nameCache := (builder_nameCache b)(Name_String ls \<mapsto> length (builder_w b))\<rparr>)"
  have "WriteName ls' ?b = WriteName ls b"
    using assms Cons by (simp add: cachedPtr_def valid_label_def Let_def)
  moreover have "Name_String ls \<noteq> Name_String (drop k ls')" if "k < length ls'" for k
  proof
    assume "Name_String ls = Name_String (drop k ls')"
    moreover have "[] \<notin> set ls" "[] \<notin> set (drop k ls')"
      using list_all_valid_no_Nil [OF assms(1)] Cons by (auto dest: in_set_dropD)
    ultimately have "ls = drop k ls'" by (rule Name_String_inj)
    then have "length ls \<le> length ls'" by simp
    with Cons show False by simp
  qed
  ultimately have "c (Name_String ls) = Some (length (builder_w b))"
    using WriteName_cache_frame [of ls' ?b] c by fastforce
  with c show ?thesis by auto
qed

definition response_overhead :: "Name \<Rightarrow> RR list \<Rightarrow> nat" where
  "response_overhead name additional =
     12 + (name_octets name + 4) + ((if name = [] then 1 else 2) + 10) + 11 * length additional"

text \<open>Responses as \<open>responseFor\<close> makes them: an OPT record of the root name without data, or none.\<close>

definition bare_response :: "Question \<Rightarrow> Message \<Rightarrow> bool" where
  "bare_response q resp \<longleftrightarrow> msg_Question resp = [q] \<and> valid_name (q_Name q) \<and>
     msg_Authority resp = [] \<and>
     (msg_Additional resp = [] \<or> (\<exists>rr. msg_Additional resp = [rr] \<and> rr_Name rr = [] \<and> rr_Data rr = []))"

lemma response_length:
  assumes "bare_response q resp" and "length (EncodeRDataTXT payload) < 65536"
  shows "\<exists>buf. WireFormat (answer_with payload resp) = Inr buf \<and>
     length buf = response_overhead (q_Name q) (msg_Additional resp) + length (EncodeRDataTXT payload)"
proof -
  let ?m = "answer_with payload resp"
  let ?name = "q_Name q"
  have m: "msg_Question ?m = [q]" "msg_Authority ?m = []" "msg_Additional ?m = msg_Additional resp"
    "msg_Answer ?m = [\<lparr>rr_Name = ?name, rr_Type = q_Type q, rr_Class = q_Class q,
        rr_TTL = responseTTL, rr_Data = EncodeRDataTXT payload\<rparr>]"
    using assms(1) by (simp_all add: answer_with_def bare_response_def Let_def)
  obtain b0 where b0: "write_each WriteCount [length (msg_Question ?m), length (msg_Answer ?m),
      length (msg_Authority ?m), length (msg_Additional ?m)]
      (builder_Write (be16 (msg_ID ?m) @ be16 (msg_Flags ?m)) newMessageBuilder) = Inr b0"
    "length (builder_w b0) = 12" "builder_nameCache b0 = Map.empty"
    using assms(1) by (auto simp: m WriteCount_ok bare_response_def builder_Write_def)
  have valid: "list_all valid_label ?name"
    using assms(1) by (simp add: bare_response_def valid_name_def)
  obtain b1 where b1: "WriteName ?name b0 = Inr b1" "builder_w b1 = builder_w b0 @ plain_name ?name"
    "?name \<noteq> [] \<longrightarrow> builder_nameCache b1 (Name_String ?name) = Some 12"
    using WriteName_first [OF valid b0(3)] b0(2) by auto
  let ?q = "be16 (q_Type q) @ be16 (q_Class q)"
  have q: "WriteQuestion q b0 = Inr (builder_Write ?q b1)"
    using b1(1) by (simp add: WriteQuestion_def builder_Write_def)
  obtain b2 where b2: "WriteName ?name (builder_Write ?q b1) = Inr b2"
    "length (builder_w b2) = length (builder_w b1) + 4 + (if ?name = [] then 1 else 2)"
  proof (cases ?name)
    case Nil
    then show ?thesis using that by simp
  next
    case (Cons l ls)
    then have "cachedPtr (builder_Write ?q b1) (l # ls) = Some 12"
      using b1(3) by (simp add: cachedPtr_eq_Some)
    with Cons show ?thesis using that by simp
  qed
  obtain b3 where b3: "WriteRR (msg_Answer ?m ! 0) (builder_Write ?q b1) = Inr b3"
    "length (builder_w b3) = length (builder_w b2) + 10 + length (EncodeRDataTXT payload)"
    using b2(1) assms(2) by (simp add: WriteRR_def m Let_def)
  obtain b4 where b4: "write_each WriteRR (msg_Additional ?m) b3 = Inr b4"
    "length (builder_w b4) = length (builder_w b3) + 11 * length (msg_Additional ?m)"
    using assms(1) by (auto simp: bare_response_def m WriteRR_def Let_def)
  have "WireFormat ?m = Inr (builder_w b4)"
    unfolding WireFormat_def WriteMessage_def b0(1) using q b3(1) b4(1) m by simp
  moreover have "length (builder_w b4) =
      response_overhead ?name (msg_Additional resp) + length (EncodeRDataTXT payload)"
    using b4(2) b3(2) b2(2) b1(2) b0(2) m(3) by (simp add: response_overhead_def)
  ultimately show ?thesis by blast
qed

text \<open>The name that costs most is one of 255 octets.\<close>

lemma overhead_le_max:
  "valid_name name \<Longrightarrow> length additional \<le> 1 \<Longrightarrow> response_overhead name additional \<le> 294"
  by (auto simp: response_overhead_def valid_name_def)

section \<open>The binary search\<close>

lemma search_payload_correct:
  assumes mono: "\<And>i j. i \<le> j \<Longrightarrow> len i \<le> len j"
    and wire: "\<And>n. n < 32768 \<Longrightarrow> \<exists>buf. wire n = Inr buf \<and> length buf = len n"
    and "low < high" and "high \<le> 32768"
    and "low = 0 \<or> int (len low) \<le> limit" and "high = 32768 \<or> limit < int (len high)"
  shows "\<exists>n<32768. search_payload wire limit low high = Inr n \<and>
     (\<forall>m. 0 < m \<longrightarrow> m < 32768 \<longrightarrow> (m \<le> n \<longleftrightarrow> int (len m) \<le> limit))"
  using assms(3-)
proof (induction "high - low" arbitrary: low high rule: less_induct)
  case less
  show ?case
  proof (cases "low + 1 < high")
    case True
    let ?mid = "(low + high) div 2"
    have mid: "low < ?mid" "?mid < high" using True by auto
    obtain buf where buf: "wire ?mid = Inr buf" "length buf = len ?mid"
      using wire [of ?mid] mid less.prems(2) by auto
    show ?thesis
    proof (cases "int (len ?mid) \<le> limit")
      case fits: True
      have "search_payload wire limit low high = search_payload wire limit ?mid high"
        using True buf fits by (subst search_payload.simps) (simp add: Let_def)
      with less.hyps [of high ?mid] mid less.prems fits show ?thesis by simp
    next
      case False
      have "search_payload wire limit low high = search_payload wire limit low ?mid"
        using True buf False by (subst search_payload.simps) (simp add: Let_def)
      with less.hyps [of ?mid low] mid less.prems False show ?thesis by simp
    qed
  next
    case False
    with less.prems(1) have high: "high = Suc low" by simp
    have "m \<le> low \<longleftrightarrow> int (len m) \<le> limit" if m: "0 < m" "m < 32768" for m
    proof
      assume "m \<le> low"
      with m less.prems(3) mono [of m low] show "int (len m) \<le> limit" by auto
    next
      assume fits: "int (len m) \<le> limit"
      show "m \<le> low"
      proof (rule ccontr)
        assume "\<not> m \<le> low"
        then have "high \<le> m" by (simp add: high)
        with m less.prems(4) mono [of high m] fits show False by auto
      qed
    qed
    moreover have "search_payload wire limit low high = Inr low"
      using False by (subst search_payload.simps) simp
    ultimately show ?thesis using less.prems(2) high by auto
  qed
qed

definition max_response_length :: "nat \<Rightarrow> nat" where
  "max_response_length n = 294 + (n + max 1 ((n + 254) div 255))"

lemma max_response_length_mono: "i \<le> j \<Longrightarrow> max_response_length i \<le> max_response_length j"
  unfolding max_response_length_def by (intro add_mono max.mono div_le_mono) auto

lemma maxLengthName_valid: "valid_name maxLengthName" "name_octets maxLengthName = 255"
  by (simp_all add: maxLengthName_def valid_name_def valid_label_def name_octets_def)

lemma TrimSuffix_root: "Name_TrimSuffix u name [] = Some name"
  by (simp add: Name_TrimSuffix_def)

lemma max_query_response:
  "\<exists>f p. responseFor u maxUDPPayload (max_query limit) [] =
     (Some (base_response (max_query limit) f [responder_OPT]), p)"
proof -
  obtain rr where "OPT_records (max_query limit) = [rr]" "EDNS_version rr = 0"
    by (simp add: OPT_records_def max_query_def EDNS_version_def)
  moreover have "msg_Flags (max_query limit) = 0" by (simp add: max_query_def)
  moreover have "\<exists>f p. answer_question u maxUDPPayload query [] ad n = (base_response query f ad, p)"
    for query ad n
    unfolding answer_question_def
    by (auto split: list.splits option.splits)
  ultimately show ?thesis by (simp add: responseFor_table response_table_def)
qed

lemma computeMaxEncodedPayload_exact:
  "\<exists>n<32768. computeMaxEncodedPayload u maxUDPPayload limit = Inr n \<and>
     (\<forall>m. 0 < m \<longrightarrow> m < 32768 \<longrightarrow> (m \<le> n \<longleftrightarrow> int (max_response_length m) \<le> limit))"
proof -
  obtain f p where resp: "responseFor u maxUDPPayload (max_query limit) [] =
     (Some (base_response (max_query limit) f [responder_OPT]), p)"
    using max_query_response by blast
  let ?resp = "base_response (max_query limit) f [responder_OPT]"
  let ?wire = "\<lambda>mid. WireFormat (answer_with (replicate mid 0) ?resp)"
  have bare: "bare_response (msg_Question (max_query limit) ! 0) ?resp"
    using maxLengthName_valid
    by (auto simp: bare_response_def base_response_def max_query_def responder_OPT_def)
  have over: "response_overhead (q_Name (msg_Question (max_query limit) ! 0)) (msg_Additional ?resp) = 294"
    using maxLengthName_valid
    by (simp add: response_overhead_def base_response_def max_query_def) (simp add: maxLengthName_def)
  have "\<exists>buf. ?wire n = Inr buf \<and> length buf = max_response_length n" if "n < 32768" for n
  proof -
    have "length (EncodeRDataTXT (replicate n 0)) < 65536"
      using that by (simp add: length_EncodeRDataTXT)
    from response_length [OF bare this] show ?thesis
      by (simp add: over max_response_length_def length_EncodeRDataTXT)
  qed
  from search_payload_correct [OF max_response_length_mono this, where low = 0 and high = 32768 and limit = limit]
  have "\<exists>n<32768. search_payload ?wire limit 0 32768 = Inr n \<and>
     (\<forall>m. 0 < m \<longrightarrow> m < 32768 \<longrightarrow> (m \<le> n \<longleftrightarrow> int (max_response_length m) \<le> limit))" by simp
  moreover have "NewName maxLengthName = Inr maxLengthName" using maxLengthName_valid by simp
  moreover have "sum_list (map (\<lambda>l. length l + 1) maxLengthName) + 1 = 255"
    by (simp add: maxLengthName_def)
  ultimately show ?thesis by (simp add: computeMaxEncodedPayload_def resp)
qed

section \<open>Properties\<close>

text \<open>
  C12: The binary search finds the exact maximum: \<open>computeMaxEncodedPayload\<close> returns (it never
  panics) the largest payload length below 32768 whose response to a query with a 255-octet name
  is within the limit, and 0 if there is none; such a response is 294 octets and the payload with
  one length octet per started group of 255.
\<close>

theorem computeMaxEncodedPayload_correct:
  "\<exists>n<32768. computeMaxEncodedPayload u maxUDPPayload limit = Inr n \<and>
     (\<forall>m\<in>{1..<32768}. m \<le> n \<longleftrightarrow> int (294 + (m + max 1 ((m + 254) div 255))) \<le> limit)"
  using computeMaxEncodedPayload_exact [of u maxUDPPayload limit]
  by (auto simp: max_response_length_def)

theorem computeMaxEncodedPayload_correct_witness:
  "computeMaxEncodedPayload \<lparr>uniLower = id, uniUpper = id\<rparr> 1232 1232 = Inr 934"
proof -
  obtain n where n: "computeMaxEncodedPayload \<lparr>uniLower = id, uniUpper = id\<rparr> 1232 1232 = Inr n"
    "\<forall>m\<in>{1..<32768}. m \<le> n \<longleftrightarrow> int (294 + (m + max 1 ((m + 254) div 255))) \<le> 1232"
    using computeMaxEncodedPayload_correct by blast
  have "934 \<le> n" "\<not> 935 \<le> n" using bspec [OF n(2), of 934] bspec [OF n(2), of 935] by simp_all
  then have "n = 934" by simp
  with n(1) show ?thesis by simp
qed

end
