(* ===== verification/Channel.thy ===== *)
theory Channel
  imports Client ServerBundle ServerPayload
begin

text \<open>
  Client and server together: what the client sends reaches the server's queues, whatever letter
  case and message the resolver uses on the way, and what waits for a client at the server reaches
  the client in one datagram of the allowed size.
\<close>

section \<open>Upstream\<close>

text \<open>A resolver may change the case of ASCII letters in the name it asks for.\<close>

definition case_variant :: "Name \<Rightarrow> Name \<Rightarrow> bool" where
  "case_variant = list_all2 (\<lambda>l m. l = m \<or>
     isASCII l \<and> isASCII m \<and> map lower_byte l = map lower_byte m)"

text \<open>A query for such a name that a resolver may make of the client's.\<close>

definition relayed :: "casemap \<Rightarrow> int \<Rightarrow> Name \<Rightarrow> Message \<Rightarrow> bool" where
  "relayed u maxUDPPayload name query \<longleftrightarrow>
     msg_Flags query AND 0x8000 = 0 \<and> Opcode query = 0 \<and>
     length (OPT_records query) \<le> 1 \<and> list_all (\<lambda>rr. EDNS_version rr = 0) (OPT_records query) \<and>
     maxUDPPayload \<le> requester_size query \<and>
     (\<exists>q. msg_Question query = [q] \<and> q_Type q = RRTypeTXT \<and> case_variant (q_Name q) name)"

lemma below_256:
  assumes "\<forall>n\<in>set [0..<256]. P (of_nat n :: byte)"
  shows "P v"
proof -
  have "unat v \<in> set [0..<256]" by simp
  from bspec [OF assms this] show ?thesis by simp
qed

lemma upper_of_lower: "upper_byte (lower_byte b) = upper_byte b"
proof -
  have "\<forall>n\<in>set [0..<256]. upper_byte (lower_byte (of_nat n)) = upper_byte (of_nat n)" by code_simp
  from below_256 [OF this] show ?thesis .
qed

lemma variant_ToLower:
  "l = m \<or> isASCII l \<and> isASCII m \<and> map lower_byte l = map lower_byte m \<Longrightarrow> ToLower u l = ToLower u m"
  by (auto simp: ToLower_def)

lemma variant_ToUpper:
  assumes "case_variant ls ms" and "isASCII (concat ms)"
  shows "isASCII (concat ls) \<and> map upper_byte (concat ls) = map upper_byte (concat ms)"
  using assms(1)[unfolded case_variant_def] assms(2)
proof (induction ls ms rule: list_all2_induct)
  case (Cons l ls m ms)
  have "map upper_byte l = map upper_byte m"
  proof (cases "l = m")
    case False
    with Cons.hyps have "map lower_byte l = map lower_byte m" by simp
    then have "map upper_byte (map lower_byte l) = map upper_byte (map lower_byte m)" by simp
    then show ?thesis by (simp add: upper_of_lower comp_def)
  qed simp
  with Cons show ?case by (auto simp: isASCII_def)
qed simp

lemma relayed_acceptable:
  assumes "relayed u maxUDPPayload (labels @ domain) query"
    and "concat labels = ToLower u (b32_encode decoded)"
  shows "acceptable u maxUDPPayload domain query decoded"
proof -
  obtain q where q: "msg_Question query = [q]" "q_Type q = RRTypeTXT" "case_variant (q_Name q) (labels @ domain)"
    using assms(1) by (auto simp: relayed_def)
  let ?fore = "take (length labels) (q_Name q)" and ?aft = "drop (length labels) (q_Name q)"
  have len: "length (q_Name q) = length labels + length domain"
    using q(3) by (auto simp: case_variant_def dest: list_all2_lengthD)
  have v: "case_variant ?fore labels" "case_variant ?aft domain"
    using list_all2_takeI [OF q(3) [unfolded case_variant_def], of "length labels"]
      list_all2_dropI [OF q(3) [unfolded case_variant_def], of "length labels"]
    by (simp_all add: case_variant_def)
  have "list_all2 (\<lambda>a s. ToLower u a = ToLower u s) ?aft domain"
    using v(2) unfolding case_variant_def by (rule list_all2_mono) (rule variant_ToLower)
  then have trim: "Name_TrimSuffix u (q_Name q) domain = Some ?fore"
    by (simp add: Name_TrimSuffix_def len Let_def)
  have "isASCII (concat labels)" unfolding assms(2) by (rule ToLower_b32_encode(2))
  from variant_ToUpper [OF v(1) this]
  have "ToUpper u (concat ?fore) = b32_encode decoded"
    by (simp add: ToUpper_def assms(2) ToLower_b32_encode(1) upper_lower_b32_encode del: map_map)
  then have "b32_decode (ToUpper u (concat ?fore)) = Some decoded" by (simp add: b32_decode_encode)
  with assms(1) q trim show ?thesis by (auto simp: acceptable_def relayed_def)
qed

text \<open>The state of the server after it has read a query with this ClientID and packet.\<close>

definition after_query :: "ClientID \<Rightarrow> bytes \<Rightarrow> Message \<Rightarrow> net_addr \<Rightarrow> server \<Rightarrow> server" where
  "after_query cid p query addr s =
     (let s' = (if p = [] then s else s\<lparr>sv_conn := QueueIncoming p (ClientAddr cid) (sv_conn s)\<rparr>)
      in if length (sv_ch s) < record_chan_cap
         then s'\<lparr>sv_ch := sv_ch s @ [\<lparr>dr_Resp = data_response query, dr_Addr = addr, dr_ClientID = cid\<rparr>]\<rparr>
         else s')"

lemma server_recv_acceptable:
  assumes "MessageFromWireFormat (take 4096 datagram) = Inr query"
    and "acceptable u maxUDPPayload domain query
           (cid @ padding pad @ (if p = [] then [] else frame8 p))"
    and "length cid = 8" and "length pad < 32" and "length p < 224"
  shows "server_recv u maxUDPPayload domain datagram addr s = after_query cid p query addr s"
proof -
  let ?payload = "cid @ padding pad @ (if p = [] then [] else frame8 p)"
  have "server_packets (padding pad @ (if p = [] then [] else frame8 p)) = (if p = [] then [] else [p], EOF)"
    using upstream.drain_frames [of "[]"] upstream.drain_frames [of "[p]"] assms(5)
      server_packets_padding [OF assms(4), of "[]"]
    by (cases "p = []") (simp_all add: server_packets_padding [OF assms(4)] ok8_def)
  moreover have "take 8 (?payload @ replicate 8 0) = cid" "drop 8 ?payload = padding pad @ (if p = [] then [] else frame8 p)"
    using assms(3) by simp_all
  moreover have "min 8 (length ?payload) = 8" using assms(3) by simp
  moreover have "responseFor u maxUDPPayload query domain = (Some (data_response query), ?payload)"
    by (rule responseFor_acceptable [OF assms(2)])
  ultimately show ?thesis
    using assms(1) by (simp add: server_recv_def after_query_def Let_def split del: if_split) auto
qed

text \<open>The length of a query: no query is cut by the server's read buffer.\<close>

lemma query_length:
  assumes "valid_name name" and "WireFormat (query_for qid name) = Inr buf"
  shows "length buf = 27 + name_octets name"
proof -
  let ?m = "query_for qid name"
  obtain b0 where b0: "write_each WriteCount [length (msg_Question ?m), length (msg_Answer ?m),
      length (msg_Authority ?m), length (msg_Additional ?m)]
      (builder_Write (be16 (msg_ID ?m) @ be16 (msg_Flags ?m)) newMessageBuilder) = Inr b0"
    "length (builder_w b0) = 12" "builder_nameCache b0 = Map.empty"
    by (auto simp: query_for_def WriteCount_ok builder_Write_def)
  have valid: "list_all valid_label name" using assms(1) by (simp add: valid_name_def)
  obtain b1 where b1: "WriteName name b0 = Inr b1" "builder_w b1 = builder_w b0 @ plain_name name"
    using WriteName_first [OF valid b0(3)] by auto
  show ?thesis
    using assms(2) b0(2) b1 unfolding WireFormat_def WriteMessage_def b0(1)
    by (auto simp: query_for_def WriteQuestion_def WriteRR_def Let_def)
qed

text \<open>
  A packet within the MTU: the client sends it, and any query a resolver makes of it, in any
  letter case, brings exactly this packet into the server's queue under the client's ID, and a
  record for the response.
\<close>

lemma upstream_delivery:
  assumes "valid_name (dc_domain c)" and "80 \<le> client_mtu (dc_domain c)"
    and "int (length p) \<le> client_mtu (dc_domain c)" and "length (dc_clientID c) = 8"
    and "numPaddingForPoll \<le> length rand" and "maxUDPPayload \<le> 4096"
  shows "\<exists>buf name. send u qid rand p c = Some (Inr buf) \<and> length buf \<le> 282 \<and>
     MessageFromWireFormat buf = Inr (query_for qid name) \<and>
     relayed u maxUDPPayload name (query_for qid name) \<and>
     (\<forall>query datagram addr s. relayed u maxUDPPayload name query \<longrightarrow>
        MessageFromWireFormat (take 4096 datagram) = Inr query \<longrightarrow>
        server_recv u maxUDPPayload (dc_domain c) datagram addr s =
          after_query (dc_clientID c) p query addr s)"
proof -
  obtain buf labels pad decoded where send: "send u qid rand p c = Some (Inr buf)"
    "WireFormat (query_for qid (labels @ dc_domain c)) = Inr buf"
    "MessageFromWireFormat buf = Inr (query_for qid (labels @ dc_domain c))"
    "valid_name (labels @ dc_domain c)" "concat labels = ToLower u (b32_encode decoded)"
    "decoded = dc_clientID c @ of_nat (224 + length pad) # pad @ (if p = [] then [] else of_nat (length p) # p)"
    "length pad < 32" "length p < 224"
    using send_ok [OF assms(1-5)] by blast
  have decoded: "decoded = dc_clientID c @ padding pad @ (if p = [] then [] else frame8 p)"
    by (simp add: send(6) padding_def frame8_def)
  have "relayed u maxUDPPayload (labels @ dc_domain c) (query_for qid (labels @ dc_domain c))"
    using assms(6)
    by (simp add: relayed_def query_for_def Opcode_def OPT_records_def EDNS_version_def
        requester_size_def case_variant_def list_all2_refl)
  moreover have "server_recv u maxUDPPayload (dc_domain c) datagram addr s =
      after_query (dc_clientID c) p query addr s"
    if "relayed u maxUDPPayload (labels @ dc_domain c) query"
      "MessageFromWireFormat (take 4096 datagram) = Inr query" for query datagram addr s
    using server_recv_acceptable [OF that(2) relayed_acceptable [OF that(1) send(5), unfolded decoded]
        assms(4) send(7,8)] .
  moreover have "length buf \<le> 282"
    using query_length [OF send(4,2)] send(4) by (simp add: valid_name_def)
  ultimately show ?thesis using send(1,3) by blast
qed

section \<open>Downstream\<close>

text \<open>The question of a parsed, acceptable query makes a response that is bare.\<close>

lemma data_response_bare:
  assumes "valid_message query" and "acceptable u maxUDPPayload domain query payload"
  shows "\<exists>q. msg_Question query = [q] \<and> bare_response q (data_response query)"
  using assms
  by (auto simp: acceptable_def bare_response_def data_response_def valid_message_def
      valid_Question_def responder_OPT_def)

lemma Rcode_data_response [simp]: "Rcode (data_response query) = RcodeNoError"
  by (simp add: Rcode_def data_response_def)

lemma answer_valid:
  assumes "bare_response q resp" and "length (EncodeRDataTXT payload) < 65536"
  shows "valid_message (answer_with payload resp) \<and>
         entries (answer_with payload resp) \<le> Suc compressionPointerLimit"
  using assms
  by (auto simp: answer_with_def bare_response_def valid_message_def valid_Question_def valid_RR_def
      entries_def compressionPointerLimit_def Let_def valid_name_def name_octets_def)

text \<open>
  A payload within \<open>computeMaxEncodedPayload\<close> gives, for every acceptable query, a datagram that
  is not truncated and parses back.
\<close>

lemma response_fits:
  assumes "valid_message query" and "acceptable u maxUDPPayload domain query payload0"
    and "computeMaxEncodedPayload u maxUDPPayload maxUDPPayload = Inr n" and "0 < n"
    and "length payload \<le> n"
  shows "\<exists>buf. response_datagram maxUDPPayload (answer_with payload (data_response query)) = Inr (Some buf) \<and>
     int (length buf) \<le> maxUDPPayload \<and>
     MessageFromWireFormat buf = Inr (answer_with payload (data_response query))"
proof -
  obtain q where bare: "bare_response q (data_response query)" "valid_name (q_Name q)"
    using data_response_bare [OF assms(1,2)] by (auto simp: bare_response_def)
  have n: "n < 32768" "int (max_response_length n) \<le> maxUDPPayload"
    using computeMaxEncodedPayload_exact [of u maxUDPPayload maxUDPPayload] assms(3,4) by auto
  have "length (EncodeRDataTXT payload) \<le> length (EncodeRDataTXT (replicate n (0 :: byte)))"
    by (rule length_EncodeRDataTXT_mono) (simp add: assms(5))
  then have enc: "length (EncodeRDataTXT payload) \<le> n + max 1 ((n + 254) div 255)"
    by (simp add: length_EncodeRDataTXT [of "replicate n 0"])
  then have small: "length (EncodeRDataTXT payload) < 65536" using n(1) enc by simp
  obtain buf where buf: "WireFormat (answer_with payload (data_response query)) = Inr buf"
    "length buf = response_overhead (q_Name q) (msg_Additional (data_response query)) +
       length (EncodeRDataTXT payload)"
    using response_length [OF bare(1) small] by blast
  have "length (msg_Additional (data_response query)) \<le> 1" by (simp add: data_response_def)
  from overhead_le_max [OF bare(2) this] have "length buf \<le> max_response_length n"
    using buf(2) enc by (simp add: max_response_length_def)
  then have fits: "int (length buf) \<le> maxUDPPayload" using n(2) by linarith
  moreover have "MessageFromWireFormat buf = Inr (answer_with payload (data_response query))"
    using message_roundtrip answer_valid [OF bare(1) small] buf(1) by fastforce
  ultimately show ?thesis using buf(1) by (simp add: response_datagram_def)
qed

text \<open>What the client takes from such a datagram.\<close>

lemma dnsResponsePayload_answer:
  assumes "valid_message query" and "acceptable u maxUDPPayload domain query payload0"
  shows "dnsResponsePayload u (answer_with payload (data_response query)) domain = Some payload"
proof -
  obtain q prefix where q: "msg_Question query = [q]" "Name_TrimSuffix u (q_Name q) domain = Some prefix"
    "q_Type q = RRTypeTXT" using assms(2) by (auto simp: acceptable_def)
  then show ?thesis
    by (simp add: dnsResponsePayload_def answer_with_def data_response_def Let_def DecodeRDataTXT_Encode)
qed

definition after_response :: "bytes list \<Rightarrow> net_addr \<Rightarrow> DNSPacketConn \<Rightarrow> DNSPacketConn" where
  "after_response ps addr d =
     d\<lparr>dc_conn := fold (\<lambda>p. QueueIncoming p addr) ps (dc_conn d),
       dc_pollChan := (if ps \<noteq> [] \<and> dc_pollChan d < pollLimit then dc_pollChan d + 1 else dc_pollChan d)\<rparr>"

lemma client_recv_packets:
  assumes "MessageFromWireFormat buf = Inr resp" and "length buf \<le> 4096"
    and "dnsResponsePayload u resp (dc_domain d) = Some (concat (map frame16 ps))" and "list_all ok16 ps"
  shows "client_recv u buf addr d = after_response ps addr d"
  using assms downstream.drain_frames [OF assms(4)]
  by (auto simp: client_recv_def after_response_def Let_def)

lemma fetch_waiting:
  assumes "conn_inv c" and "qc_closed c = None"
  shows "\<exists>r c1 c2. conn_Unstash a now c = Inr (rec_Stash r, c1) \<and>
     OutgoingQueue a now c1 = Inr (rec_SendQueue r, c2) \<and> conn_inv c2 \<and> qc_closed c2 = None \<and>
     peer (qc_remotes c2) a = Some r \<and> waiting c2 = waiting c"
proof -
  have inv: "rm_inv (qc_remotes c)" using assms(1) by (simp add: conn_inv_def)
  obtain r m where m: "Unstash a now (qc_remotes c) = Inr (rec_Stash r, m)" "rm_inv m"
    "peer m a = Some r" "sendq m = sendq (qc_remotes c)" "stashq m = stashq (qc_remotes c)"
    using fetch_views [OF inv, of a now] by blast
  have "SendQueue a now m = Inr (rec_SendQueue r, m)"
    using fetch_ok [OF m(2), of a now] m(3) by auto
  then show ?thesis
    using m assms
    by (simp add: conn_Unstash_def OutgoingQueue_def conn_inv_def waiting_def stashed_def outgoing_def fun_eq_iff)
qed

text \<open>
  The whole way down: while no packet is larger than the MTU that \<open>run\<close> computes, the response to
  an acceptable query carries the longest run of waiting packets that fits, is not truncated, and
  the client takes exactly these packets from it, in order.
\<close>

lemma downstream_delivery:
  fixes c :: "net_addr QueuePacketConn" and cid :: ClientID
  defines "a \<equiv> ClientAddr cid"
  assumes "valid_message query" and "acceptable u maxUDPPayload domain query payload0"
    and "server_mtu u maxUDPPayload = Inr mtu"
    and "computeMaxEncodedPayload u maxUDPPayload maxUDPPayload = Inr n" and "maxUDPPayload \<le> 4096"
    and "conn_inv c" and "qc_closed c = None" and "quiet sched a"
    and "list_all (\<lambda>p. p \<noteq> [] \<and> length p \<le> mtu) (waiting c a)"
  shows "\<exists>buf nextRec c' ps.
     server_send maxUDPPayload (int n) sched now
       \<lparr>dr_Resp = data_response query, dr_Addr = addr, dr_ClientID = cid\<rparr> c =
       Inr (Some (buf, addr), nextRec, c') \<and>
     int (length buf) \<le> maxUDPPayload \<and> conn_inv c' \<and> waiting c a = ps @ waiting c' a \<and>
     (waiting c' a = [] \<or> ps \<noteq> [] \<and> n < framed_length (ps @ [hd (waiting c' a)])) \<and>
     (\<forall>d src. dc_domain d = domain \<longrightarrow> client_recv u buf src d = after_response ps src d)"
proof -
  let ?rec = "\<lparr>dr_Resp = data_response query, dr_Addr = addr, dr_ClientID = cid\<rparr>"
  have n: "mtu + 2 = n" "0 < n" using assms(4,5) by (auto simp: server_mtu_def split: if_splits)
  have n32: "n < 32768" using computeMaxEncodedPayload_exact [of u maxUDPPayload maxUDPPayload] assms(5) by auto
  obtain r c1 c2 where f: "conn_Unstash a now c = Inr (rec_Stash r, c1)"
    "OutgoingQueue a now c1 = Inr (rec_SendQueue r, c2)" "conn_inv c2" "qc_closed c2 = None"
    "peer (qc_remotes c2) a = Some r" "waiting c2 = waiting c"
    using fetch_waiting [OF assms(7,8), of a now] by blast
  have fr: "framable sched c2 a"
    using assms(9,10) n n32 f(6) by (auto simp: framable_def quiet_def ok16_def list_all_iff)
  obtain ps nextRec c' where b:
    "bundle_packets sched now (rec_Stash r) (rec_SendQueue r) a 0 (int n) [] c2 =
       Inr (concat (map frame16 ps), nextRec, c')"
    "conn_inv c'" "list_all (\<lambda>p. p \<noteq> [] \<and> ok16 p) ps"
    "ps = [] \<or> int (framed_length ps) \<le> int n \<or> length ps = 1"
    "[] \<notin> set (waiting c2 a) \<Longrightarrow> waiting c2 a = ps @ waiting c' a \<and>
        (waiting c' a = [] \<or> ps \<noteq> [] \<and> int n < int (framed_length (ps @ [hd (waiting c' a)])))"
    using bundle_ok [OF f(3,4,5) fr, of now 0 "int n" "[]"] assms(9) by auto
  have "[] \<notin> set (waiting c2 a)" using assms(10) by (auto simp: f(6) list_all_iff)
  from b(5) [OF this] have w: "waiting c a = ps @ waiting c' a"
    "waiting c' a = [] \<or> ps \<noteq> [] \<and> n < framed_length (ps @ [hd (waiting c' a)])" by (auto simp: f(6))
  have "framed_length ps \<le> n"
  proof (cases "length ps = 1")
    case True
    then obtain p where "ps = [p]" by (auto simp: length_Suc_conv)
    with w(1) assms(10) n(1) show ?thesis by simp
  next
    case False
    with b(4) show ?thesis by auto
  qed
  then have len: "length (concat (map frame16 ps)) \<le> n" by (simp add: framed_length_def)
  obtain buf where buf: "response_datagram maxUDPPayload
      (answer_with (concat (map frame16 ps)) (data_response query)) = Inr (Some buf)"
    "int (length buf) \<le> maxUDPPayload"
    "MessageFromWireFormat buf = Inr (answer_with (concat (map frame16 ps)) (data_response query))"
    using response_fits [OF assms(2,3,5) n(2) len] by blast
  have "length (msg_Question (data_response query)) = 1"
    using data_response_bare [OF assms(2,3)] by (auto simp: data_response_def)
  then have "server_send maxUDPPayload (int n) sched now ?rec c = Inr (Some (buf, addr), nextRec, c')"
    using f(1,2) b(1) buf(1) unfolding a_def by (simp add: server_send_def fill_response_def)
  moreover have "client_recv u buf src d = after_response ps src d" if "dc_domain d = domain" for d src
  proof (rule client_recv_packets [OF buf(3)])
    show "length buf \<le> 4096" using buf(2) assms(6) by linarith
    show "dnsResponsePayload u (answer_with (concat (map frame16 ps)) (data_response query)) (dc_domain d) =
        Some (concat (map frame16 ps))"
      unfolding that by (rule dnsResponsePayload_answer [OF assms(2,3)])
    show "list_all ok16 ps" using b(3) by (simp add: list_all_iff)
  qed
  ultimately show ?thesis using buf(2) b(2) w by blast
qed

end
