(* ===== verification/Noise.thy ===== *)
theory Noise
  imports Framing
begin

text \<open>
  The encrypted channel (\<open>src/noise/noise.go\<close>): messages with 16-bit lengths, the handshake in
  which client and server exchange one message each, the socket that splits what is written into
  messages of at most 4096 bytes and joins what is received, and the text form of keys.  The
  package \<open>flynn/noise\<close> and the X25519 function are the parameter \<open>noise_lib\<close>; what the
  properties rely on of it are the predicates \<open>in_step\<close>, \<open>handshake\<close> and \<open>genuine\<close>.
\<close>

section \<open>The stream under the socket\<close>

text \<open>
  What has been written to the \<open>io.ReadWriteCloser\<close>, and how many more bytes it takes before a
  write fails (\<open>None\<close>: writes never fail).  A failed write may have written a part.
\<close>

record wire =
  w_out :: bytes
  w_room :: "nat option"

definition w_Write :: "bytes \<Rightarrow> wire \<Rightarrow> err option \<times> wire" where
  "w_Write p w =
     (case w_room w of
        None \<Rightarrow> (None, w\<lparr>w_out := w_out w @ p\<rparr>)
      | Some n \<Rightarrow>
          if length p \<le> n then (None, w\<lparr>w_out := w_out w @ p, w_room := Some (n - length p)\<rparr>)
          else (Some Errorf, w\<lparr>w_out := w_out w @ take n p, w_room := Some 0\<rparr>))"

definition noise_readMessage :: "bytes \<Rightarrow> err + bytes \<times> bytes" where
  "noise_readMessage r = bindE (read_u16 r) (\<lambda>(n, r'). unexpectedE (ReadFull (unat n) r'))"

definition writeMessage :: "bytes \<Rightarrow> wire \<Rightarrow> err option \<times> wire" where
  "writeMessage msg w =
     (let len = (of_nat (length msg) :: u16) in
      if unat len \<noteq> length msg then (Some Panic, w)
      else (case w_Write (be16 len) w of
              (Some e, w') \<Rightarrow> (Some e, w')
            | (None, w') \<Rightarrow> w_Write msg w'))"

lemma noise_readMessage_shrinks: "noise_readMessage r = Inr (msg, r') \<Longrightarrow> length r' < length r"
  by (auto simp: noise_readMessage_def result_simps ReadFull_eq_Inr dest!: read_u16_shrinks)

text \<open>The messages of a stream and the error that ends it.\<close>

function noise_messages :: "bytes \<Rightarrow> bytes list \<times> err" where
  "noise_messages r =
     (case noise_readMessage r of
        Inl e \<Rightarrow> ([], e)
      | Inr (msg, r') \<Rightarrow> (case noise_messages r' of (ms, e) \<Rightarrow> (msg # ms, e)))"
  by pat_completeness auto
termination
  by (relation "measure length") (auto dest: noise_readMessage_shrinks)

declare noise_messages.simps [simp del]

interpretation noise_format: framing noise_readMessage frame16 ok16 noise_messages EOF
proof
  fix p rest assume "ok16 p"
  then show "noise_readMessage (frame16 p @ rest) = Inr (p, rest)"
    by (simp add: noise_readMessage_def frame16_def ok16_def)
next
  show "noise_readMessage [] = Inl EOF" by (simp add: noise_readMessage_def)
next
  fix p k assume "ok16 p" "k < length (frame16 p)" "0 < k"
  then show "\<exists>e. noise_readMessage (take k (frame16 p)) = Inl e \<and> e \<noteq> EOF"
    by (auto simp: noise_readMessage_def read_u16_cut ok16_def ReadFull_def unexpected_def)
next
  fix s e assume "noise_readMessage s = Inl e"
  then show "noise_messages s = ([], e)" by (subst noise_messages.simps) simp
next
  fix s p rest assume "noise_readMessage s = Inr (p, rest)"
  then show "noise_messages s = (case noise_messages rest of (ps, e) \<Rightarrow> (p # ps, e))"
    by (subst noise_messages.simps) simp
qed

section \<open>The Noise library\<close>

text \<open>
  The fields of \<open>noise.Config\<close> that differ between configurations; the cipher suite and the
  pattern (NK) are always the same and are part of what \<open>nl_NewHandshakeState\<close> stands for.
\<close>

record noise_config =
  cfg_Prologue :: bytes
  cfg_Initiator :: bool
  cfg_PeerStatic :: bytes
  cfg_StaticKeypair :: "bytes \<times> bytes"

text \<open>
  A handshake state \<open>'h\<close> writes and reads messages; both may also give the two cipher states
  \<open>'k\<close> (nil pointers before the handshake is complete), first the one for messages of the
  initiator.  Encryption and decryption advance a cipher state.
\<close>

record ('h, 'k) noise_lib =
  nl_NewHandshakeState :: "noise_config \<Rightarrow> err + 'h"
  nl_WriteMessage :: "'h \<Rightarrow> err + bytes \<times> 'k \<times> 'k \<times> 'h"
  nl_ReadMessage :: "'h \<Rightarrow> bytes \<Rightarrow> err + bytes \<times> 'k \<times> 'k \<times> 'h"
  nl_Encrypt :: "'k \<Rightarrow> bytes \<Rightarrow> err + bytes \<times> 'k"
  nl_Decrypt :: "'k \<Rightarrow> bytes \<Rightarrow> err + bytes \<times> 'k"
  nl_X25519 :: "bytes \<Rightarrow> err + bytes"

text \<open>"dnstt 2020-04-13"\<close>

definition newConfig :: noise_config where
  "newConfig =
     \<lparr>cfg_Prologue = [100, 110, 115, 116, 116, 32, 50, 48, 50, 48, 45, 48, 52, 45, 49, 51],
      cfg_Initiator = False, cfg_PeerStatic = [], cfg_StaticKeypair = ([], [])\<rparr>"

section \<open>The socket\<close>

record 'k socket =
  so_recv :: 'k
  so_send :: 'k

text \<open>
  \<open>Write\<close>: the number of bytes written, the error, and the states afterwards.  An error of the
  cipher or of the stream ends the loop with the bytes of the messages before it.
\<close>

function noise_Write ::
  "('h, 'k) noise_lib \<Rightarrow> bytes \<Rightarrow> nat \<Rightarrow> 'k \<Rightarrow> wire \<Rightarrow> nat \<times> err option \<times> 'k \<times> wire" where
  "noise_Write lib p written k w =
     (if length p > 0 then
        (let n = (if length p > 4096 then 4096 else length p) in
         case nl_Encrypt lib k (take n p) of
           Inl e \<Rightarrow> (written, Some e, k, w)
         | Inr (msg, k') \<Rightarrow>
             (case writeMessage msg w of
                (Some e, w') \<Rightarrow> (written, Some e, k', w')
              | (None, w') \<Rightarrow> noise_Write lib (drop n p) (written + n) k' w'))
      else (written, None, k, w))"
  by pat_completeness auto
termination
  by (relation "measure (\<lambda>(_, p, _). length p)") auto

declare noise_Write.simps [simp del]

text \<open>
  The goroutine of \<open>newSocket\<close>: the pieces it writes into the pipe, in order, and the error with
  which it closes the pipe.
\<close>

function noise_recv :: "('h, 'k) noise_lib \<Rightarrow> 'k \<Rightarrow> bytes \<Rightarrow> bytes list \<times> err" where
  "noise_recv lib k r =
     (case noise_readMessage r of
        Inl e \<Rightarrow> ([], e)
      | Inr (msg, r') \<Rightarrow>
          (case nl_Decrypt lib k msg of
             Inl e \<Rightarrow> ([], e)
           | Inr (p, k') \<Rightarrow> (case noise_recv lib k' r' of (ps, e) \<Rightarrow> (p # ps, e))))"
  by pat_completeness auto
termination
  by (relation "measure (\<lambda>(_, _, r). length r)") (auto dest: noise_readMessage_shrinks)

declare noise_recv.simps [simp del]

text \<open>
  \<open>Read\<close> of the pipe: at most \<open>n\<close> bytes of the current piece, and the closing error once all
  pieces are read.
\<close>

definition noise_Read :: "nat \<Rightarrow> bytes list \<times> err \<Rightarrow> (err + bytes) \<times> bytes list \<times> err" where
  "noise_Read n pipe =
     (case pipe of
        ([], e) \<Rightarrow> (Inl e, [], e)
      | (p # ps, e) \<Rightarrow> (Inr (take n p), if length p \<le> n then ps else drop n p # ps, e))"

section \<open>The handshake\<close>

definition PubkeyFromPrivkey :: "('h, 'k) noise_lib \<Rightarrow> bytes \<Rightarrow> err + bytes" where
  "PubkeyFromPrivkey lib privkey =
     (case nl_X25519 lib privkey of Inl _ \<Rightarrow> Inl Panic | Inr pubkey \<Rightarrow> Inr pubkey)"

text \<open>
  Both functions get the bytes that will arrive and return the socket with the bytes that are left,
  and what has been written.
\<close>

definition NewClient ::
  "('h, 'k) noise_lib \<Rightarrow> bytes \<Rightarrow> bytes \<Rightarrow> wire \<Rightarrow> (err + 'k socket \<times> bytes) \<times> wire" where
  "NewClient lib serverPubkey incoming w =
     (case nl_NewHandshakeState lib (newConfig\<lparr>cfg_Initiator := True, cfg_PeerStatic := serverPubkey\<rparr>) of
        Inl e \<Rightarrow> (Inl e, w)
      | Inr h \<Rightarrow>
          (case nl_WriteMessage lib h of
             Inl e \<Rightarrow> (Inl e, w)
           | Inr (msg, _, _, h1) \<Rightarrow>
               (case writeMessage msg w of
                  (Some e, w1) \<Rightarrow> (Inl e, w1)
                | (None, w1) \<Rightarrow>
                    (case noise_readMessage incoming of
                       Inl e \<Rightarrow> (Inl e, w1)
                     | Inr (msg2, rest) \<Rightarrow>
                         (case nl_ReadMessage lib h1 msg2 of
                            Inl e \<Rightarrow> (Inl e, w1)
                          | Inr (payload, sendCipher, recvCipher, _) \<Rightarrow>
                              if length payload \<noteq> 0 then (Inl Errorf, w1)
                              else (Inr (\<lparr>so_recv = recvCipher, so_send = sendCipher\<rparr>, rest), w1))))))"

definition NewServer ::
  "('h, 'k) noise_lib \<Rightarrow> bytes \<Rightarrow> bytes \<Rightarrow> wire \<Rightarrow> (err + 'k socket \<times> bytes) \<times> wire" where
  "NewServer lib serverPrivkey incoming w =
     (case PubkeyFromPrivkey lib serverPrivkey of
        Inl e \<Rightarrow> (Inl e, w)
      | Inr pubkey \<Rightarrow>
          (case nl_NewHandshakeState lib
                  (newConfig\<lparr>cfg_Initiator := False, cfg_StaticKeypair := (serverPrivkey, pubkey)\<rparr>) of
             Inl e \<Rightarrow> (Inl e, w)
           | Inr h \<Rightarrow>
               (case noise_readMessage incoming of
                  Inl e \<Rightarrow> (Inl e, w)
                | Inr (msg, rest) \<Rightarrow>
                    (case nl_ReadMessage lib h msg of
                       Inl e \<Rightarrow> (Inl e, w)
                     | Inr (payload, _, _, h1) \<Rightarrow>
                         if length payload \<noteq> 0 then (Inl Errorf, w)
                         else (case nl_WriteMessage lib h1 of
                                 Inl e \<Rightarrow> (Inl e, w)
                               | Inr (msg2, recvCipher, sendCipher, _) \<Rightarrow>
                                   (case writeMessage msg2 w of
                                      (Some e, w1) \<Rightarrow> (Inl e, w1)
                                    | (None, w1) \<Rightarrow>
                                        (Inr (\<lparr>so_recv = recvCipher, so_send = sendCipher\<rparr>, rest), w1)))))))"

section \<open>Keys\<close>

definition KeyLen :: nat where
  "KeyLen = 32"

definition DecodeKey :: "bytes \<Rightarrow> err + bytes" where
  "DecodeKey s =
     bindE (hex_decode s) (\<lambda>key. if length key \<noteq> KeyLen then Inl Errorf else Inr key)"

definition EncodeKey :: "bytes \<Rightarrow> bytes" where
  "EncodeKey key = hex_encode key"

text \<open>
  The reader of \<open>ReadKey\<close> is a file of which at most 100 bytes are read; \<open>ReadString\<close> returns the
  bytes up to and with the first newline, or all if there is none.
\<close>

definition ReadString :: "byte \<Rightarrow> bytes \<Rightarrow> bytes \<times> bytes" where
  "ReadString c s =
     (takeWhile (\<lambda>b. b \<noteq> c) s @ take 1 (dropWhile (\<lambda>b. b \<noteq> c) s), drop 1 (dropWhile (\<lambda>b. b \<noteq> c) s))"

definition ReadKey :: "bytes \<Rightarrow> err + bytes" where
  "ReadKey s =
     (let (line, rest) = ReadString 10 (take 100 s) in
      if rest \<noteq> [] then Inl Errorf
      else DecodeKey (trimSuffixByte 10 line))"

definition WriteKey :: "bytes \<Rightarrow> wire \<Rightarrow> err option \<times> wire" where
  "WriteKey key w = w_Write (hex_encode key @ [10]) w"

section \<open>What is relied on of the Noise library\<close>

text \<open>
  A sending and a receiving cipher state are in step when every piece that the socket encrypts
  (unless encryption fails, as it does when the nonces are used up) makes a message that the other
  side decrypts to the piece, after which the states are in step again.
\<close>

coinductive in_step :: "('h, 'k) noise_lib \<Rightarrow> 'k \<Rightarrow> 'k \<Rightarrow> bool" for lib where
  "(\<And>p c s'. length p \<le> 4096 \<Longrightarrow> nl_Encrypt lib s p = Inr (c, s') \<Longrightarrow>
      length c < 65536 \<and> (\<exists>r'. nl_Decrypt lib r c = Inr (p, r') \<and> in_step lib s' r')) \<Longrightarrow>
   in_step lib s r"

text \<open>
  The NK handshake: with matching keys the two states exchange messages without payload and end
  with cipher states that are in step in both directions.
\<close>

definition handshake ::
  "('h, 'k) noise_lib \<Rightarrow> bytes \<Rightarrow> bytes \<Rightarrow> bytes \<Rightarrow> bytes \<Rightarrow> bool" where
  "handshake lib priv pub m1 m2 \<longleftrightarrow>
     length m1 < 65536 \<and> length m2 < 65536 \<and> nl_X25519 lib priv = Inr pub \<and>
     (\<exists>c0 s0 c1 s1 s2 c2 cs1 cs2 ss1 ss2 x y x' y'.
        nl_NewHandshakeState lib (newConfig\<lparr>cfg_Initiator := True, cfg_PeerStatic := pub\<rparr>) = Inr c0 \<and>
        nl_NewHandshakeState lib (newConfig\<lparr>cfg_Initiator := False, cfg_StaticKeypair := (priv, pub)\<rparr>)
          = Inr s0 \<and>
        nl_WriteMessage lib c0 = Inr (m1, x, y, c1) \<and> nl_ReadMessage lib s0 m1 = Inr ([], x', y', s1) \<and>
        nl_WriteMessage lib s1 = Inr (m2, ss1, ss2, s2) \<and> nl_ReadMessage lib c1 m2 = Inr ([], cs1, cs2, c2) \<and>
        in_step lib cs1 ss1 \<and> in_step lib ss2 cs2)"

text \<open>
  Authenticated encryption, for one session: with the messages and plaintexts that the sender makes,
  the receiver's state accepts each message in its turn and nothing else.
\<close>

primrec genuine :: "('h, 'k) noise_lib \<Rightarrow> (bytes \<times> bytes) list \<Rightarrow> 'k \<Rightarrow> bool" where
  "genuine lib [] r \<longleftrightarrow> (\<forall>c. \<exists>e. nl_Decrypt lib r c = Inl e)"
| "genuine lib (m # ms) r \<longleftrightarrow>
     (\<exists>r'. nl_Decrypt lib r (fst m) = Inr (snd m, r') \<and> genuine lib ms r') \<and>
     (\<forall>c. c \<noteq> fst m \<longrightarrow> (\<exists>e. nl_Decrypt lib r c = Inl e))"

section \<open>Lemmas\<close>

lemma in_stepD:
  assumes "in_step lib s r" and "length p \<le> 4096" and "nl_Encrypt lib s p = Inr (c, s')"
  obtains r' where "length c < 65536" and "nl_Decrypt lib r c = Inr (p, r')" and "in_step lib s' r'"
  using assms(1)
proof cases
  case 1
  from 1 [OF assms(2,3)] that show thesis by blast
qed

lemma w_Write_ok: "w_Write p w = (None, w') \<Longrightarrow> w_out w' = w_out w @ p"
  by (auto simp: w_Write_def split: option.splits if_splits)

lemma w_Write_partial:
  "w_Write p w = (Some e, w') \<Longrightarrow> \<exists>k < length p. w_out w' = w_out w @ take k p"
  by (auto simp: w_Write_def not_le split: option.splits if_splits)

lemma writeMessage_ok:
  "writeMessage msg w = (None, w') \<Longrightarrow> w_out w' = w_out w @ frame16 msg \<and> ok16 msg"
  by (auto simp: writeMessage_def Let_def frame16_def ok16_def unat_of_nat take_bit_eq_mod
      dest!: w_Write_ok split: option.splits prod.splits if_splits)

lemma writeMessage_partial:
  assumes "writeMessage msg w = (Some e, w')" and "ok16 msg"
  shows "\<exists>k < length (frame16 msg). w_out w' = w_out w @ take k (frame16 msg)"
proof (cases "w_Write (be16 (of_nat (length msg))) w")
  case (Pair r w1)
  show ?thesis
  proof (cases r)
    case None
    with assms Pair have "w_Write msg w1 = (Some e, w')"
      by (auto simp: writeMessage_def Let_def ok16_def split: if_splits)
    from w_Write_partial [OF this] obtain k where "k < length msg" "w_out w' = w_out w1 @ take k msg"
      by blast
    moreover have "w_out w1 = w_out w @ be16 (of_nat (length msg))"
      using w_Write_ok Pair None by blast
    ultimately show ?thesis by (intro exI [of _ "k + 2"]) (simp add: frame16_def)
  next
    case (Some e')
    with assms Pair have "w_Write (be16 (of_nat (length msg))) w = (Some e, w')"
      by (auto simp: writeMessage_def Let_def ok16_def split: if_splits)
    from w_Write_partial [OF this] obtain k where
      "k < 2" "w_out w' = w_out w @ take k (be16 (of_nat (length msg)))" by auto
    then show ?thesis by (intro exI [of _ k]) (simp add: frame16_def)
  qed
qed

lemma writeMessage_unlimited:
  "w_room w = None \<Longrightarrow> ok16 msg \<Longrightarrow> writeMessage msg w = (None, w\<lparr>w_out := w_out w @ frame16 msg\<rparr>)"
  by (simp add: writeMessage_def Let_def ok16_def w_Write_def frame16_def)

lemma noise_recv_frame:
  assumes "ok16 c" and "nl_Decrypt lib r c = Inr (p, r')"
  shows "noise_recv lib r (frame16 c @ s) = (case noise_recv lib r' s of (ps, e) \<Rightarrow> (p # ps, e))"
  by (subst noise_recv.simps) (simp add: noise_format.next_frame [OF assms(1)] assms(2))

lemma noise_recv_cut:
  assumes "ok16 c" and "k < length (frame16 c)"
  shows "fst (noise_recv lib r (take k (frame16 c))) = []"
proof -
  have "\<exists>e. noise_readMessage (take k (frame16 c)) = Inl e"
    using noise_format.next_cut [OF assms] noise_format.next_Nil by (cases "k = 0") auto
  then show ?thesis by (subst noise_recv.simps) auto
qed

text \<open>
  What a write puts on the stream, whether it succeeds or not: messages that the receiver turns
  into exactly the bytes that \<open>Write\<close> reports as written.
\<close>

lemma noise_Write_sends:
  assumes "in_step lib s r" and "noise_Write lib p done s w = (n, e, s', w')"
  shows "\<exists>sent chunks. w_out w' = w_out w @ sent \<and> done \<le> n \<and> n - done \<le> length p \<and>
     concat chunks = take (n - done) p \<and> (e = None \<longleftrightarrow> n - done = length p) \<and>
     (if e = None
      then \<exists>r'. in_step lib s' r' \<and>
             (\<forall>more. noise_recv lib r (sent @ more) = (case noise_recv lib r' more of (ps, e) \<Rightarrow> (chunks @ ps, e)))
      else fst (noise_recv lib r sent) = chunks)"
  using assms
proof (induction lib p "done" s w arbitrary: r n e s' w' rule: noise_Write.induct)
  case (1 lib p written s w)
  show ?case
  proof (cases "p = []")
    case True
    with 1(3) have "n = written" "e = None" "s' = s" "w' = w"
      by (simp_all add: noise_Write.simps [of lib "[]"])
    then show ?thesis using True 1(2)
      by (intro exI [of _ "[]"]) (auto intro!: exI [of _ r])
  next
    case False
    define m where "m = (if length p > 4096 then 4096 else length p)"
    have m: "0 < m" "m \<le> 4096" "m \<le> length p" using False by (auto simp: m_def)
    have step: "noise_Write lib p written s w =
        (case nl_Encrypt lib s (take m p) of
           Inl e \<Rightarrow> (written, Some e, s, w)
         | Inr (msg, k') \<Rightarrow>
             (case writeMessage msg w of
                (Some e, w') \<Rightarrow> (written, Some e, k', w')
              | (None, w') \<Rightarrow> noise_Write lib (drop m p) (written + m) k' w'))"
      by (subst noise_Write.simps) (simp only: m_def Let_def length_greater_0_conv False not_False_eq_True if_True)
    show ?thesis
    proof (cases "nl_Encrypt lib s (take m p)")
      case (Inl e')
      with step 1(3) have "n = written" "e = Some e'" "w' = w" by simp_all
      then show ?thesis using False
        by (intro exI [of _ "[]"]) (auto simp: noise_recv.simps [of lib r "[]"] noise_format.next_Nil)
    next
      case (Inr x)
      obtain msg k' where x: "x = (msg, k')" by (cases x)
      with Inr have enc: "nl_Encrypt lib s (take m p) = Inr (msg, k')" by simp
      from 1(2) _ enc obtain r' where
        len: "length msg < 65536" and dec: "nl_Decrypt lib r msg = Inr (take m p, r')" and
        step': "in_step lib k' r'"
        by (rule in_stepD) (use m in simp)
      then have ok: "ok16 msg" by (simp add: ok16_def)
      obtain res w1 where wm: "writeMessage msg w = (res, w1)" by (cases "writeMessage msg w")
      show ?thesis
      proof (cases res)
        case (Some e')
        with step enc wm 1(3) have eq: "n = written" "e = Some e'" "w' = w1" by simp_all
        from writeMessage_partial [OF _ ok] wm Some obtain k where
          "k < length (frame16 msg)" "w_out w1 = w_out w @ take k (frame16 msg)" by metis
        then show ?thesis using noise_recv_cut [OF ok] eq False
          by (intro exI [of _ "take k (frame16 msg)"] exI [of _ "[]"]) auto
      next
        case None
        with step enc wm 1(3) have rec: "noise_Write lib (drop m p) (written + m) k' w1 = (n, e, s', w')"
          by simp
        have "0 < length p" using False by simp
        from 1(1) [OF this m_def enc refl wm [unfolded None, symmetric] refl step' rec]
        obtain sent chunks where IH: "w_out w' = w_out w1 @ sent" "written + m \<le> n"
          "n - (written + m) \<le> length (drop m p)" "concat chunks = take (n - (written + m)) (drop m p)"
          "e = None \<longleftrightarrow> n - (written + m) = length (drop m p)"
          "if e = None then \<exists>r''. in_step lib s' r'' \<and>
             (\<forall>more. noise_recv lib r' (sent @ more) = (case noise_recv lib r'' more of (ps, e) \<Rightarrow> (chunks @ ps, e)))
           else fst (noise_recv lib r' sent) = chunks" by auto
        have out: "w_out w' = w_out w @ frame16 msg @ sent"
          using IH(1) writeMessage_ok [of msg w w1] wm None by simp
        have cat: "concat (take m p # chunks) = take (n - written) p"
        proof -
          have "n - written = m + (n - (written + m))" using IH(2) by simp
          then show ?thesis using IH(4) m(3) by (simp add: take_add)
        qed
        have fr: "noise_recv lib r (frame16 msg @ t) = (case noise_recv lib r' t of (ps, e) \<Rightarrow> (take m p # ps, e))" for t
          by (rule noise_recv_frame [OF ok dec])
        show ?thesis using IH(2,3,5,6) m cat out
          by (intro exI [of _ "frame16 msg @ sent"] exI [of _ "take m p # chunks"])
            (auto simp: fr case_prod_beta split: if_splits)
      qed
    qed
  qed
qed

lemma noise_readMessage_frame: "noise_readMessage s = Inr (msg, rest) \<Longrightarrow> s = frame16 msg @ rest \<and> ok16 msg"
proof -
  assume "noise_readMessage s = Inr (msg, rest)"
  then obtain p r' where p: "s = p @ r'" "length p = 2" and
    m: "r' = msg @ rest" "length msg = unat (of_be16 (p ! 0) (p ! 1))"
    by (auto simp: noise_readMessage_def read_u16_def result_simps ReadFull_eq_Inr split: prod.splits)
  then obtain a b where "p = [a, b]" by (auto simp: length_Suc_conv numeral_2_eq_2)
  with p m show ?thesis
    using unsigned_less [of "of_be16 a b"] by (simp add: frame16_def ok16_def byte_simps)
qed

text \<open>Successive writes until the first error, and the bytes they report as written in all.\<close>

fun noise_writes ::
  "('h, 'k) noise_lib \<Rightarrow> bytes list \<Rightarrow> 'k \<Rightarrow> wire \<Rightarrow> nat \<times> err option \<times> 'k \<times> wire" where
  "noise_writes lib [] s w = (0, None, s, w)"
| "noise_writes lib (p # ps) s w =
     (case noise_Write lib p 0 s w of
        (n, Some e, s', w') \<Rightarrow> (n, Some e, s', w')
      | (n, None, s', w') \<Rightarrow> (case noise_writes lib ps s' w' of (n', r) \<Rightarrow> (n + n', r)))"

lemma noise_writes_send:
  assumes "in_step lib s r" and "noise_writes lib ps s w = (n, e, s', w')"
  shows "\<exists>sent. w_out w' = w_out w @ sent \<and> n \<le> length (concat ps) \<and>
     concat (fst (noise_recv lib r sent)) = take n (concat ps) \<and> (e = None \<longleftrightarrow> n = length (concat ps))"
  using assms
proof (induction ps arbitrary: s r w n e s' w')
  case Nil
  then show ?case by (simp add: noise_recv.simps [of lib r "[]"] noise_format.next_Nil)
next
  case (Cons p ps)
  obtain n1 e1 s1 w1 where one: "noise_Write lib p 0 s w = (n1, e1, s1, w1)"
    by (cases "noise_Write lib p 0 s w") auto
  from noise_Write_sends [OF Cons.prems(1) one] obtain sent chunks where
    S: "w_out w1 = w_out w @ sent" "n1 \<le> length p" "concat chunks = take n1 p" "e1 = None \<longleftrightarrow> n1 = length p"
    "if e1 = None then \<exists>r'. in_step lib s1 r' \<and>
       (\<forall>more. noise_recv lib r (sent @ more) = (case noise_recv lib r' more of (ps, e) \<Rightarrow> (chunks @ ps, e)))
     else fst (noise_recv lib r sent) = chunks"
    by auto
  show ?case
  proof (cases e1)
    case None
    then obtain r' where r': "in_step lib s1 r'"
      "\<And>more. noise_recv lib r (sent @ more) = (case noise_recv lib r' more of (ps, e) \<Rightarrow> (chunks @ ps, e))"
      using S(5) by auto
    obtain n2 where rest: "noise_writes lib ps s1 w1 = (n2, e, s', w')" "n = n1 + n2"
      using Cons.prems(2) one None by (auto split: prod.splits)
    from Cons.IH [OF r'(1) rest(1)] obtain sent2 where "w_out w' = w_out w1 @ sent2"
      "n2 \<le> length (concat ps)" "concat (fst (noise_recv lib r' sent2)) = take n2 (concat ps)"
      "e = None \<longleftrightarrow> n2 = length (concat ps)" by blast
    then show ?thesis using S None rest(2)
      by (intro exI [of _ "sent @ sent2"]) (auto simp: r'(2) case_prod_beta)
  next
    case (Some e')
    with Cons.prems(2) one have "n = n1" "e = Some e'" "w' = w1" by auto
    then show ?thesis using S Some by (intro exI [of _ sent]) auto
  qed
qed

lemma hex_decode_no_newline: "hex_decode t = Inr k \<Longrightarrow> 10 \<notin> set t"
  by (induction t arbitrary: k rule: hex_decode.induct)
    (auto simp: result_simps unhexdigit_def split: option.splits if_splits)

lemma ReadString_line:
  "10 \<notin> set t \<Longrightarrow> ReadString 10 t = (t, [])"
  "10 \<notin> set t \<Longrightarrow> ReadString 10 (t @ 10 # r) = (t @ [10], r)"
  by (induction t) (auto simp: ReadString_def)

lemma trim_line:
  "10 \<notin> set t \<Longrightarrow> trimSuffixByte 10 (t @ [10]) = t"
  "10 \<notin> set t \<Longrightarrow> trimSuffixByte 10 t = t"
  by (auto simp: trimSuffixByte_def) (metis last_in_set)

lemma noise_recv_rejects:
  assumes "\<And>msg rest. noise_readMessage s = Inr (msg, rest) \<Longrightarrow> \<exists>e. nl_Decrypt lib r msg = Inl e"
  shows "fst (noise_recv lib r s) = []"
proof (cases "noise_readMessage s")
  case (Inl e)
  then show ?thesis by (subst noise_recv.simps) simp
next
  case (Inr x)
  with assms obtain e where "nl_Decrypt lib r (fst x) = Inl e" by (cases x) auto
  with Inr show ?thesis by (subst noise_recv.simps) (simp add: case_prod_beta)
qed

text \<open>With matching keys both sides complete the handshake and end in step.\<close>

lemma handshake_sockets:
  assumes "handshake lib priv pub m1 m2"
  shows "\<exists>cl sv.
     NewClient lib pub (frame16 m2 @ x) \<lparr>w_out = [], w_room = None\<rparr> =
       (Inr (cl, x), \<lparr>w_out = frame16 m1, w_room = None\<rparr>) \<and>
     NewServer lib priv (frame16 m1 @ y) \<lparr>w_out = [], w_room = None\<rparr> =
       (Inr (sv, y), \<lparr>w_out = frame16 m2, w_room = None\<rparr>) \<and>
     in_step lib (so_send cl) (so_recv sv) \<and> in_step lib (so_send sv) (so_recv cl)"
proof -
  from assms obtain c0 s0 c1 s1 s2 c2 cs1 cs2 ss1 ss2 x1 y1 x2 y2 where
    H: "ok16 m1" "ok16 m2" "nl_X25519 lib priv = Inr pub"
    "nl_NewHandshakeState lib (newConfig\<lparr>cfg_Initiator := True, cfg_PeerStatic := pub\<rparr>) = Inr c0"
    "nl_NewHandshakeState lib (newConfig\<lparr>cfg_Initiator := False, cfg_StaticKeypair := (priv, pub)\<rparr>) = Inr s0"
    "nl_WriteMessage lib c0 = Inr (m1, x1, y1, c1)" "nl_ReadMessage lib s0 m1 = Inr ([], x2, y2, s1)"
    "nl_WriteMessage lib s1 = Inr (m2, ss1, ss2, s2)" "nl_ReadMessage lib c1 m2 = Inr ([], cs1, cs2, c2)"
    and S: "in_step lib cs1 ss1" "in_step lib ss2 cs2"
    unfolding handshake_def ok16_def by blast
  have "NewClient lib pub (frame16 m2 @ x) \<lparr>w_out = [], w_room = None\<rparr> =
      (Inr (\<lparr>so_recv = cs2, so_send = cs1\<rparr>, x), \<lparr>w_out = frame16 m1, w_room = None\<rparr>)"
    using H by (simp add: NewClient_def writeMessage_unlimited noise_format.next_frame)
  moreover have "NewServer lib priv (frame16 m1 @ y) \<lparr>w_out = [], w_room = None\<rparr> =
      (Inr (\<lparr>so_recv = ss1, so_send = ss2\<rparr>, y), \<lparr>w_out = frame16 m2, w_room = None\<rparr>)"
    using H by (simp add: NewServer_def PubkeyFromPrivkey_def writeMessage_unlimited noise_format.next_frame)
  ultimately show ?thesis using S
    by (intro exI [of _ "\<lparr>so_recv = cs2, so_send = cs1\<rparr>"] exI [of _ "\<lparr>so_recv = ss1, so_send = ss2\<rparr>"]) simp
qed

section \<open>Properties\<close>

text \<open>
  C15: The handshake and the channel.  A client with the server's public key and a server with the
  matching private key complete the handshake from each other's message, leaving what follows it in
  the stream unread.  Then whatever one of them writes, in any pieces and over a stream that may
  fail at any point, the other receives exactly the bytes that the writes report as written, in
  order, and the writes report an error exactly when that is not everything.
\<close>

theorem noise_channel:
  assumes "handshake lib priv pub m1 m2"
  shows "\<exists>cl sv.
     NewClient lib pub (frame16 m2 @ x) \<lparr>w_out = [], w_room = None\<rparr> =
       (Inr (cl, x), \<lparr>w_out = frame16 m1, w_room = None\<rparr>) \<and>
     NewServer lib priv (frame16 m1 @ y) \<lparr>w_out = [], w_room = None\<rparr> =
       (Inr (sv, y), \<lparr>w_out = frame16 m2, w_room = None\<rparr>) \<and>
     (\<forall>(a, b) \<in> {(cl, sv), (sv, cl)}. \<forall>ps room n e s w.
        noise_writes lib ps (so_send a) \<lparr>w_out = [], w_room = room\<rparr> = (n, e, s, w) \<longrightarrow>
        concat (fst (noise_recv lib (so_recv b) (w_out w))) = take n (concat ps) \<and>
        (e = None \<longleftrightarrow> n = length (concat ps)))"
proof -
  obtain cl sv where H: "NewClient lib pub (frame16 m2 @ x) \<lparr>w_out = [], w_room = None\<rparr> =
       (Inr (cl, x), \<lparr>w_out = frame16 m1, w_room = None\<rparr>)"
     "NewServer lib priv (frame16 m1 @ y) \<lparr>w_out = [], w_room = None\<rparr> =
       (Inr (sv, y), \<lparr>w_out = frame16 m2, w_room = None\<rparr>)"
    and S: "in_step lib (so_send cl) (so_recv sv)" "in_step lib (so_send sv) (so_recv cl)"
    using handshake_sockets [OF assms] by blast
  have "concat (fst (noise_recv lib r (w_out w))) = take n (concat ps) \<and>
      (e = None \<longleftrightarrow> n = length (concat ps))"
    if "in_step lib k r" "noise_writes lib ps k \<lparr>w_out = [], w_room = room\<rparr> = (n, e, s, w)"
    for k r ps room n e s w
    using noise_writes_send [OF that] by auto
  with H S show ?thesis by (intro exI [of _ cl] exI [of _ sv]) auto
qed


text \<open>
  \<open>ReadKey\<close> accepts exactly the files that consist of one line, with or without a newline
  at its end, of 32 bytes in hexadecimal, and returns those bytes.
\<close>

theorem ReadKey_exact:
  "ReadKey s = Inr key \<longleftrightarrow>
     length key = KeyLen \<and> (\<exists>t. (s = t \<or> s = t @ [10]) \<and> hex_decode t = Inr key)"
proof
  assume R: "ReadKey s = Inr key"
  define u where "u = take 100 s"
  define t where "t = takeWhile (\<lambda>b. b \<noteq> 10) u"
  have nl: "10 \<notin> set t" by (auto simp: t_def dest: set_takeWhileD)
  have u: "u = t \<or> (\<exists>r. u = t @ 10 # r)"
  proof (cases "dropWhile (\<lambda>b. b \<noteq> 10) u")
    case Nil
    then show ?thesis using takeWhile_dropWhile_id [of "\<lambda>b. b \<noteq> 10" u] unfolding t_def by (metis append_Nil2)
  next
    case (Cons c r)
    then have "c = 10" using hd_dropWhile [of "\<lambda>b. b \<noteq> 10" u] by auto
    with Cons show ?thesis using takeWhile_dropWhile_id [of "\<lambda>b. b \<noteq> 10" u] by (metis t_def)
  qed
  have trim: "trimSuffixByte 10 (t @ [10]) = t" "trimSuffixByte 10 t = t"
    using nl by (simp_all add: trim_line)
  have ut: "(u = t \<or> u = t @ [10]) \<and> DecodeKey t = Inr key"
    using u R nl trim by (auto simp: ReadKey_def u_def [symmetric] ReadString_line split: if_splits)
  then have key: "hex_decode t = Inr key" "length key = KeyLen"
    by (auto simp: DecodeKey_def result_simps split: if_splits)
  then have "length t = 64" using hex_decode_length [of t key] by (simp add: KeyLen_def)
  then have "length u \<le> 65" using ut by auto
  then have "u = s" by (simp add: u_def)
  with ut key show "length key = KeyLen \<and> (\<exists>t. (s = t \<or> s = t @ [10]) \<and> hex_decode t = Inr key)"
    by auto
next
  assume "length key = KeyLen \<and> (\<exists>t. (s = t \<or> s = t @ [10]) \<and> hex_decode t = Inr key)"
  then obtain t where t: "s = t \<or> s = t @ [10]" "hex_decode t = Inr key" "length key = KeyLen" by blast
  then have "length t = 64" using hex_decode_length [of t key] by (simp add: KeyLen_def)
  then have "take 100 s = s" using t(1) by auto
  moreover have "trimSuffixByte 10 (t @ [10]) = t" "trimSuffixByte 10 t = t"
    using hex_decode_no_newline [OF t(2)] by (simp_all add: trim_line)
  ultimately show "ReadKey s = Inr key"
    using t hex_decode_no_newline [OF t(2)] ReadString_line
    by (auto simp: ReadKey_def DecodeKey_def)
qed

text \<open>
  A key that \<open>WriteKey\<close> has written is read back by \<open>ReadKey\<close>, and one encoded for the
  command line by \<open>EncodeKey\<close> is decoded by \<open>DecodeKey\<close>.
\<close>

theorem key_roundtrip:
  assumes "length key = KeyLen" and "WriteKey key \<lparr>w_out = [], w_room = room\<rparr> = (None, w)"
  shows "ReadKey (w_out w) = Inr key \<and> DecodeKey (EncodeKey key) = Inr key"
  using assms w_Write_ok [of "hex_encode key @ [10]" "\<lparr>w_out = [], w_room = room\<rparr>" w]
  by (auto simp: ReadKey_exact WriteKey_def DecodeKey_def EncodeKey_def)

section \<open>Witnesses\<close>

text \<open>
  A small library for concrete instances: the cipher state counts the messages, a message is its
  number and the plaintext, and the handshake messages are the numbers of the two states.
\<close>

definition counting_lib :: "(nat, nat) noise_lib" where
  "counting_lib =
     \<lparr>nl_NewHandshakeState = (\<lambda>cfg. Inr (if cfg_Initiator cfg then 1 else 2)),
      nl_WriteMessage = (\<lambda>h. Inr ([of_nat h], 100, 200, h + 2)),
      nl_ReadMessage = (\<lambda>h m. if length m = 1 then Inr ([], 100, 200, h + 2) else Inl Errorf),
      nl_Encrypt = (\<lambda>k p. Inr (of_nat k # p, k + 1)),
      nl_Decrypt = (\<lambda>k c. case c of [] \<Rightarrow> Inl Errorf
                          | b # p \<Rightarrow> if b = of_nat k then Inr (p, k + 1) else Inl Errorf),
      nl_X25519 = (\<lambda>k. Inr (rev k))\<rparr>"

lemma counting_in_step: "in_step counting_lib k k"
  by (coinduction arbitrary: k) (auto simp: counting_lib_def)

lemma counting_handshake: "handshake counting_lib [1, 2] [2, 1] [1] [4]"
  unfolding handshake_def
  using counting_in_step [of 100] counting_in_step [of 200]
  by (auto simp: counting_lib_def)

theorem noise_channel_witness:
  "handshake counting_lib [1, 2] [2, 1] [1] [4] \<and>
   fst (NewClient counting_lib [2, 1] (frame16 [4] @ [7]) \<lparr>w_out = [], w_room = None\<rparr>) =
     Inr (\<lparr>so_recv = 200, so_send = 100\<rparr>, [7])"
proof -
  from noise_channel [OF counting_handshake, of "[7]" "[]"] obtain cl where
    "NewClient counting_lib [2, 1] (frame16 [4] @ [7]) \<lparr>w_out = [], w_room = None\<rparr> =
       (Inr (cl, [7]), \<lparr>w_out = frame16 [1], w_room = None\<rparr>)" by blast
  moreover have "fst (NewClient counting_lib [2, 1] (frame16 [4] @ [7]) \<lparr>w_out = [], w_room = None\<rparr>) =
     Inr (\<lparr>so_recv = 200, so_send = 100\<rparr>, [7])"
    by (simp add: NewClient_def counting_lib_def writeMessage_unlimited noise_format.next_frame ok16_def)
  ultimately show ?thesis using counting_handshake by simp
qed

text \<open>A receiver that accepts one message, and a stream whose second message is forged.\<close>

definition one_message_lib :: "(nat, nat) noise_lib" where
  "one_message_lib = counting_lib\<lparr>nl_Decrypt :=
     (\<lambda>k c. if k = 0 \<and> c = [0, 8] then Inr ([8], 1) else Inl Errorf)\<rparr>"


theorem key_roundtrip_witness:
  "ReadKey (hex_encode (replicate 32 0xab) @ [10]) = Inr (replicate 32 0xab) \<and>
   DecodeKey (EncodeKey (replicate 32 0xab)) = Inr (replicate 32 0xab)"
  using key_roundtrip [of "replicate 32 0xab" None "\<lparr>w_out = hex_encode (replicate 32 0xab) @ [10], w_room = None\<rparr>"]
  by (simp add: WriteKey_def w_Write_def KeyLen_def)

end
