(* ===== verification/Tls.thy ===== *)
theory Tls
  imports QueueConn Noise ClientID "HOL-Library.Sublist"
begin

text \<open>
  DNS over TLS (\<open>src/dnstt-client/lib/tls.go\<close>): DNS messages with 16-bit lengths over a TLS
  connection.  A connection is the bytes that arrive on it and the \<open>wire\<close> that is written to; the
  dialing function is a parameter.
\<close>

section \<open>The two loops\<close>

text \<open>
  One message.  The error is the one \<open>recvLoop\<close> would return: \<open>None\<close> at the end of the stream
  between two messages.  Inside a message the end of the stream stays \<open>io.EOF\<close> when it comes
  right after the length.
\<close>

definition tls_next :: "bytes \<Rightarrow> err option + bytes \<times> bytes" where
  "tls_next r =
     (case read_u16 r of
        Inl e \<Rightarrow> Inl (if e = EOF then None else Some e)
      | Inr (n, r1) \<Rightarrow>
          (case ReadFull (unat n) r1 of Inl e \<Rightarrow> Inl (Some e) | Inr (p, r2) \<Rightarrow> Inr (p, r2)))"

lemma tls_next_shrinks: "tls_next r = Inr (p, r') \<Longrightarrow> length r' < length r"
  by (auto simp: tls_next_def ReadFull_eq_Inr dest!: read_u16_shrinks split: sum.splits prod.splits)

function tls_packets :: "bytes \<Rightarrow> bytes list \<times> err option" where
  "tls_packets r =
     (case tls_next r of
        Inl e \<Rightarrow> ([], e)
      | Inr (p, r') \<Rightarrow> (case tls_packets r' of (ps, e) \<Rightarrow> (p # ps, e)))"
  by pat_completeness auto
termination
  by (relation "measure length") (auto dest: tls_next_shrinks)

declare tls_packets.simps [simp del]

definition tls_recvLoop ::
  "bytes \<Rightarrow> net_addr QueuePacketConn \<Rightarrow> err option \<times> net_addr QueuePacketConn" where
  "tls_recvLoop r c =
     (case tls_packets r of (ps, e) \<Rightarrow> (e, fold (\<lambda>p. QueueIncoming p DummyAddr) ps c))"

text \<open>
  \<open>sendLoop\<close> over the packets that the outgoing queue delivers: the error, the packets that it
  has not taken from the queue, and the stream.  The buffered writer is flushed after every packet.
\<close>

fun tls_sendLoop :: "bytes list \<Rightarrow> wire \<Rightarrow> err option \<times> bytes list \<times> wire" where
  "tls_sendLoop [] w = (None, [], w)"
| "tls_sendLoop (p # ps) w =
     (let len = (of_nat (length p) :: u16) in
      if unat len \<noteq> length p then (Some Panic, ps, w)
      else (case w_Write (be16 len @ p) w of
              (Some e, w') \<Rightarrow> (Some e, ps, w')
            | (None, w') \<Rightarrow> tls_sendLoop ps w'))"

text \<open>
  The goroutine of \<open>NewTLSPacketConn\<close>, for a history of dialing results: a connection with the
  bytes that will arrive on it and its room for writing, or an error.  On each connection both loops
  run until they end, and then the next one is dialed; if that fails, the packet connection is
  closed.  The result is what was written to each connection, the packets still in the queue, and
  the packet connection.
\<close>

fun tls_reconnect ::
  "(err + bytes \<times> nat option) list \<Rightarrow> bytes list \<Rightarrow> net_addr QueuePacketConn \<Rightarrow>
     wire list \<times> bytes list \<times> net_addr QueuePacketConn" where
  "tls_reconnect [] ps c = ([], ps, c)"
| "tls_reconnect (Inl e # dials) ps c = ([], ps, snd (Close c))"
| "tls_reconnect (Inr (incoming, room) # dials) ps c =
     (let (_, c1) = tls_recvLoop incoming c;
          (_, left, w) = tls_sendLoop ps \<lparr>w_out = [], w_room = room\<rparr>;
          (ws, left', c2) = tls_reconnect dials left c1
      in (w # ws, left', c2))"

text \<open>An error of the first dial is returned to the caller.\<close>

definition NewTLSPacketConn ::
  "(err + bytes \<times> nat option) list \<Rightarrow> bytes list \<Rightarrow>
     err + wire list \<times> bytes list \<times> net_addr QueuePacketConn" where
  "NewTLSPacketConn dials ps =
     (case dials of
        Inl e # _ \<Rightarrow> Inl e
      | _ \<Rightarrow> Inr (tls_reconnect dials ps (NewQueuePacketConn DummyAddr)))"

section \<open>The framing\<close>

interpretation tls: framing tls_next frame16 ok16 tls_packets None
proof
  fix p rest assume "ok16 p"
  then show "tls_next (frame16 p @ rest) = Inr (p, rest)"
    by (simp add: tls_next_def frame16_def ok16_def)
next
  show "tls_next [] = Inl None" by (simp add: tls_next_def)
next
  fix p k assume "ok16 p" "k < length (frame16 p)" "0 < k"
  then show "\<exists>e. tls_next (take k (frame16 p)) = Inl e \<and> e \<noteq> None"
    by (auto simp: tls_next_def read_u16_cut ok16_def ReadFull_def)
next
  fix s e assume "tls_next s = Inl e"
  then show "tls_packets s = ([], e)" by (subst tls_packets.simps) simp
next
  fix s p rest assume "tls_next s = Inr (p, rest)"
  then show "tls_packets s = (case tls_packets rest of (ps, e) \<Rightarrow> (p # ps, e))"
    by (subst tls_packets.simps) simp
qed

text \<open>
  What \<open>sendLoop\<close> has written when it ends: whole messages, and a part of the message that failed.
\<close>

lemma tls_sendLoop_writes:
  assumes "tls_sendLoop ps w = (e, left, w')" and "list_all ok16 ps"
  shows "(e = None \<and> left = [] \<and> w_out w' = w_out w @ concat (map frame16 ps)) \<or>
     (e \<noteq> None \<and> (\<exists>sent p k. ps = sent @ p # left \<and> k < length (frame16 p) \<and>
        w_out w' = w_out w @ concat (map frame16 sent) @ take k (frame16 p)))"
  using assms
proof (induction ps arbitrary: w)
  case Nil
  then show ?case by simp
next
  case (Cons p ps)
  obtain r w1 where wr: "w_Write (be16 (of_nat (length p)) @ p) w = (r, w1)" by force
  show ?case
  proof (cases r)
    case None
    with Cons.prems wr have "tls_sendLoop ps w1 = (e, left, w')" by (simp add: ok16_def)
    moreover have "w_out w1 = w_out w @ frame16 p"
      using w_Write_ok [of "frame16 p" w w1] wr None by (simp add: frame16_def)
    ultimately have "(e = None \<and> left = [] \<and> w_out w' = (w_out w @ frame16 p) @ concat (map frame16 ps)) \<or>
     (e \<noteq> None \<and> (\<exists>sent q k. ps = sent @ q # left \<and> k < length (frame16 q) \<and>
        w_out w' = (w_out w @ frame16 p) @ concat (map frame16 sent) @ take k (frame16 q)))"
      using Cons.IH [of w1] Cons.prems(2) by simp
    then show ?thesis
    proof (elim disjE conjE exE)
      fix sent q k
      assume "e \<noteq> None" "ps = sent @ q # left" "k < length (frame16 q)"
        "w_out w' = (w_out w @ frame16 p) @ concat (map frame16 sent) @ take k (frame16 q)"
      then show ?thesis
        by (intro disjI2 conjI exI [of _ "p # sent"] exI [of _ q] exI [of _ k]) simp_all
    qed simp
  next
    case (Some e')
    with Cons.prems wr have eq: "e = Some e'" "left = ps" "w' = w1" by (simp_all add: ok16_def)
    from wr Some have "w_Write (frame16 p) w = (Some e', w1)" by (simp add: frame16_def)
    from w_Write_partial [OF this] eq show ?thesis
      by (intro disjI2) (auto intro!: exI [of _ "[]"])
  qed
qed

text \<open>
  One connection: the resolver's end gets exactly the messages whose sending has succeeded, in
  order, and its receiving loop reports an error exactly when the stream broke inside a message.
\<close>

lemma tls_connection:
  assumes "list_all ok16 ps" and "tls_sendLoop ps \<lparr>w_out = [], w_room = room\<rparr> = (e, left, w)"
  shows "\<exists>sent. (if e = None then sent = ps \<and> left = [] else \<exists>lost. ps = sent @ lost # left) \<and>
     (\<exists>r. tls_packets (w_out w) = (sent, r) \<and>
          (r = None \<longleftrightarrow> w_out w = concat (map frame16 sent)))"
  using tls_sendLoop_writes [OF assms(2,1)]
proof (elim disjE conjE exE)
  assume "e = None" "left = []" "w_out w = w_out \<lparr>w_out = [], w_room = room\<rparr> @ concat (map frame16 ps)"
  then show ?thesis
    using tls.drain_frames [OF assms(1)] by auto
next
  fix sent p k
  assume S: "e \<noteq> None" "ps = sent @ p # left" "k < length (frame16 p)"
    "w_out w = w_out \<lparr>w_out = [], w_room = room\<rparr> @ concat (map frame16 sent) @ take k (frame16 p)"
  then have out: "w_out w = concat (map frame16 sent) @ take k (frame16 p)" by simp
  have ok: "list_all ok16 sent" "ok16 p" using assms(1) S(2) by auto
  have "\<exists>r. tls_packets (take k (frame16 p)) = ([], r) \<and> (r = None \<longleftrightarrow> take k (frame16 p) = [])"
  proof (cases "k = 0")
    case True
    then show ?thesis using tls.drain_error [OF tls.next_Nil] by simp
  next
    case False
    with tls.next_cut [OF ok(2) S(3)] obtain r where "tls_next (take k (frame16 p)) = Inl r" "r \<noteq> None"
      by auto
    moreover have "take k (frame16 p) \<noteq> []" using False by simp
    ultimately show ?thesis using tls.drain_error by blast
  qed
  then obtain r where "tls_packets (w_out w) = (sent, r)" "r = None \<longleftrightarrow> take k (frame16 p) = []"
    using tls.drain_frames_append [OF ok(1)] out by auto
  then show ?thesis using S(1,2) out by (intro exI [of _ sent]) auto
qed

section \<open>Properties\<close>



end
