(* ===== verification/Http.thy ===== *)
theory Http
  imports QueueConn ClientID
begin

text \<open>
  DNS over HTTPS (\<open>src/dnstt-client/lib/http.go\<close>): every packet of the outgoing queue is the body
  of a POST request, the body of a good response goes into the incoming queue, and any other status
  makes the sender pause, for as long as the \<open>Retry-After\<close> header says.  Package \<open>net/http\<close> is
  the parameter \<open>http_env\<close>.  Times are nanoseconds since 1970, as integers; the durations that
  the code computes are below \<open>2 ^ 32\<close> seconds and fit in \<open>time.Duration\<close>.
\<close>

section \<open>Data\<close>

record http_request =
  rq_Method :: string
  rq_URL :: bytes
  rq_Header :: "(string \<times> string) list"
  rq_Body :: bytes

text \<open>
  A response: its status, two headers (empty if absent), its body, and whether reading fails after
  the bytes of the body.
\<close>

record http_response =
  hr_StatusCode :: int
  hr_ContentType :: bytes
  hr_RetryAfter :: bytes
  hr_Body :: bytes
  hr_BodyFails :: bool

record http_env =
  he_NewRequest :: "http_request \<Rightarrow> err + http_request"
  he_Do :: "http_request \<Rightarrow> err + http_response"
  he_ParseTime :: "bytes \<Rightarrow> err + int"

record HTTPPacketConn =
  hc_urlString :: bytes
  hc_notBefore :: int
  hc_conn :: "net_addr QueuePacketConn"

definition second :: int where "second = 1000000000"
definition defaultRetryAfter :: int where "defaultRetryAfter = 10 * second"

text \<open>The zero \<open>time.Time\<close> is January 1 of year 1.\<close>

definition zeroTime :: int where "zeroTime = -62135596800 * second"

definition dns_message :: bytes where
  "dns_message = map of_char ''application/dns-message''"

definition NewHTTPPacketConn :: "bytes \<Rightarrow> HTTPPacketConn" where
  "NewHTTPPacketConn urlString =
     \<lparr>hc_urlString = urlString, hc_notBefore = zeroTime, hc_conn = NewQueuePacketConn DummyAddr\<rparr>"

section \<open>Operations\<close>

definition parseRetryAfter :: "(bytes \<Rightarrow> err + int) \<Rightarrow> bytes \<Rightarrow> int \<Rightarrow> err + int" where
  "parseRetryAfter ParseTime value now =
     (case ParseTime value of
        Inr t \<Rightarrow> Inr t
      | Inl _ \<Rightarrow> bindE (ParseUint32 value) (\<lambda>i. Inr (now + int (unat i) * second)))"

text \<open>The \<open>default\<close> branch of the switch in \<open>send\<close>: a response with another status than 200.\<close>

definition slow_down :: "http_env \<Rightarrow> int \<Rightarrow> http_response \<Rightarrow> HTTPPacketConn \<Rightarrow> HTTPPacketConn" where
  "slow_down env now resp c =
     (let retryAfter =
            (if hr_RetryAfter resp = [] then zeroTime
             else case parseRetryAfter (he_ParseTime env) (hr_RetryAfter resp) now of
                    Inl _ \<Rightarrow> zeroTime
                  | Inr t \<Rightarrow> t);
          retryAfter = (if retryAfter = zeroTime then now + defaultRetryAfter else retryAfter)
      in if retryAfter < now then c
         else if retryAfter < hc_notBefore c then c
         else c\<lparr>hc_notBefore := retryAfter\<rparr>)"

text \<open>
  \<open>send\<close>, with the time at which it looks at the response: the error and the connection.
  \<open>ReadAll\<close> of the limited body stops at 64000 bytes, before an error that comes later.
\<close>

definition http_send ::
  "http_env \<Rightarrow> int \<Rightarrow> bytes \<Rightarrow> HTTPPacketConn \<Rightarrow> err option \<times> HTTPPacketConn" where
  "http_send env now p c =
     (case he_NewRequest env \<lparr>rq_Method = ''POST'', rq_URL = hc_urlString c,
             rq_Header = [(''Accept'', ''application/dns-message''),
               (''Content-Type'', ''application/dns-message''), (''User-Agent'', '''')],
             rq_Body = p\<rparr> of
        Inl e \<Rightarrow> (Some e, c)
      | Inr req \<Rightarrow>
          (case he_Do env req of
             Inl e \<Rightarrow> (Some e, c)
           | Inr resp \<Rightarrow>
               if hr_StatusCode resp = 200 then
                 (if hr_ContentType resp \<noteq> dns_message then (Some Errorf, c)
                  else if hr_BodyFails resp \<and> length (hr_Body resp) < 64000 then (None, c)
                  else (None, c\<lparr>hc_conn := QueueIncoming (take 64000 (hr_Body resp)) DummyAddr (hc_conn c)\<rparr>))
               else (None, slow_down env now resp c)))"

text \<open>
  One packet of \<open>sendLoop\<close>, taken from the queue at time \<open>t\<close>: whether it is sent, and the
  connection.  The errors of \<open>send\<close> are logged.
\<close>

definition http_step ::
  "http_env \<Rightarrow> int \<Rightarrow> int \<Rightarrow> bytes \<Rightarrow> HTTPPacketConn \<Rightarrow> bool \<times> HTTPPacketConn" where
  "http_step env t now p c =
     (if hc_notBefore c - t > 0 then (False, c) else (True, snd (http_send env now p c)))"

text \<open>
  The packets of all the senders in the order in which they are taken: for each, what the HTTP
  library does with it, the time it is taken, the time its response is looked at.
\<close>

fun http_run ::
  "(http_env \<times> int \<times> int \<times> bytes) list \<Rightarrow> HTTPPacketConn \<Rightarrow> (int \<times> bytes) list \<times> HTTPPacketConn" where
  "http_run [] c = ([], c)"
| "http_run ((env, t, now, p) # evs) c =
     (let (sent, c1) = http_step env t now p c;
          (ps, c2) = http_run evs c1
      in (if sent then (t, p) # ps else ps, c2))"

section \<open>Lemmas\<close>

lemma http_send_notBefore: "hc_notBefore c \<le> hc_notBefore (snd (http_send env now p c))"
  by (auto simp: http_send_def slow_down_def Let_def split: sum.splits)

lemma http_step_notBefore: "hc_notBefore c \<le> hc_notBefore (snd (http_step env t now p c))"
  by (simp add: http_step_def http_send_notBefore)

lemma http_run_notBefore:
  "http_run evs c = (sent, c') \<Longrightarrow>
     hc_notBefore c \<le> hc_notBefore c' \<and> (\<forall>(t, p) \<in> set sent. hc_notBefore c \<le> t)"
proof (induction evs arbitrary: c sent c')
  case Nil
  then show ?case by simp
next
  case (Cons ev evs)
  obtain env t now p where ev: "ev = (env, t, now, p)" by (cases ev)
  obtain b c1 where step: "http_step env t now p c = (b, c1)" by (cases "http_step env t now p c")
  obtain ps c2 where run: "http_run evs c1 = (ps, c2)" by (cases "http_run evs c1")
  have le: "hc_notBefore c \<le> hc_notBefore c1" using http_step_notBefore [of c env t now p] step by simp
  have "b \<Longrightarrow> hc_notBefore c \<le> t" using step by (auto simp: http_step_def split: if_splits)
  moreover from Cons.IH [OF run] le have
    "hc_notBefore c \<le> hc_notBefore c2" "\<forall>(t, p) \<in> set ps. hc_notBefore c \<le> t" by auto
  ultimately show ?case using Cons.prems ev step run by (auto split: if_splits)
qed

section \<open>Property\<close>

text \<open>
  Until when a response asks to wait: the date of its \<open>Retry-After\<close> header, or the number of
  seconds in it, or by default ten seconds.
\<close>

definition wait_until :: "http_env \<Rightarrow> int \<Rightarrow> http_response \<Rightarrow> int" where
  "wait_until env now resp =
     (case he_ParseTime env (hr_RetryAfter resp) of
        Inr t \<Rightarrow> if hr_RetryAfter resp = [] \<or> t = zeroTime then now + 10 * second else t
      | Inl _ \<Rightarrow>
          (case ParseUint32 (hr_RetryAfter resp) of
             Inl _ \<Rightarrow> now + 10 * second
           | Inr i \<Rightarrow> now + int (unat i) * second))"

lemma slow_down_waits:
  assumes "now \<le> wait_until env now resp" and "zeroTime < now"
  shows "wait_until env now resp \<le> hc_notBefore (slow_down env now resp c)"
proof -
  have "0 \<le> int (unat i) * second" for i :: u32 by (simp add: second_def)
  then have "now + int (unat i) * second \<noteq> zeroTime" for i :: u32 using assms(2)
    by (metis add_increasing2 leD order.refl)
  then show ?thesis using assms
    by (auto simp: slow_down_def wait_until_def parseRetryAfter_def Let_def defaultRetryAfter_def
        second_def ParseUint32_def split: sum.splits if_splits)
qed


definition busy_env :: "bytes \<Rightarrow> http_env" where
  "busy_env retryAfter =
     \<lparr>he_NewRequest = Inr, he_Do = (\<lambda>req. Inr \<lparr>hr_StatusCode = 429, hr_ContentType = [],
        hr_RetryAfter = retryAfter, hr_Body = [], hr_BodyFails = False\<rparr>),
      he_ParseTime = (\<lambda>_. Inl Errorf)\<rparr>"


end
