(* ===== verification/Compression.thy ===== *)
theory Compression
  imports Noise
begin

text \<open>
  The compressed stream (\<open>src/turbotunnel/compress.go\<close>) between smux and the Noise channel.  The zstd
  library is a parameter: an encoder \<open>'e\<close> that gives bytes for the stream below when it is written to,
  flushed and closed, and what a decoder can read after some bytes have arrived.
\<close>

section \<open>State and operations\<close>

record 'e zstd_lib =
  zl_NewReader :: bool
  zl_NewWriter :: "err + 'e"
  zl_Write :: "'e \<Rightarrow> bytes \<Rightarrow> bytes \<times> 'e"
  zl_Flush :: "'e \<Rightarrow> bytes \<times> 'e"
  zl_Close :: "'e \<Rightarrow> bytes"
  zl_decode :: "bytes \<Rightarrow> bytes"

text \<open>The encoder, whether \<open>once\<close> has been done, and how often the stream below has been closed.\<close>

record 'e CompressedReadWriteCloser =
  cw_writer :: 'e
  cw_once :: bool
  cw_closed :: nat

text \<open>The decoder is made first; it is closed again when the encoder cannot be made.\<close>

definition NewCompressedReadWriteCloser :: "'e zstd_lib \<Rightarrow> err + 'e CompressedReadWriteCloser" where
  "NewCompressedReadWriteCloser lib =
     (if \<not> zl_NewReader lib then Inl Errorf
      else case zl_NewWriter lib of
          Inl e \<Rightarrow> Inl e
        | Inr writer \<Rightarrow> Inr \<lparr>cw_writer = writer, cw_once = False, cw_closed = 0\<rparr>)"

text \<open>
  \<open>Write\<close> with its flush: the error, the state and the stream below.  The number of bytes is that of
  the argument, unless the encoder could not write.
\<close>

definition cw_Write ::
  "'e zstd_lib \<Rightarrow> bytes \<Rightarrow> 'e CompressedReadWriteCloser \<Rightarrow> wire \<Rightarrow>
     err option \<times> 'e CompressedReadWriteCloser \<times> wire" where
  "cw_Write lib b c w =
     (let (out, writer) = zl_Write lib (cw_writer c) b; c = c\<lparr>cw_writer := writer\<rparr>
      in case w_Write out w of
           (Some e, w) \<Rightarrow> (Some e, c, w)
         | (None, w) \<Rightarrow>
             (let (out, writer) = zl_Flush lib (cw_writer c); (e, w) = w_Write out w
              in (e, c\<lparr>cw_writer := writer\<rparr>, w)))"

text \<open>\<open>Read\<close>: at most \<open>n\<close> bytes after the first \<open>k\<close> of what can be decoded of the bytes that have arrived.\<close>

definition cw_Read :: "'e zstd_lib \<Rightarrow> nat \<Rightarrow> nat \<Rightarrow> bytes \<Rightarrow> bytes" where
  "cw_Read lib n k arrived = take n (drop k (zl_decode lib arrived))"

text \<open>
  \<open>Close\<close>: the first call closes the encoder, which may still write, the decoder and the stream below,
  whose error \<open>e\<close> it returns; the others do nothing.
\<close>

definition cw_Close ::
  "'e zstd_lib \<Rightarrow> err option \<Rightarrow> 'e CompressedReadWriteCloser \<Rightarrow> wire \<Rightarrow>
     err option \<times> 'e CompressedReadWriteCloser \<times> wire" where
  "cw_Close lib e c w =
     (if cw_once c then (None, c, w)
      else (e, c\<lparr>cw_once := True, cw_closed := Suc (cw_closed c)\<rparr>, snd (w_Write (zl_Close lib (cw_writer c)) w)))"

section \<open>A stream of writes\<close>

fun cw_writes ::
  "'e zstd_lib \<Rightarrow> bytes list \<Rightarrow> 'e CompressedReadWriteCloser \<Rightarrow> wire \<Rightarrow>
     err option \<times> 'e CompressedReadWriteCloser \<times> wire" where
  "cw_writes lib [] c w = (None, c, w)"
| "cw_writes lib (b # bs) c w =
     (case cw_Write lib b c w of
        (Some e, c, w) \<Rightarrow> (Some e, c, w)
      | (None, c, w) \<Rightarrow> cw_writes lib bs c w)"

text \<open>What the library gives for a sequence of writes, each with its flush.\<close>

fun encoded :: "'e zstd_lib \<Rightarrow> 'e \<Rightarrow> bytes list \<Rightarrow> bytes" where
  "encoded lib s [] = []"
| "encoded lib s (b # bs) =
     (let (out, s) = zl_Write lib s b; (out', s) = zl_Flush lib s in out @ out' @ encoded lib s bs)"

text \<open>The contract of zstd: whatever has been flushed can be decoded.\<close>

definition flushes :: "'e zstd_lib \<Rightarrow> bool" where
  "flushes lib \<longleftrightarrow>
     (\<forall>s bs. zl_NewWriter lib = Inr s \<longrightarrow> zl_decode lib (encoded lib s bs) = concat bs)"

lemma cw_writes_out:
  "cw_writes lib bs c w = (None, c', w') \<Longrightarrow> w_out w' = w_out w @ encoded lib (cw_writer c) bs"
proof (induction bs arbitrary: c w)
  case (Cons b bs)
  obtain c1 w1 where 1: "cw_Write lib b c w = (None, c1, w1)" "cw_writes lib bs c1 w1 = (None, c', w')"
    using Cons.prems by (auto split: prod.splits option.splits)
  obtain out s out' s' where z: "zl_Write lib (cw_writer c) b = (out, s)" "zl_Flush lib s = (out', s')" by fastforce
  from 1(1) z have "w_out w1 = w_out w @ out @ out'" "cw_writer c1 = s'"
    by (auto simp: cw_Write_def Let_def split: prod.splits option.splits dest!: w_Write_ok)
  with Cons.IH [OF 1(2)] z show ?case by simp
qed simp

text \<open>As soon as a write has returned without an error the other end can read all of it.\<close>

lemma compressed_delivery:
  assumes "flushes lib" and "NewCompressedReadWriteCloser lib = Inr c"
    and "cw_writes lib bs c \<lparr>w_out = [], w_room = room\<rparr> = (None, c', w)"
  shows "zl_decode lib (w_out w) = concat bs \<and> cw_Read lib n k (w_out w) = take n (drop k (concat bs))"
proof -
  have "zl_NewWriter lib = Inr (cw_writer c)"
    using assms(2) by (auto simp: NewCompressedReadWriteCloser_def split: if_splits sum.splits)
  with assms(1) have "zl_decode lib (encoded lib (cw_writer c) bs) = concat bs" by (simp add: flushes_def)
  with cw_writes_out [OF assms(3)] show ?thesis by (simp add: cw_Read_def)
qed

text \<open>The stream below is closed once, however often \<open>Close\<close> is called.\<close>

lemma closed_once:
  assumes "cw_Close lib e c w = (r, c', w')" and "cw_Close lib e' c' w' = (r', c'', w'')"
  shows "r' = None \<and> c'' = c' \<and> w'' = w' \<and> (\<not> cw_once c \<longrightarrow> cw_closed c'' = Suc (cw_closed c))"
  using assms by (auto simp: cw_Close_def split: if_splits)

section \<open>Over the Noise channel\<close>

text \<open>
  Smux over a compressed stream over the Noise channel: the compressed bytes are written to the
  socket, and the other end decodes what its socket delivers.
\<close>

theorem compressed_noise:
  assumes "flushes zlib" and "NewCompressedReadWriteCloser zlib = Inr c" and "in_step lib (so_send a) (so_recv b)"
    and "cw_writes zlib bs c \<lparr>w_out = [], w_room = None\<rparr> = (None, c', z)"
    and "noise_writes lib [w_out z] (so_send a) \<lparr>w_out = [], w_room = room\<rparr> = (n, None, s, w)"
  shows "zl_decode zlib (concat (fst (noise_recv lib (so_recv b) (w_out w)))) = concat bs"
proof -
  from noise_writes_send [OF assms(3,5)] have "concat (fst (noise_recv lib (so_recv b) (w_out w))) = w_out z" by auto
  with compressed_delivery [OF assms(1,2,4)] show ?thesis by simp
qed

end
