(* ===== verification/ClientPoll.thy ===== *)
theory ClientPoll
  imports Client
begin

text \<open>
  The sending side of the client (\<open>DNSPacketConn.sendLoop\<close> of \<open>src/dnstt-client/lib/dns.go\<close>): when
  it sends a packet, when it polls with an empty query, and how the poll timer backs off.  One
  iteration of the loop is a step of an inductive relation, because which ready branch a
  \<open>select\<close> takes is not determined; between the two selects the other goroutines may change the
  connection.  Times are in nanoseconds.
\<close>

section \<open>Constants\<close>

definition ms :: int where "ms = 1000000"

text \<open>\<open>time.Duration(t) * time.Millisecond\<close>, in the 64 bits of a \<open>time.Duration\<close>.\<close>

definition duration_ms :: "int \<Rightarrow> int" where
  "duration_ms t = sint (word_of_int (t * ms) :: 64 word)"

definition initPollDelay :: int where "initPollDelay = 20 * ms"
definition maxPollDelay :: int where "maxPollDelay = 500 * ms"
definition pacingThreshold :: int where "pacingThreshold = 8"
definition minPacingInterval :: int where "minPacingInterval = 5 * ms"

text \<open>
  \<open>time.Duration(float64(d) * 1.3)\<close> in binary floating point.  For \<open>0 < d < 2^53\<close> the conversion
  of \<open>d\<close> is exact; the double nearest to 1.3 is \<open>5854679515581645 / 2^52\<close>; the product is rounded
  to 53 significant bits, ties to even, and the conversion back truncates.
\<close>

fun bit_length :: "nat \<Rightarrow> nat" where
  "bit_length n = (if n = 0 then 0 else Suc (bit_length (n div 2)))"

declare bit_length.simps [simp del]

definition round_bits :: "nat \<Rightarrow> nat \<Rightarrow> nat" where
  "round_bits s n =
     (let q = n div 2 ^ s; r = n mod 2 ^ s in
      if 2 * r < 2 ^ s then q else if 2 ^ s < 2 * r then q + 1 else if even q then q else q + 1)"

definition times_multiplier :: "nat \<Rightarrow> nat" where
  "times_multiplier d =
     (let n = d * 5854679515581645;
          s = bit_length n - 53
      in (round_bits s n * 2 ^ s) div 2 ^ 52)"

text \<open>The poll delay after the timer has expired.\<close>

definition next_pollDelay :: "int \<Rightarrow> int" where
  "next_pollDelay d = (let d' = int (times_multiplier (nat d)) in if d' > maxPollDelay then maxPollDelay else d')"

section \<open>State\<close>

text \<open>
  The variables of one sender; the timer is the time at which it fires.  Only sender 0 has polls by
  timer.
\<close>

record sender =
  sn_senderID :: nat
  sn_pollDelay :: int
  sn_pollTimer :: int
  sn_lastPacingSend :: int

definition new_sender :: "nat \<Rightarrow> int \<Rightarrow> sender" where
  "new_sender senderID now =
     (let pollDelay = initPollDelay + int senderID * 5 * ms
      in \<lparr>sn_senderID = senderID, sn_pollDelay = pollDelay, sn_pollTimer = now + pollDelay,
          sn_lastPacingSend = now\<rparr>)"

section \<open>One iteration\<close>

text \<open>
  \<open>state\<close> is the value of \<open>kcpStateFunc\<close>, or \<open>None\<close> when no function is set.
\<close>

definition pacing_triggered :: "nat \<Rightarrow> int option \<Rightarrow> int \<Rightarrow> sender \<Rightarrow> bool" where
  "pacing_triggered numSenders state now s =
     (case state of
        None \<Rightarrow> False
      | Some waitingSnd \<Rightarrow>
          waitingSnd < pacingThreshold * int numSenders \<and> now - sn_lastPacingSend s \<ge> minPacingInterval)"

text \<open>
  The selects, with the send queue \<open>q\<close>: the outer one sees the connection \<open>c0\<close>, the inner ones
  see \<open>c1\<close> and the time \<open>t\<close> at which one of their branches is ready.  The result is the packet,
  whether the timer has expired, and the connection.
\<close>

inductive poll_select ::
  "bool \<Rightarrow> bool \<Rightarrow> nat \<Rightarrow> int \<Rightarrow> int \<Rightarrow> DNSPacketConn \<Rightarrow> DNSPacketConn \<Rightarrow>
     bytes \<Rightarrow> bool \<Rightarrow> DNSPacketConn \<Rightarrow> bool"
  for pacing primary q timer t c0 c1 where
  data_at_once:
    "conn_recv q (dc_conn c0) = (Some p, k) \<Longrightarrow>
     poll_select pacing primary q timer t c0 c1 p False (c0\<lparr>dc_conn := k\<rparr>)"
| paced:
    "fst (conn_recv q (dc_conn c0)) = None \<Longrightarrow> pacing \<Longrightarrow>
     poll_select pacing primary q timer t c0 c1 [] False c0"
| data_later:
    "fst (conn_recv q (dc_conn c0)) = None \<Longrightarrow> \<not> pacing \<Longrightarrow> conn_recv q (dc_conn c1) = (Some p, k) \<Longrightarrow>
     poll_select pacing primary q timer t c0 c1 p False (c1\<lparr>dc_conn := k\<rparr>)"
| permitted:
    "fst (conn_recv q (dc_conn c0)) = None \<Longrightarrow> \<not> pacing \<Longrightarrow> dc_pollChan c1 > 0 \<Longrightarrow>
     poll_select pacing primary q timer t c0 c1 [] False (c1\<lparr>dc_pollChan := dc_pollChan c1 - 1\<rparr>)"
| expired:
    "fst (conn_recv q (dc_conn c0)) = None \<Longrightarrow> \<not> pacing \<Longrightarrow> primary \<Longrightarrow> timer \<le> t \<Longrightarrow>
     poll_select pacing primary q timer t c0 c1 [] True c1"

inductive_cases poll_selectE: "poll_select pacing primary q timer t c0 c1 p e c2"

text \<open>What follows the select: a packet uses up one pending permission to poll, and the timer is set.\<close>

definition displace_poll :: "bytes \<Rightarrow> DNSPacketConn \<Rightarrow> DNSPacketConn" where
  "displace_poll p c =
     (if length p > 0 \<and> dc_pollChan c > 0 then c\<lparr>dc_pollChan := dc_pollChan c - 1\<rparr> else c)"

definition reset_timers :: "bool \<Rightarrow> bool \<Rightarrow> bytes \<Rightarrow> int \<Rightarrow> sender \<Rightarrow> sender" where
  "reset_timers pacing fired p now s =
     (let primary = (sn_senderID s = 0);
          s = (if fired then s\<lparr>sn_pollDelay := next_pollDelay (sn_pollDelay s)\<rparr>
               else if primary then s\<lparr>sn_pollDelay := initPollDelay\<rparr> else s);
          s = (if primary then s\<lparr>sn_pollTimer := now + sn_pollDelay s\<rparr> else s)
      in if pacing \<or> length p = 0 then s\<lparr>sn_lastPacingSend := now\<rparr> else s)"

text \<open>
  One iteration, from time \<open>t0\<close> to time \<open>t1\<close>, that ends with \<open>send\<close> of the packet \<open>p\<close> (the empty
  packet is a poll).  An error of \<open>send\<close> is logged and does not change the state.
\<close>

inductive sendLoop_iter ::
  "net_addr \<Rightarrow> nat \<Rightarrow> int option \<Rightarrow> sender \<times> DNSPacketConn \<Rightarrow> int \<Rightarrow> int \<Rightarrow> bytes \<Rightarrow> bool \<Rightarrow>
     sender \<times> DNSPacketConn \<Rightarrow> bool"
  for addr numSenders state where
  iter:
    "OutgoingQueue addr t0 (dc_conn c) = Inr (q, k) \<Longrightarrow> t0 \<le> t1 \<Longrightarrow>
     pacing = pacing_triggered numSenders state t0 s \<Longrightarrow>
     poll_select pacing (sn_senderID s = 0) q (sn_pollTimer s) t1 (c\<lparr>dc_conn := k\<rparr>) c1 p fired c2 \<Longrightarrow>
     sendLoop_iter addr numSenders state (s, c) t0 t1 p fired
       (reset_timers pacing fired p t1 s, displace_poll p c2)"

inductive_cases sendLoop_iterE: "sendLoop_iter addr n st (s, c) t0 t1 p e (s', c')"

text \<open>
  A run of the loop: the iterations with their times, packets and whether the timer had expired.
  Between two iterations, too, the connection may change.
\<close>

inductive sendLoop_run ::
  "net_addr \<Rightarrow> nat \<Rightarrow> sender \<Rightarrow> (int \<times> bytes \<times> bool) list \<Rightarrow> sender \<Rightarrow> bool"
  for addr numSenders s0 where
  start: "sendLoop_run addr numSenders s0 [] s0"
| iterate:
    "sendLoop_run addr numSenders s0 sends s \<Longrightarrow>
     sendLoop_iter addr numSenders state (s, c) t0 t1 p fired (s', c') \<Longrightarrow>
     sendLoop_run addr numSenders s0 (sends @ [(t1, p, fired)]) s'"

section \<open>The multiplication\<close>

lemma bit_length_le: "0 < n \<Longrightarrow> 2 ^ (bit_length n - 1) \<le> n"
proof (induction n rule: bit_length.induct)
  case (1 n)
  show ?case
  proof (cases "n div 2 = 0")
    case True
    with 1 show ?thesis by (simp add: bit_length.simps [of n] bit_length.simps [of 0])
  next
    case False
    with 1 have IH: "2 ^ (bit_length (n div 2) - 1) \<le> n div 2" by simp
    have "0 < bit_length (n div 2)" using False by (simp add: bit_length.simps [of "n div 2"])
    then have "2 ^ (bit_length n - 1) = 2 * (2 :: nat) ^ (bit_length (n div 2) - 1)"
      using 1 by (simp add: bit_length.simps [of n] flip: power_Suc)
    with IH show ?thesis by linarith
  qed
qed

lemma round_bits_ge: "n < (round_bits s n + 1) * 2 ^ s"
proof -
  have "n = n div 2 ^ s * 2 ^ s + n mod 2 ^ s" by (rule div_mult_mod_eq [symmetric])
  moreover have "n mod 2 ^ s < 2 ^ s" by simp
  moreover have "n div 2 ^ s \<le> round_bits s n" by (simp add: round_bits_def Let_def)
  then have "n div 2 ^ s * 2 ^ s \<le> round_bits s n * 2 ^ s" by simp
  ultimately show ?thesis unfolding add_mult_distrib by linarith
qed

text \<open>The delay never shrinks: the rounding error is below a part in \<open>2^52\<close>.\<close>

lemma times_multiplier_ge: "d \<le> times_multiplier d"
proof (cases "d = 0")
  case False
  let ?m = "5854679515581645 :: nat"
  define n where "n = d * ?m"
  define s where "s = bit_length n - 53"
  have n: "0 < n" "2 ^ 52 \<le> n" using False by (simp_all add: n_def)
  have "2 ^ s * 2 ^ 52 \<le> n"
  proof (cases "bit_length n \<le> 53")
    case True
    then show ?thesis using n by (simp add: s_def)
  next
    case False
    then have "bit_length n - 1 = s + 52" by (simp add: s_def)
    then show ?thesis using bit_length_le [OF n(1)] by (simp add: power_add)
  qed
  moreover have "n < round_bits s n * 2 ^ s + 2 ^ s" using round_bits_ge [of n s] by simp
  ultimately have "d * 2 ^ 52 \<le> round_bits s n * 2 ^ s" unfolding n_def by simp
  then have "d * 2 ^ 52 div 2 ^ 52 \<le> round_bits s n * 2 ^ s div 2 ^ 52" by (rule div_le_mono)
  then show ?thesis by (simp add: times_multiplier_def n_def s_def Let_def)
qed simp

lemma next_pollDelay_bounds:
  "initPollDelay \<le> d \<Longrightarrow> initPollDelay \<le> next_pollDelay d \<and> next_pollDelay d \<le> maxPollDelay"
  using times_multiplier_ge [of "nat d"]
  by (auto simp: next_pollDelay_def Let_def initPollDelay_def maxPollDelay_def ms_def)

text \<open>From 20 milliseconds, thirteen expirations in a row lead to half a second.\<close>

lemma pollDelay_steps:
  "next_pollDelay 20000000 = 26000000"
  "next_pollDelay 26000000 = 33800000"
  "next_pollDelay 33800000 = 43940000"
  "next_pollDelay 43940000 = 57122000"
  "next_pollDelay 57122000 = 74258600"
  "next_pollDelay 74258600 = 96536180"
  "next_pollDelay 96536180 = 125497034"
  "next_pollDelay 125497034 = 163146144"
  "next_pollDelay 163146144 = 212089987"
  "next_pollDelay 212089987 = 275716983"
  "next_pollDelay 275716983 = 358432077"
  "next_pollDelay 358432077 = 465961700"
  "next_pollDelay 465961700 = 500000000"
  unfolding next_pollDelay_def times_multiplier_def round_bits_def Let_def maxPollDelay_def ms_def
  by (simp_all add: bit_length.simps)

lemma next_pollDelay_13: "(next_pollDelay ^^ 13) initPollDelay = maxPollDelay"
proof -
  have "(13 :: nat) = Suc (Suc (Suc (Suc (Suc (Suc (Suc (Suc (Suc (Suc (Suc (Suc (Suc 0))))))))))))" by simp
  then show ?thesis
    unfolding initPollDelay_def maxPollDelay_def ms_def
    by (simp only: funpow.simps comp_apply id_apply) (simp add: pollDelay_steps)
qed

lemma next_pollDelay_max: "next_pollDelay maxPollDelay = maxPollDelay"
  using next_pollDelay_bounds [of maxPollDelay] times_multiplier_ge [of "nat maxPollDelay"]
  by (auto simp: next_pollDelay_def Let_def initPollDelay_def maxPollDelay_def ms_def)

lemma next_pollDelay_stays: "13 \<le> k \<Longrightarrow> (next_pollDelay ^^ k) initPollDelay = maxPollDelay"
proof (induction k rule: dec_induct)
  case (step k)
  then show ?case by (simp add: next_pollDelay_max)
qed (rule next_pollDelay_13)

section \<open>Lemmas on iterations\<close>

lemma OutgoingQueue_ok:
  assumes "conn_inv c"
  shows "\<exists>r k. OutgoingQueue a now c = Inr (rec_SendQueue r, k) \<and> conn_inv k \<and>
     peer (qc_remotes k) a = Some r \<and> outgoing k = outgoing c"
proof -
  obtain r m where "SendQueue a now (qc_remotes c) = Inr (rec_SendQueue r, m)" "rm_inv m"
    "peer m a = Some r" "sendq m = sendq (qc_remotes c)"
    using fetch_views [of "qc_remotes c" a now] assms by (auto simp: conn_inv_def)
  then show ?thesis using assms
    by (intro exI [of _ r] exI [of _ "c\<lparr>qc_remotes := m\<rparr>"]) (simp add: OutgoingQueue_def outgoing_def conn_inv_def)
qed

lemma conn_recv_outgoing:
  assumes "conn_inv c" and "peer (qc_remotes c) a = Some r"
  shows "\<exists>k. conn_recv (rec_SendQueue r) c = ((case outgoing c a of [] \<Rightarrow> None | p # _ \<Rightarrow> Some p), k) \<and>
     conn_inv k \<and> outgoing k = (outgoing c)(a := tl (outgoing c a))"
proof -
  obtain cs where "ch_recv (rec_SendQueue r) (rm_chans (qc_remotes c)) =
      ((case sendq (qc_remotes c) a of [] \<Rightarrow> None | p # _ \<Rightarrow> Some p), cs)"
    "rm_inv ((qc_remotes c)\<lparr>rm_chans := cs\<rparr>)"
    "sendq ((qc_remotes c)\<lparr>rm_chans := cs\<rparr>) = (sendq (qc_remotes c))(a := tl (sendq (qc_remotes c) a))"
    using recv_views(1) [of "qc_remotes c" a r] assms by (auto simp: conn_inv_def)
  then show ?thesis using assms(1)
    by (intro exI [of _ "c\<lparr>qc_remotes := (qc_remotes c)\<lparr>rm_chans := cs\<rparr>\<rparr>"])
      (simp add: conn_recv_def outgoing_def conn_inv_def)
qed

lemma iter_primary:
  assumes "sendLoop_iter addr n st (s, c) t0 t1 p fired (s', c')" and "sn_senderID s = 0"
  shows "sn_senderID s' = 0 \<and> sn_pollTimer s' = t1 + sn_pollDelay s' \<and>
     sn_pollDelay s' = (if fired then next_pollDelay (sn_pollDelay s) else initPollDelay)"
  using assms by (auto elim!: sendLoop_iterE simp: reset_timers_def Let_def)

definition fired_last :: "(int \<times> bytes \<times> bool) list \<Rightarrow> nat" where
  "fired_last sends = length (takeWhile (\<lambda>(t, p, fired). fired) (rev sends))"

lemma run_primary:
  assumes "sendLoop_run addr n (new_sender 0 t) sends s"
  shows "sn_senderID s = 0 \<and>
     sn_pollTimer s = (if sends = [] then t else fst (last sends)) + sn_pollDelay s \<and>
     sn_pollDelay s = (next_pollDelay ^^ fired_last sends) initPollDelay"
  using assms
proof (induction rule: sendLoop_run.induct)
  case start
  then show ?case by (simp add: new_sender_def fired_last_def)
next
  case (iterate sends s state c t0 t1 p fired s' c')
  with iter_primary [OF iterate(2)] show ?case by (simp add: fired_last_def)
qed

lemma delay_bounds:
  "initPollDelay \<le> (next_pollDelay ^^ k) initPollDelay \<and> (next_pollDelay ^^ k) initPollDelay \<le> maxPollDelay"
proof (induction k)
  case 0
  then show ?case by (simp add: initPollDelay_def maxPollDelay_def ms_def)
qed (use next_pollDelay_bounds in simp)

section \<open>Properties\<close>

text \<open>
  Data come before polls.  When a packet waits in the outgoing queue at the start of an
  iteration, the iteration sends it, the oldest one, at once, whatever pacing or the timer say; no
  queue loses or reorders anything, and the packet uses up one pending permission to poll.
\<close>

theorem data_before_polls:
  assumes "sendLoop_iter addr n st (s, c) t0 t1 p fired (s', c')"
    and "conn_inv (dc_conn c)" and "outgoing (dc_conn c) addr = p0 # rest"
  shows "p = p0 \<and> \<not> fired \<and> conn_inv (dc_conn c') \<and>
     outgoing (dc_conn c') = (outgoing (dc_conn c))(addr := rest) \<and>
     dc_pollChan c' = (if p0 = [] then dc_pollChan c else dc_pollChan c - 1)"
proof -
  obtain q k pacing c1 c2 where 1: "OutgoingQueue addr t0 (dc_conn c) = Inr (q, k)"
    "poll_select pacing (sn_senderID s = 0) q (sn_pollTimer s) t1 (c\<lparr>dc_conn := k\<rparr>) c1 p fired c2"
    "c' = displace_poll p c2"
    using assms(1) by (elim sendLoop_iterE) blast
  obtain r where r: "q = rec_SendQueue r" "conn_inv k" "peer (qc_remotes k) addr = Some r"
    "outgoing k = outgoing (dc_conn c)"
    using OutgoingQueue_ok [OF assms(2), of addr t0] 1(1) by auto
  obtain k' where k': "conn_recv q k = (Some p0, k')" "conn_inv k'"
    "outgoing k' = (outgoing (dc_conn c))(addr := rest)"
    using conn_recv_outgoing [OF r(2,3)] r(1,4) assms(3) by auto
  from 1(2) k'(1) have "p = p0 \<and> \<not> fired \<and> c2 = c\<lparr>dc_conn := k'\<rparr>"
    by (auto elim!: poll_selectE)
  with k' 1(3) show ?thesis by (auto simp: displace_poll_def)
qed

text \<open>
  C20: The poll timer of the primary sender.  After any run, however the selects have been resolved
  and whatever the other goroutines have done, the delay is between 20 and 500 milliseconds and the
  next poll is due one delay after the last send.  The delay depends only on how many of the last
  sends in a row were polls by timer: it is 20 milliseconds after any other send, it grows by the
  factor with each of them, and after thirteen it is half a second.
\<close>

theorem poll_schedule:
  assumes "sendLoop_run addr n (new_sender 0 t) sends s"
  shows "initPollDelay \<le> sn_pollDelay s \<and> sn_pollDelay s \<le> maxPollDelay \<and>
     sn_pollTimer s = (if sends = [] then t else fst (last sends)) + sn_pollDelay s \<and>
     sn_pollDelay s = (next_pollDelay ^^ fired_last sends) initPollDelay \<and>
     (13 \<le> fired_last sends \<longrightarrow> sn_pollDelay s = maxPollDelay)"
  using run_primary [OF assms] delay_bounds next_pollDelay_stays by simp

section \<open>Witnesses\<close>

definition polling_client :: "bytes list \<Rightarrow> DNSPacketConn" where
  "polling_client ps =
     \<lparr>dc_clientID = replicate 8 7, dc_domain = [], dc_pollChan = 1,
      dc_conn = (case put_all put_outgoing (map (\<lambda>p. (0, DummyAddr, p)) ps) (NewQueuePacketConn DummyAddr) of
                   Inr c \<Rightarrow> c | Inl _ \<Rightarrow> NewQueuePacketConn DummyAddr)\<rparr>"

lemma polling_client_ok:
  "length ps \<le> QueueSize \<Longrightarrow>
     conn_inv (dc_conn (polling_client ps)) \<and> outgoing (dc_conn (polling_client ps)) DummyAddr = ps"
proof -
  assume len: "length ps \<le> QueueSize"
  let ?ws = "map (\<lambda>p. (0 :: int, DummyAddr, p)) ps"
  have "outgoing (NewQueuePacketConn DummyAddr) DummyAddr = []"
    by (simp add: outgoing_def sendq_def NewQueuePacketConn_def NewRemoteMap_def peer_def)
  moreover have "packets_for DummyAddr (map (\<lambda>p. (0 :: int, DummyAddr, p)) qs) = qs" for qs :: "bytes list"
    by (induction qs) simp_all
  ultimately show ?thesis
    using outgoing.put_all_ok [of "NewQueuePacketConn DummyAddr" ?ws] len
    by (auto simp: polling_client_def)
qed

lemma data_iteration:
  "\<exists>s' c'. sendLoop_iter DummyAddr 1 None (new_sender 0 0, polling_client [[1], [2]]) 5 5 [1] False (s', c')"
proof -
  let ?c = "polling_client [[1], [2]]"
  have ok: "conn_inv (dc_conn ?c)" "outgoing (dc_conn ?c) DummyAddr = [[1], [2]]"
    using polling_client_ok [of "[[1], [2]]"] by (simp_all add: QueueSize_def)
  obtain r k where r: "OutgoingQueue DummyAddr 5 (dc_conn ?c) = Inr (rec_SendQueue r, k)" "conn_inv k"
    "peer (qc_remotes k) DummyAddr = Some r" "outgoing k = outgoing (dc_conn ?c)"
    using OutgoingQueue_ok [OF ok(1)] by blast
  obtain k' where "conn_recv (rec_SendQueue r) k = (Some [1], k')"
    using conn_recv_outgoing [OF r(2,3)] r(4) ok(2) by auto
  then have "conn_recv (rec_SendQueue r) (dc_conn (?c\<lparr>dc_conn := k\<rparr>)) = (Some [1], k')" by simp
  from sendLoop_iter.intros [OF r(1) order.refl refl data_at_once [OF this]] show ?thesis by blast
qed

theorem data_before_polls_witness:
  "\<exists>s' c'. sendLoop_iter DummyAddr 1 None (new_sender 0 0, polling_client [[1], [2]]) 5 5 [1] False (s', c') \<and>
     outgoing (dc_conn c') DummyAddr = [[2]] \<and> dc_pollChan c' = 0"
proof -
  have ok: "conn_inv (dc_conn (polling_client [[1], [2]]))"
    "outgoing (dc_conn (polling_client [[1], [2]])) DummyAddr = [1] # [[2]]"
    using polling_client_ok [of "[[1], [2]]"] by (simp_all add: QueueSize_def)
  obtain s' c' where
    it: "sendLoop_iter DummyAddr 1 None (new_sender 0 0, polling_client [[1], [2]]) 5 5 [1] False (s', c')"
    using data_iteration by blast
  have "dc_pollChan (polling_client [[1], [2]]) = 1" by (simp add: polling_client_def)
  with data_before_polls [OF it ok] have "outgoing (dc_conn c') DummyAddr = [[2]]" "dc_pollChan c' = 0" by auto
  with it show ?thesis by blast
qed

theorem poll_schedule_witness:
  "\<exists>s. sendLoop_run DummyAddr 1 (new_sender 0 0) [(5, [1], False)] s \<and> sn_pollTimer s = 5 + 20 * ms"
proof -
  obtain s' c' where
    it: "sendLoop_iter DummyAddr 1 None (new_sender 0 0, polling_client [[1], [2]]) 5 5 [1] False (s', c')"
    using data_iteration by blast
  have run: "sendLoop_run DummyAddr 1 (new_sender 0 0) [(5, [1], False)] s'"
    using iterate [OF start it] by simp
  from poll_schedule [OF run] run show ?thesis by (auto simp: fired_last_def initPollDelay_def)
qed

end
