(* ===== verification/Completion.thy ===== *)
theory Completion
  imports Prelude "HOL-Library.Multiset"
begin

text \<open>
  The contract of a concurrent search: a step relation whose steps use up a measure and which can
  always take a step until it is final.  It yields that every run is finite, that a run which cannot
  go on is final, and that a final state can be reached from everywhere.  The resolver tests, which
  run many goroutines over a list of resolvers, are its instances.
\<close>

locale completes =
  fixes step :: "'s \<Rightarrow> 's \<Rightarrow> bool"
    and inv :: "'s \<Rightarrow> bool"
    and final :: "'s \<Rightarrow> bool"
    and msr :: "'s \<Rightarrow> nat"
  assumes inv_step: "inv s \<Longrightarrow> step s t \<Longrightarrow> inv t"
    and decreases: "inv s \<Longrightarrow> step s t \<Longrightarrow> msr t < msr s"
    and progress: "inv s \<Longrightarrow> \<not> final s \<Longrightarrow> \<exists>t. step s t"
begin

lemma steps_inv: "step\<^sup>*\<^sup>* s t \<Longrightarrow> inv s \<Longrightarrow> inv t"
  by (induction rule: rtranclp_induct) (auto intro: inv_step)

lemma run_bounded: "inv s \<Longrightarrow> (step ^^ n) s t \<Longrightarrow> n + msr t \<le> msr s"
proof (induction n arbitrary: t)
  case 0
  then show ?case by simp
next
  case (Suc n)
  then obtain u where u: "(step ^^ n) s u" "step u t" by auto
  then have "inv u" using steps_inv [of s u] Suc.prems(1) by (auto dest: relpowp_imp_rtranclp)
  with Suc.IH [OF Suc.prems(1) u(1)] decreases [OF _ u(2)] show ?case by simp
qed

lemma stuck_final: "inv s \<Longrightarrow> step\<^sup>*\<^sup>* s t \<Longrightarrow> \<nexists>u. step t u \<Longrightarrow> inv t \<and> final t"
  using steps_inv progress by blast

lemma reaches_final: "inv s \<Longrightarrow> \<exists>t. step\<^sup>*\<^sup>* s t \<and> inv t \<and> final t"
proof (induction "msr s" arbitrary: s rule: less_induct)
  case less
  show ?case
  proof (cases "final s")
    case True
    with less.prems show ?thesis by blast
  next
    case False
    with progress less.prems obtain t where t: "step s t" by blast
    with less inv_step decreases obtain u where "step\<^sup>*\<^sup>* t u" "inv u" "final u" by blast
    with t show ?thesis by (meson converse_rtranclp_into_rtranclp)
  qed
qed

end

text \<open>Updates of one goroutine in the list of all of them.\<close>

lemma sum_list_update_less:
  fixes f :: "'a \<Rightarrow> nat"
  assumes "i < length xs" and "f x + d < f (xs ! i)"
  shows "sum_list (map f (xs[i := x])) + d < sum_list (map f xs)"
proof -
  have "sum_list (map f (xs[i := x])) + f (xs ! i) = sum_list (map f xs) + f x"
    using assms(1) by (subst (2) id_take_nth_drop [OF assms(1)], subst upd_conv_take_nth_drop) auto
  with assms(2) show ?thesis by linarith
qed

lemma length_filter_update:
  assumes "i < length xs"
  shows "length (filter P (xs[i := x])) + (if P (xs ! i) then 1 else 0) =
     length (filter P xs) + (if P x then 1 else 0)"
  using assms
  by (subst (2) id_take_nth_drop [OF assms], subst upd_conv_take_nth_drop) auto

text \<open>
  The results of the goroutines that satisfy \<open>P\<close>, where \<open>f i\<close> is the result of goroutine \<open>i\<close>.
\<close>

definition results_of :: "(nat \<Rightarrow> 'r) \<Rightarrow> ('g \<Rightarrow> bool) \<Rightarrow> 'g list \<Rightarrow> 'r multiset" where
  "results_of f P gs = image_mset f (mset_set {i. i < length gs \<and> P (gs ! i)})"

lemma results_of_same:
  assumes "i < length gs" and "P g = P (gs ! i)"
  shows "results_of f P (gs[i := g]) = results_of f P gs"
proof -
  have "{j. j < length (gs[i := g]) \<and> P (gs[i := g] ! j)} = {j. j < length gs \<and> P (gs ! j)}"
    using assms by (auto simp: nth_list_update)
  then show ?thesis by (simp add: results_of_def)
qed

lemma results_of_new:
  assumes "i < length gs" and "\<not> P (gs ! i)" and "P g"
  shows "results_of f P (gs[i := g]) = add_mset (f i) (results_of f P gs)"
proof -
  have "{j. j < length (gs[i := g]) \<and> P (gs[i := g] ! j)} = insert i {j. j < length gs \<and> P (gs ! j)}"
    using assms by (auto simp: nth_list_update)
  moreover have "i \<notin> {j. j < length gs \<and> P (gs ! j)}" using assms(2) by simp
  ultimately show ?thesis by (simp add: results_of_def)
qed

lemma results_of_all:
  assumes "\<forall>i<length gs. P (gs ! i)"
  shows "results_of f P gs = mset (map f [0..<length gs])"
proof -
  have "{i. i < length gs \<and> P (gs ! i)} = {0..<length gs}" using assms by auto
  then show ?thesis by (simp add: results_of_def)
qed

lemma results_of_none:
  assumes "\<forall>i<length gs. \<not> P (gs ! i)"
  shows "results_of f P gs = {#}"
proof -
  have e: "{i. i < length gs \<and> P (gs ! i)} = {}" using assms by blast
  show ?thesis unfolding results_of_def e by simp
qed

lemma size_results_of_less:
  assumes "i < length gs" and "\<not> P (gs ! i)"
  shows "size (results_of f P gs) < length gs"
proof -
  have "{j. j < length gs \<and> P (gs ! j)} \<subset> {0..<length gs}"
    using assms by (intro psubsetI subsetI) (auto simp: set_eq_iff)
  then have "card {j. j < length gs \<and> P (gs ! j)} < card {0..<length gs}"
    by (rule psubset_card_mono [OF finite_atLeastLessThan])
  then show ?thesis by (simp add: results_of_def)
qed

end
