(* ===== verification/Relay.thy ===== *)
theory Relay
  imports Completion "HOL-Library.Sublist"
begin

text \<open>
  The two goroutines that connect a stream with a TCP connection: \<open>handle\<close> of
  \<open>src/dnstt-client/lib/client.go\<close>, the end of \<open>handleSOCKS\<close> of \<open>src/dnstt-client/mobile/mobile.go\<close> and
  \<open>handleStream\<close> of \<open>src/dnstt-server/main.go\<close>.  Each copies one direction with \<open>io.Copy\<close> and then closes
  something; the function waits for both and runs its deferred closings.  The step relation has every
  interleaving of the three, and a copy can fail at any point.  The loops that accept streams, sessions
  and connections are alike, too.
\<close>

section \<open>Accepting\<close>

text \<open>What an accepting call gives: something new, an error that is temporary, or another error.\<close>

datatype 'a accept = Accepted 'a | Temporary | Failed err

text \<open>The loop over these results; without an error it is still waiting.\<close>

fun accept_loop :: "'a accept list \<Rightarrow> 'a list \<times> err option" where
  "accept_loop [] = ([], None)"
| "accept_loop (Accepted x # rs) = (let (xs, e) = accept_loop rs in (x # xs, e))"
| "accept_loop (Temporary # rs) = accept_loop rs"
| "accept_loop (Failed e # rs) = ([], Some e)"

section \<open>The goroutines\<close>

datatype side = Up | Down

text \<open>A copy with the chunks that it will still read, and what a goroutine still has to close.\<close>

datatype 'a copier = Copying "bytes list" | Closing "'a list"

record 'a relay =
  rl_cp :: "side \<Rightarrow> 'a copier"
  rl_out :: "side \<Rightarrow> bytes"
  rl_err :: "side \<Rightarrow> bool"
  rl_closed :: "'a list"
  rl_returned :: bool

definition new_relay :: "(side \<Rightarrow> bytes list) \<Rightarrow> 'a relay" where
  "new_relay input = \<lparr>rl_cp = \<lambda>d. Copying (input d), rl_out = \<lambda>_. [], rl_err = \<lambda>_. False, rl_closed = [],
     rl_returned = False\<rparr>"

text \<open>
  What the goroutines close, what the function closes in the end, and whether it may return before
  the goroutines have ended, as \<open>handleSOCKS\<close> does when its context is cancelled.  The write that fails
  may have written a part of its chunk.
\<close>

record 'a relay_code =
  rc_closes :: "side \<Rightarrow> 'a list"
  rc_deferred :: "'a list"
  rc_cancel :: bool

inductive relay_step :: "'a relay_code \<Rightarrow> 'a relay \<Rightarrow> 'a relay \<Rightarrow> bool"
  for code where
  r_copy: "rl_cp s d = Copying (c # cs) \<Longrightarrow>
     relay_step code s (s\<lparr>rl_cp := (rl_cp s)(d := Copying cs), rl_out := (rl_out s)(d := rl_out s d @ c)\<rparr>)"
| r_eof: "rl_cp s d = Copying [] \<Longrightarrow>
     relay_step code s (s\<lparr>rl_cp := (rl_cp s)(d := Closing (rc_closes code d))\<rparr>)"
| r_fail: "rl_cp s d = Copying cs \<Longrightarrow>
     relay_step code s (s\<lparr>rl_cp := (rl_cp s)(d := Closing (rc_closes code d)),
       rl_out := (rl_out s)(d := rl_out s d @ take n (concat (take 1 cs))), rl_err := (rl_err s)(d := True)\<rparr>)"
| r_close: "rl_cp s d = Closing (a # as) \<Longrightarrow>
     relay_step code s (s\<lparr>rl_cp := (rl_cp s)(d := Closing as), rl_closed := rl_closed s @ [a]\<rparr>)"
| r_return: "\<not> rl_returned s \<Longrightarrow> rc_cancel code \<or> (\<forall>d. rl_cp s d = Closing []) \<Longrightarrow>
     relay_step code s (s\<lparr>rl_returned := True, rl_closed := rl_closed s @ rc_deferred code\<rparr>)"

definition relay_final :: "'a relay \<Rightarrow> bool" where
  "relay_final s \<longleftrightarrow> rl_returned s \<and> (\<forall>d. rl_cp s d = Closing [])"

section \<open>What they do\<close>

text \<open>What a goroutine has closed.\<close>

definition has_closed :: "'a relay_code \<Rightarrow> 'a relay \<Rightarrow> side \<Rightarrow> 'a list" where
  "has_closed code s d =
     (case rl_cp s d of
        Copying _ \<Rightarrow> []
      | Closing as \<Rightarrow> take (length (rc_closes code d) - length as) (rc_closes code d))"

text \<open>The data of one direction.\<close>

definition data_ok :: "bytes list \<Rightarrow> 'a copier \<Rightarrow> bytes \<Rightarrow> bool \<Rightarrow> bool" where
  "data_ok chunks cp out err \<longleftrightarrow>
     (case cp of
        Copying cs \<Rightarrow> out @ concat cs = concat chunks \<and> \<not> err
      | Closing _ \<Rightarrow> prefix out (concat chunks) \<and> (\<not> err \<longrightarrow> out = concat chunks))"

definition order_ok :: "'a relay_code \<Rightarrow> 'a relay \<Rightarrow> bool" where
  "order_ok code s \<longleftrightarrow>
     (\<exists>zs \<in> shuffles (has_closed code s Up) (has_closed code s Down).
        if rl_returned s then
          (if rc_cancel code then rl_closed s \<in> shuffles zs (rc_deferred code)
           else rl_closed s = zs @ rc_deferred code)
        else rl_closed s = zs)"

definition relay_inv :: "'a relay_code \<Rightarrow> (side \<Rightarrow> bytes list) \<Rightarrow> 'a relay \<Rightarrow> bool" where
  "relay_inv code input s \<longleftrightarrow>
     (\<forall>d. data_ok (input d) (rl_cp s d) (rl_out s d) (rl_err s d)) \<and>
     (\<forall>d as. rl_cp s d = Closing as \<longrightarrow> suffix as (rc_closes code d)) \<and>
     (rl_returned s \<longrightarrow> rc_cancel code \<or> (\<forall>d. rl_cp s d = Closing [])) \<and>
     order_ok code s"

fun copier_weight :: "nat \<Rightarrow> 'a copier \<Rightarrow> nat" where
  "copier_weight n (Copying cs) = Suc (n + length cs)"
| "copier_weight n (Closing as) = length as"

definition relay_msr :: "'a relay_code \<Rightarrow> 'a relay \<Rightarrow> nat" where
  "relay_msr code s =
     copier_weight (length (rc_closes code Up)) (rl_cp s Up) +
     copier_weight (length (rc_closes code Down)) (rl_cp s Down) + (if rl_returned s then 0 else 1)"

section \<open>Every step keeps it and uses up the measure\<close>

lemma append_in_shuffles: "xs @ ys \<in> shuffles xs ys"
proof (induction xs)
  case (Cons x xs)
  then show ?case by (cases ys) (auto simp: Cons_in_shuffles_iff)
qed simp

lemma shuffles_append_left: "zs \<in> shuffles xs ys \<Longrightarrow> zs @ [a] \<in> shuffles (xs @ [a]) ys"
proof (induction xs ys arbitrary: zs rule: shuffles.induct)
  case (1 ys)
  then show ?case using append_in_shuffles [of ys "[a]"] by (simp add: shuffles_commutes)
next
  case (2 xs)
  then show ?case by simp
next
  case (3 x xs y ys)
  then show ?case by (auto simp: Cons_in_shuffles_iff)
qed

lemma shuffles_append_right: "zs \<in> shuffles xs ys \<Longrightarrow> zs @ [a] \<in> shuffles xs (ys @ [a])"
  using shuffles_append_left [of zs ys xs a] by (simp add: shuffles_commutes)

lemma suffix_ConsD: "suffix (a # as) xs \<Longrightarrow> suffix as xs"
  by (auto simp: suffix_def intro: exI [of _ "_ @ [a]"])

lemma suffix_take: "suffix (a # as) xs \<Longrightarrow> take (length xs - length as) xs = take (length xs - Suc (length as)) xs @ [a]"
  by (auto simp: suffix_def)

lemma all_sides: "(\<forall>d. P d) \<longleftrightarrow> P Up \<and> P Down"
  by (metis side.exhaust)

text \<open>A step of one goroutine that closes nothing.\<close>

lemma has_closed_silent:
  assumes "rl_cp t = (rl_cp s)(d := cp)" and "rl_cp s d = Copying cs"
    and "(\<exists>cs. cp = Copying cs) \<or> cp = Closing (rc_closes code d)"
  shows "has_closed code t = has_closed code s"
  using assms by (auto simp: has_closed_def fun_eq_iff split: copier.splits)

lemma order_ok_silent:
  assumes "order_ok code s" and "has_closed code t = has_closed code s" and "rl_returned t = rl_returned s"
    and "rl_closed t = rl_closed s"
  shows "order_ok code t"
  using assms by (simp only: order_ok_def)

lemma order_ok_close:
  assumes "order_ok code s" and "rl_cp s d = Closing (a # as)" and "suffix (a # as) (rc_closes code d)"
    and "rl_returned s \<longrightarrow> rc_cancel code"
  shows "order_ok code (s\<lparr>rl_cp := (rl_cp s)(d := Closing as), rl_closed := rl_closed s @ [a]\<rparr>)"
proof -
  let ?t = "s\<lparr>rl_cp := (rl_cp s)(d := Closing as), rl_closed := rl_closed s @ [a]\<rparr>"
  have h: "has_closed code ?t = (has_closed code s)(d := has_closed code s d @ [a])"
    using suffix_take [OF assms(3)] assms(2) by (auto simp: has_closed_def fun_eq_iff)
  obtain zs where zs: "zs \<in> shuffles (has_closed code s Up) (has_closed code s Down)"
    "if rl_returned s then rl_closed s \<in> shuffles zs (rc_deferred code) else rl_closed s = zs"
    using assms(1,4) by (auto simp: order_ok_def split: if_splits)
  have "zs @ [a] \<in> shuffles (has_closed code ?t Up) (has_closed code ?t Down)"
    using zs(1) unfolding h by (cases d) (simp_all add: shuffles_append_left shuffles_append_right)
  moreover have "if rl_returned s then rl_closed s @ [a] \<in> shuffles (zs @ [a]) (rc_deferred code)
      else rl_closed s @ [a] = zs @ [a]"
    using zs(2) by (simp add: shuffles_append_left split: if_splits)
  ultimately show ?thesis unfolding order_ok_def using assms(4)
    by (intro bexI [of _ "zs @ [a]"]) (auto split: if_splits)
qed

lemma order_ok_return:
  assumes "order_ok code s" and "\<not> rl_returned s"
  shows "order_ok code (s\<lparr>rl_returned := True, rl_closed := rl_closed s @ rc_deferred code\<rparr>)"
proof -
  have "has_closed code (s\<lparr>rl_returned := True, rl_closed := rl_closed s @ rc_deferred code\<rparr>) = has_closed code s"
    by (simp add: has_closed_def fun_eq_iff)
  moreover have "rl_closed s \<in> shuffles (has_closed code s Up) (has_closed code s Down)"
    using assms by (auto simp: order_ok_def)
  ultimately show ?thesis
    unfolding order_ok_def by (intro bexI [of _ "rl_closed s"]) (simp_all add: append_in_shuffles)
qed

lemma data_ok_update:
  assumes "\<forall>d. data_ok (input d) (rl_cp s d) (rl_out s d) (rl_err s d)" and "data_ok (input d) cp out err"
  shows "\<forall>d'. data_ok (input d') (((rl_cp s)(d := cp)) d') (((rl_out s)(d := out)) d') (((rl_err s)(d := err)) d')"
  using assms by simp

lemma relay_inv_step:
  assumes "relay_inv code input s" and "relay_step code s t"
  shows "relay_inv code input t"
proof -
  have data: "\<forall>d. data_ok (input d) (rl_cp s d) (rl_out s d) (rl_err s d)"
    and suff: "\<And>d as. rl_cp s d = Closing as \<Longrightarrow> suffix as (rc_closes code d)"
    and ret: "rl_returned s \<longrightarrow> rc_cancel code \<or> (\<forall>d. rl_cp s d = Closing [])" and ord: "order_ok code s"
    using assms(1) by (auto simp: relay_inv_def)
  show ?thesis
    using assms(2)
  proof cases
    case (r_copy d c cs)
    have "data_ok (input d) (Copying cs) (rl_out s d @ c) (rl_err s d)"
      using data [rule_format, of d] r_copy(2) by (simp add: data_ok_def)
    from data_ok_update [OF data this] have "\<forall>d. data_ok (input d) (rl_cp t d) (rl_out t d) (rl_err t d)"
      by (simp add: r_copy(1))
    moreover have "order_ok code t"
      by (rule order_ok_silent [OF ord has_closed_silent [OF _ r_copy(2), where cp = "Copying cs"]]) (simp_all add: r_copy(1))
    ultimately show ?thesis using suff ret r_copy(2) unfolding relay_inv_def by (auto simp: r_copy(1) split: if_splits)
  next
    case (r_eof d)
    have "data_ok (input d) (Closing (rc_closes code d)) (rl_out s d) (rl_err s d)"
      using data [rule_format, of d] r_eof(2) by (simp add: data_ok_def)
    from data_ok_update [OF data this] have "\<forall>d. data_ok (input d) (rl_cp t d) (rl_out t d) (rl_err t d)"
      by (simp add: r_eof(1))
    moreover have "order_ok code t"
      by (rule order_ok_silent [OF ord has_closed_silent [OF _ r_eof(2), where cp = "Closing (rc_closes code d)"]]) (simp_all add: r_eof(1))
    ultimately show ?thesis using suff ret r_eof(2) unfolding relay_inv_def by (auto simp: r_eof(1) split: if_splits)
  next
    case (r_fail d cs n)
    have "prefix (take n (concat (take 1 cs))) (concat cs)"
      by (cases cs) (auto simp: take_is_prefix intro: prefix_order.trans [OF take_is_prefix])
    then have "data_ok (input d) (Closing (rc_closes code d)) (rl_out s d @ take n (concat (take 1 cs))) True"
      using data [rule_format, of d] r_fail(2) by (auto simp: data_ok_def prefix_def) (metis append.assoc)
    from data_ok_update [OF data this] have "\<forall>d. data_ok (input d) (rl_cp t d) (rl_out t d) (rl_err t d)"
      by (simp add: r_fail(1))
    moreover have "order_ok code t"
      by (rule order_ok_silent [OF ord has_closed_silent [OF _ r_fail(2), where cp = "Closing (rc_closes code d)"]]) (simp_all add: r_fail(1))
    ultimately show ?thesis using suff ret r_fail(2) unfolding relay_inv_def by (auto simp: r_fail(1) split: if_splits)
  next
    case (r_close d a as)
    have "data_ok (input d) (Closing as) (rl_out s d) (rl_err s d)"
      using data [rule_format, of d] r_close(2) by (simp add: data_ok_def)
    from data_ok_update [OF data this] have "\<forall>d. data_ok (input d) (rl_cp t d) (rl_out t d) (rl_err t d)"
      by (simp add: r_close(1))
    moreover have "rl_returned s \<longrightarrow> rc_cancel code" using ret r_close(2) by auto
    moreover have "order_ok code t"
      unfolding r_close(1) by (rule order_ok_close [OF ord r_close(2) suff [OF r_close(2)]]) fact
    moreover have "suffix as (rc_closes code d)" using suff [OF r_close(2)] by (rule suffix_ConsD)
    ultimately show ?thesis using suff unfolding relay_inv_def by (auto simp: r_close(1) split: if_splits)
  next
    case r_return
    have "order_ok code t" unfolding r_return(1) by (rule order_ok_return [OF ord r_return(2)])
    then show ?thesis using data suff r_return(3) by (simp add: relay_inv_def r_return(1))
  qed
qed

lemma relay_msr_less:
  assumes "relay_step code s t" and "relay_inv code input s"
  shows "relay_msr code t < relay_msr code s"
proof -
  have less: "relay_msr code t < relay_msr code s"
    if "rl_cp t = (rl_cp s)(d := cp)" and "rl_returned t = rl_returned s"
      and "copier_weight (length (rc_closes code d)) cp < copier_weight (length (rc_closes code d)) (rl_cp s d)" for d cp
    using that by (cases d) (simp_all add: relay_msr_def)
  show ?thesis
    using assms(1)
  proof cases
    case (r_copy d c cs)
    then show ?thesis by (intro less [of d "Copying cs"]) simp_all
  next
    case (r_eof d)
    then show ?thesis by (intro less [of d "Closing (rc_closes code d)"]) simp_all
  next
    case (r_fail d cs n)
    then show ?thesis by (intro less [of d "Closing (rc_closes code d)"]) simp_all
  next
    case (r_close d a as)
    then show ?thesis by (intro less [of d "Closing as"]) simp_all
  qed (simp add: relay_msr_def)
qed

text \<open>There is always a step that is no failure.\<close>

lemma relay_clean_progress: "\<not> relay_final s \<Longrightarrow> \<exists>t. relay_step code s t \<and> rl_err t = rl_err s"
proof (cases "\<forall>d. rl_cp s d = Closing []")
  case True
  assume "\<not> relay_final s"
  with True have "\<not> rl_returned s" by (simp add: relay_final_def)
  with True show ?thesis by - (intro exI conjI, rule r_return, simp_all)
next
  case False
  then obtain d where d: "rl_cp s d \<noteq> Closing []" by blast
  show ?thesis
  proof (cases "rl_cp s d")
    case (Copying cs)
    show ?thesis
    proof (cases cs)
      case Nil
      with Copying show ?thesis by - (intro exI conjI, rule r_eof, simp_all)
    next
      case (Cons c cs')
      with Copying show ?thesis by - (intro exI conjI, rule r_copy, simp_all)
    qed
  next
    case (Closing as)
    with d obtain a as' where "as = a # as'" by (cases as) auto
    with Closing show ?thesis by - (intro exI conjI, rule r_close, simp_all)
  qed
qed

lemma relay_progress: "\<not> relay_final s \<Longrightarrow> \<exists>t. relay_step code s t"
  using relay_clean_progress by blast

interpretation relay: completes "relay_step code" "relay_inv code input" relay_final "relay_msr code"
  by unfold_locales (use relay_inv_step relay_msr_less relay_progress in blast)+

lemma new_relay_inv: "relay_inv code input (new_relay input)"
  by (simp add: relay_inv_def new_relay_def data_ok_def order_ok_def has_closed_def)

lemma new_relay_msr:
  "relay_msr code (new_relay input) = length (input Up) + length (input Down) +
     length (rc_closes code Up) + length (rc_closes code Down) + 3"
  by (simp add: relay_msr_def new_relay_def)

text \<open>What a run that has ended has done.\<close>

lemma relay_ended:
  assumes "(relay_step code)\<^sup>*\<^sup>* (new_relay input) s" and "relay_final s"
  shows "prefix (rl_out s d) (concat (input d))" and "\<not> rl_err s d \<Longrightarrow> rl_out s d = concat (input d)"
    and "\<exists>zs \<in> shuffles (rc_closes code Up) (rc_closes code Down).
       if rc_cancel code then rl_closed s \<in> shuffles zs (rc_deferred code) else rl_closed s = zs @ rc_deferred code"
proof -
  have "relay_inv code input s" using relay.steps_inv [OF assms(1) new_relay_inv] .
  moreover have "rl_returned s" "rl_cp s d = Closing []" for d using assms(2) by (simp_all add: relay_final_def)
  ultimately show "prefix (rl_out s d) (concat (input d))" "\<not> rl_err s d \<Longrightarrow> rl_out s d = concat (input d)"
    "\<exists>zs \<in> shuffles (rc_closes code Up) (rc_closes code Down).
       if rc_cancel code then rl_closed s \<in> shuffles zs (rc_deferred code) else rl_closed s = zs @ rc_deferred code"
    by (simp_all add: relay_inv_def data_ok_def order_ok_def has_closed_def)
qed

text \<open>Without a failure all data are copied.\<close>

lemma relay_delivers:
  "\<exists>s. (relay_step code)\<^sup>*\<^sup>* (new_relay input) s \<and> relay_final s \<and> (\<forall>d. \<not> rl_err s d \<and> rl_out s d = concat (input d))"
proof -
  have "\<exists>t. (relay_step code)\<^sup>*\<^sup>* s t \<and> relay_final t \<and> rl_err t = rl_err s" if "relay_inv code input s" for s
    using that
  proof (induction "relay_msr code s" arbitrary: s rule: less_induct)
    case less
    show ?case
    proof (cases "relay_final s")
      case False
      from relay_clean_progress [OF this] obtain t where t: "relay_step code s t" "rl_err t = rl_err s" by blast
      obtain u where "(relay_step code)\<^sup>*\<^sup>* t u" "relay_final u" "rl_err u = rl_err t"
        using less.hyps [OF relay_msr_less [OF t(1) less.prems] relay_inv_step [OF less.prems t(1)]] by blast
      with t show ?thesis by (auto intro: converse_rtranclp_into_rtranclp)
    next
      case True
      then show ?thesis by (intro exI [of _ s]) simp
    qed
  qed
  from this [OF new_relay_inv [of code input]] obtain s where
    s: "(relay_step code)\<^sup>*\<^sup>* (new_relay input) s" "relay_final s" "rl_err s = (\<lambda>_. False)"
    by (auto simp: new_relay_def)
  have "\<not> rl_err s d" for d by (simp add: s(3))
  with s(1,2) relay_ended(2) [OF s(1,2)] show ?thesis by blast
qed

end
