(* ===== verification/Tunnel.thy ===== *)
theory Tunnel
  imports ClientPoll Relay "HOL-Library.Multiset"
begin

text \<open>
  Tunnels of the client (\<open>src/dnstt-client/lib/client.go\<close>): \<open>createTunnel\<close> stacks transport, DNS
  encoding, KCP, Noise, compression and smux, and takes the stack down when a layer fails;
  \<open>Tunnel.Close\<close> takes down a complete one; \<open>TunnelPool\<close> hands tunnels out in turn.  The
  libraries below (\<open>net\<close>, KCP, smux, zstd) and the handshake are a parameter, the record
  \<open>tunnel_env\<close>: which calls succeed.  The layers that are opened and closed are recorded in order.
\<close>

section \<open>The layers\<close>

datatype layer = TransportL | DNSL | KCPL | NoiseL | CompressionL | SmuxL

datatype action = Open layer | Shut layer

text \<open>The layers that are open after some actions: those whose last action is \<open>Open\<close>.\<close>

fun still_open :: "action list \<Rightarrow> layer set" where
  "still_open [] = {}"
| "still_open (a # as) = still_open as \<union>
     (case a of Open l \<Rightarrow> if Shut l \<in> set as then {} else {l} | Shut _ \<Rightarrow> {})"

datatype remote_addr = RemoteDummy | RemoteUDP bytes

text \<open>
  What the libraries answer.  A fingerprint is the label of a uTLS ClientHelloID.  \<open>te_dialTLS\<close> is
  the first dial of \<open>NewTLSPacketConn\<close>; \<open>NewHTTPPacketConn\<close> does not fail.
\<close>

record tunnel_env =
  te_dialTLS :: "bytes option \<Rightarrow> bytes \<Rightarrow> bool"
  te_ResolveUDPAddr :: "bytes \<Rightarrow> bytes option"
  te_ListenUDP :: bool
  te_clientID :: ClientID
  te_NewConn2 :: bool
  te_conv :: u32
  te_SetMtu :: "int \<Rightarrow> bool"
  te_NewClient :: "bytes \<Rightarrow> bool"
  te_zstd :: bool
  te_smux :: bool

text \<open>The two global variables of the client that \<open>createTunnel\<close> reads.\<close>

record tunnel_options =
  to_UseCompression :: bool
  to_NumDNSSenders :: int

text \<open>Their initial values.\<close>

definition initial_options :: tunnel_options where
  "initial_options = \<lparr>to_UseCompression = False, to_NumDNSSenders = 1\<rparr>"

definition doh :: bytes where "doh = map of_char ''doh''"
definition dot :: bytes where "dot = map of_char ''dot''"
definition udp :: bytes where "udp = map of_char ''udp''"

lemma transport_names [simp]:
  "doh = [100, 111, 104]" "dot = [100, 111, 116]" "udp = [117, 100, 112]"
  by (simp_all add: doh_def dot_def udp_def)

section \<open>createTunnel\<close>

definition open_transport ::
  "tunnel_env \<Rightarrow> bytes option \<Rightarrow> bytes \<Rightarrow> bytes \<Rightarrow> err + remote_addr" where
  "open_transport env utls transportType transportArg =
     (if transportType = doh then Inr RemoteDummy
      else if transportType = dot then
        (if te_dialTLS env utls transportArg then Inr RemoteDummy else Inl Errorf)
      else if transportType = udp then
        (case te_ResolveUDPAddr env transportArg of
           None \<Rightarrow> Inl Errorf
         | Some a \<Rightarrow> if te_ListenUDP env then Inr (RemoteUDP a) else Inl Errorf)
      else Inl Errorf)"

text \<open>\<open>NewDNSPacketConnWithOptions\<close>: the connection and the number of senders it starts.\<close>

definition NewDNSPacketConnWithOptions :: "ClientID \<Rightarrow> Name \<Rightarrow> int \<Rightarrow> DNSPacketConn \<times> int" where
  "NewDNSPacketConnWithOptions clientID domain numSenders =
     (let numSenders = (if numSenders < 1 then 1 else numSenders)
      in (\<lparr>dc_clientID = clientID, dc_domain = domain, dc_pollChan = 0,
           dc_conn = NewQueuePacketConn (ClientAddr clientID)\<rparr>, numSenders))"

record kcp_conn =
  kc_remoteAddr :: remote_addr
  kc_streamMode :: bool
  kc_noDelay :: "int \<times> int \<times> int \<times> int"
  kc_window :: "int \<times> int"
  kc_mtu :: int
  kc_conv :: u32

record smux_config =
  sm_Version :: int
  sm_KeepAliveTimeout :: int
  sm_MaxStreamBuffer :: int
  sm_MaxReceiveBuffer :: int
  sm_MaxFrameSize :: int

definition idleTimeout :: int where "idleTimeout = 120 * 1000 * ms"

text \<open>
  \<open>Tunnel\<close>; the session is its configuration and whether it runs over the compressed stream.
  \<open>createTunnel\<close> sets all three layers.
\<close>

record Tunnel =
  tn_pconn :: "(DNSPacketConn \<times> int) option"
  tn_kcpConn :: "kcp_conn option"
  tn_sess :: "(smux_config \<times> bool) option"
  tn_conv :: u32

definition configured_kcp :: "remote_addr \<Rightarrow> int \<Rightarrow> u32 \<Rightarrow> kcp_conn" where
  "configured_kcp remoteAddr mtu conv =
     \<lparr>kc_remoteAddr = remoteAddr, kc_streamMode = True, kc_noDelay = (1, 10, 2, 1),
      kc_window = (256, 256), kc_mtu = mtu, kc_conv = conv\<rparr>"

definition smuxConfig :: smux_config where
  "smuxConfig = \<lparr>sm_Version = 2, sm_KeepAliveTimeout = idleTimeout,
     sm_MaxStreamBuffer = 4 * 1024 * 1024, sm_MaxReceiveBuffer = 4 * 1024 * 1024, sm_MaxFrameSize = 32768\<rparr>"

text \<open>The pacing function given to the DNS connection: a congestion score made of KCP's SRTT.\<close>

definition kcpStateFunc :: "32 word \<Rightarrow> int" where
  "kcpStateFunc srtt = (if sint srtt < 0 then 0 else quo (sint srtt) 50)"

definition createTunnel ::
  "tunnel_options \<Rightarrow> tunnel_env \<Rightarrow> bytes option \<Rightarrow> bytes \<Rightarrow> Name \<Rightarrow> int \<Rightarrow> bytes \<Rightarrow> bytes \<Rightarrow>
     action list \<times> (err + Tunnel)" where
  "createTunnel opts env utls pubkey domain mtu transportType transportArg =
     (case open_transport env utls transportType transportArg of
        Inl e \<Rightarrow> ([], Inl e)
      | Inr remoteAddr \<Rightarrow>
          let dnsConn = NewDNSPacketConnWithOptions (te_clientID env) domain (to_NumDNSSenders opts);
              as = [Open TransportL, Open DNSL]
          in if \<not> te_NewConn2 env then (as @ [Shut DNSL], Inl Errorf)
             else
               let as = as @ [Open KCPL];
                   kcpConn = configured_kcp remoteAddr mtu (te_conv env)
               in if \<not> te_SetMtu env mtu then (as @ [Shut KCPL, Shut DNSL], Inl Errorf)
                  else if \<not> te_NewClient env pubkey then (as @ [Shut KCPL, Shut DNSL], Inl Errorf)
                  else
                    let as = as @ [Open NoiseL]
                    in if to_UseCompression opts \<and> \<not> te_zstd env then (as @ [Shut KCPL, Shut DNSL], Inl Errorf)
                       else
                         let as = (if to_UseCompression opts then as @ [Open CompressionL] else as)
                         in if \<not> te_smux env then (as @ [Shut KCPL, Shut DNSL], Inl Errorf)
                            else (as @ [Open SmuxL],
                                  Inr \<lparr>tn_pconn = Some dnsConn, tn_kcpConn = Some kcpConn,
                                       tn_sess = Some (smuxConfig, to_UseCompression opts),
                                       tn_conv = te_conv env\<rparr>))"

text \<open>
  \<open>Tunnel.Close\<close>.  \<open>smux.Session.Close\<close> also closes the stream below it, compressed or not, and
  that is the Noise socket, which closes KCP's connection; neither of these, nor
  \<open>kcp.UDPSession.Close\<close> for a connection it was given, closes the packet connection below.  The
  \<open>Close\<close> of the DNS connection is the one of the \<open>QueuePacketConn\<close> it embeds.
\<close>

definition Tunnel_Close :: "Tunnel \<Rightarrow> action list" where
  "Tunnel_Close t =
     (case tn_sess t of
        None \<Rightarrow> []
      | Some (_, compressed) \<Rightarrow>
          [Shut SmuxL] @ (if compressed then [Shut CompressionL] else []) @ [Shut NoiseL, Shut KCPL]) @
     (case tn_kcpConn t of None \<Rightarrow> [] | Some _ \<Rightarrow> [Shut KCPL]) @
     (case tn_pconn t of None \<Rightarrow> [] | Some _ \<Rightarrow> [Shut DNSL])"

section \<open>TunnelPool\<close>

record TunnelPool =
  tp_tunnels :: "Tunnel list"
  tp_next :: u64

definition NewTunnelPool :: TunnelPool where
  "NewTunnelPool = \<lparr>tp_tunnels = [], tp_next = 0\<rparr>"

definition pool_Add :: "Tunnel \<Rightarrow> TunnelPool \<Rightarrow> TunnelPool" where
  "pool_Add t p = p\<lparr>tp_tunnels := tp_tunnels p @ [t]\<rparr>"

definition pool_Get :: "TunnelPool \<Rightarrow> Tunnel option \<times> TunnelPool" where
  "pool_Get p =
     (if length (tp_tunnels p) = 0 then (None, p)
      else
        let p' = p\<lparr>tp_next := tp_next p + 1\<rparr>;
            idx = tp_next p' - 1
        in (Some (tp_tunnels p ! unat (idx mod of_nat (length (tp_tunnels p)))), p'))"

definition pool_Size :: "TunnelPool \<Rightarrow> nat" where
  "pool_Size p = length (tp_tunnels p)"

definition pool_Close :: "TunnelPool \<Rightarrow> action list \<times> TunnelPool" where
  "pool_Close p = (concat (map Tunnel_Close (tp_tunnels p)), p\<lparr>tp_tunnels := []\<rparr>)"

text \<open>
  The loop that fills a pool with \<open>numTunnels\<close> tunnels, in which the failures are skipped;
  \<open>create i\<close> is the \<open>i\<close>-th result of \<open>createTunnel\<close>.
\<close>

fun fill_pool :: "(nat \<Rightarrow> err + Tunnel) \<Rightarrow> nat \<Rightarrow> nat \<Rightarrow> TunnelPool \<Rightarrow> TunnelPool" where
  "fill_pool create i 0 p = p"
| "fill_pool create i (Suc n) p =
     (case create i of
        Inl _ \<Rightarrow> fill_pool create (Suc i) n p
      | Inr t \<Rightarrow> fill_pool create (Suc i) n (pool_Add t p))"

section \<open>Streams\<close>

text \<open>
  \<open>handle\<close>: one goroutine copies from the local connection to the stream, the other one back.
  What each closes when its copy ends depends on no error; the number \<open>k\<close> says how many closings of
  the first one come before that of the other.  The errors of the copies are only logged, since the
  variable \<open>err\<close> that they set is a new one in each goroutine: the result is the error of
  \<open>OpenStream\<close>, if any.
\<close>

datatype stream_action = LocalCloseRead | LocalCloseWrite | StreamClose | LocalClose

definition handle_code :: "stream_action relay_code" where
  "handle_code = \<lparr>rc_closes = case_side [LocalCloseRead, StreamClose] [LocalCloseWrite],
     rc_deferred = [StreamClose], rc_cancel = False\<rparr>"

definition handle :: "err option \<Rightarrow> nat \<Rightarrow> err option \<times> stream_action list" where
  "handle openStream k =
     (case openStream of
        Some _ \<Rightarrow> (Some Errorf, [])
      | None \<Rightarrow>
          let up = [LocalCloseRead, StreamClose]; down = [LocalCloseWrite]
          in (None, take k up @ down @ drop k up @ [StreamClose]))"

text \<open>These are the orders in which the goroutines can do it.\<close>

lemma handle_orders:
  assumes "(relay_step handle_code)\<^sup>*\<^sup>* (new_relay input) s" and "relay_final s"
  shows "\<exists>k. rl_closed s = snd (handle None k)"
proof -
  obtain zs where zs: "zs \<in> shuffles [LocalCloseRead, StreamClose] [LocalCloseWrite]"
    "rl_closed s = zs @ [StreamClose]"
    using relay_ended(3) [OF assms] unfolding handle_code_def relay_code.simps side.case if_False by blast
  have "shuffles [LocalCloseRead, StreamClose] [LocalCloseWrite] =
      {[LocalCloseRead, StreamClose, LocalCloseWrite], [LocalCloseRead, LocalCloseWrite, StreamClose],
       [LocalCloseWrite, LocalCloseRead, StreamClose]}"
    by (simp add: insert_commute)
  with zs(1) have "zs @ [StreamClose] = snd (handle None 0) \<or> zs @ [StreamClose] = snd (handle None 1) \<or>
      zs @ [StreamClose] = snd (handle None 2)"
    by (auto simp: handle_def)
  with zs(2) show ?thesis by (elim disjE) (rule exI, simp)+
qed

definition handleStandalone ::
  "(Tunnel \<Rightarrow> err option) \<Rightarrow> nat \<Rightarrow> TunnelPool \<Rightarrow> stream_action list \<times> TunnelPool" where
  "handleStandalone openStream k pool =
     (case pool_Get pool of
        (None, pool) \<Rightarrow> ([LocalClose], pool)
      | (Some tunnel, pool) \<Rightarrow> (snd (handle (openStream tunnel) k) @ [LocalClose], pool))"

section \<open>StartStandalone\<close>

text \<open>
  What \<open>StartStandalone\<close> does before its accept loop, and the accept loop's handling of the
  connections that come until the shutdown.  \<open>listen\<close> is whether the address can be listened on.
\<close>

definition standalone_setup ::
  "(Name \<Rightarrow> int \<Rightarrow> nat \<Rightarrow> err + Tunnel) \<Rightarrow> bool \<Rightarrow> int \<Rightarrow> bytes \<Rightarrow> err + TunnelPool" where
  "standalone_setup create listen numTunnels domainStr =
     (let numTunnels = (if numTunnels < 1 then 1 else numTunnels)
      in bindE (ParseName domainStr) (\<lambda>domain.
           let mtu = client_mtu domain
           in if mtu < 80 then Inl Errorf
              else
                let pool = fill_pool (create domain mtu) 0 (nat numTunnels) NewTunnelPool
                in if pool_Size pool = 0 then Inl Errorf
                   else if \<not> listen then Inl Errorf
                   else Inr pool))"

fun accept_all ::
  "((Tunnel \<Rightarrow> err option) \<times> nat) list \<Rightarrow> TunnelPool \<Rightarrow> stream_action list list \<times> TunnelPool" where
  "accept_all [] pool = ([], pool)"
| "accept_all ((openStream, k) # conns) pool =
     (let (as, pool) = handleStandalone openStream k pool;
          (ass, pool) = accept_all conns pool
      in (as # ass, pool))"

definition StartStandalone ::
  "(Name \<Rightarrow> int \<Rightarrow> nat \<Rightarrow> err + Tunnel) \<Rightarrow> bool \<Rightarrow> int \<Rightarrow> bytes \<Rightarrow>
     ((Tunnel \<Rightarrow> err option) \<times> nat) list \<Rightarrow> err + stream_action list list \<times> action list" where
  "StartStandalone create listen numTunnels domainStr conns =
     bindE (standalone_setup create listen numTunnels domainStr) (\<lambda>pool.
       let (ass, pool) = accept_all conns pool in Inr (ass, fst (pool_Close pool)))"

section \<open>Round robin\<close>

text \<open>A number of calls of \<open>Get\<close> in a row.\<close>

fun gets :: "nat \<Rightarrow> TunnelPool \<Rightarrow> Tunnel option list \<times> TunnelPool" where
  "gets 0 p = ([], p)"
| "gets (Suc n) p = (let (t, p') = pool_Get p; (ts, p'') = gets n p' in (t # ts, p''))"

lemma pool_Get_nonempty:
  assumes "tp_tunnels p \<noteq> []" and "length (tp_tunnels p) < 2 ^ 64"
  shows "pool_Get p = (Some (tp_tunnels p ! (unat (tp_next p) mod length (tp_tunnels p))),
     p\<lparr>tp_next := tp_next p + 1\<rparr>)"
proof -
  have "unat (of_nat (length (tp_tunnels p)) :: u64) = length (tp_tunnels p)"
    using assms(2) by (simp add: unat_of_nat take_bit_eq_mod)
  then show ?thesis using assms(1) by (simp add: pool_Get_def Let_def unat_mod_distrib)
qed

lemma gets_nth:
  assumes "tp_tunnels p \<noteq> []" and "length (tp_tunnels p) < 2 ^ 64" and "unat (tp_next p) + n < 2 ^ 64"
  shows "fst (gets n p) =
     map (\<lambda>i. Some (tp_tunnels p ! ((unat (tp_next p) + i) mod length (tp_tunnels p)))) [0..<n]"
  using assms
proof (induction n arbitrary: p)
  case (Suc n)
  let ?p = "p\<lparr>tp_next := tp_next p + 1\<rparr>"
  have nxt: "unat (tp_next p + 1) = Suc (unat (tp_next p))"
    using Suc.prems(3) by (simp add: unat_word_ariths(1))
  have "fst (gets n ?p) =
      map (\<lambda>i. Some (tp_tunnels p ! ((Suc (unat (tp_next p)) + i) mod length (tp_tunnels p)))) [0..<n]"
    using Suc.IH [of ?p] Suc.prems nxt by simp
  also have "\<dots> = map (\<lambda>i. Some (tp_tunnels p ! ((unat (tp_next p) + i) mod length (tp_tunnels p)))) [Suc 0..<Suc n]"
    by (simp add: map_Suc_upt [symmetric] del: upt_Suc)
  finally show ?case
    using Suc.prems by (simp add: pool_Get_nonempty split_beta upt_conv_Cons del: upt_Suc)
qed simp

lemma mset_rotation:
  "mset (map (\<lambda>i. xs ! ((a + i) mod length xs)) [0..<k * length xs]) = repeat_mset k (mset xs)"
proof (induction k)
  case (Suc k)
  let ?f = "\<lambda>i. xs ! ((a + i) mod length xs)" and ?m = "length xs"
  have "map ?f [k * ?m..<k * ?m + ?m] = map (\<lambda>i. ?f (i + k * ?m)) [0..<?m]"
    by (rule nth_equalityI) (simp_all add: add.commute)
  also have "\<dots> = rotate a xs"
    by (rule nth_equalityI) (simp_all add: nth_rotate add.assoc [symmetric])
  finally have "mset (map ?f [k * ?m..<k * ?m + ?m]) = mset (rotate a xs)" by simp
  also have "\<dots> = mset xs"
    unfolding rotate_drop_take by (metis append_take_drop_id mset_append union_commute)
  finally have "mset (map ?f [k * ?m..<k * ?m + ?m]) = mset xs" .
  moreover have "[0..<Suc k * ?m] = [0..<k * ?m] @ [k * ?m..<k * ?m + ?m]"
    using upt_add_eq_append [of 0 "k * ?m" ?m] by (simp add: add.commute)
  ultimately show ?case using Suc.IH by (simp add: add.commute)
qed simp

section \<open>Properties\<close>

text \<open>
  Round robin.  Until the 64-bit counter wraps around, the calls of \<open>Get\<close> go through the
  tunnels of the pool in their order, again and again from where the counter stands; so a number of
  calls that is a multiple of the size of the pool gives each tunnel out equally often.
\<close>

theorem pool_round_robin:
  assumes "tp_tunnels p \<noteq> []" and "length (tp_tunnels p) < 2 ^ 64" and "unat (tp_next p) + n < 2 ^ 64"
  shows "fst (gets n p) =
       map (\<lambda>i. Some (tp_tunnels p ! ((unat (tp_next p) + i) mod length (tp_tunnels p)))) [0..<n] \<and>
     (\<forall>k. n = k * length (tp_tunnels p) \<longrightarrow>
        mset (fst (gets n p)) = repeat_mset k (mset (map Some (tp_tunnels p))))"
proof -
  note g = gets_nth [OF assms]
  moreover have "mset (fst (gets n p)) = repeat_mset k (mset (map Some (tp_tunnels p)))"
    if "n = k * length (tp_tunnels p)" for k
  proof -
    have "fst (gets n p) = map (\<lambda>i. map Some (tp_tunnels p) !
        ((unat (tp_next p) + i) mod length (map Some (tp_tunnels p)))) [0..<k * length (map Some (tp_tunnels p))]"
      using g that assms(1) by simp
    then show ?thesis by (simp only: mset_rotation)
  qed
  ultimately show ?thesis by blast
qed

definition bare_tunnel :: "u32 \<Rightarrow> Tunnel" where
  "bare_tunnel conv = \<lparr>tn_pconn = None, tn_kcpConn = None, tn_sess = None, tn_conv = conv\<rparr>"

theorem pool_round_robin_witness:
  "fst (gets 4 \<lparr>tp_tunnels = [bare_tunnel 1, bare_tunnel 2], tp_next = 3\<rparr>) =
     [Some (bare_tunnel 2), Some (bare_tunnel 1), Some (bare_tunnel 2), Some (bare_tunnel 1)]"
proof -
  let ?p = "\<lparr>tp_tunnels = [bare_tunnel 1, bare_tunnel 2], tp_next = 3\<rparr>"
  have p: "tp_tunnels ?p \<noteq> []" "length (tp_tunnels ?p) < 2 ^ 64" "unat (tp_next ?p) + 4 < 2 ^ 64" by simp_all
  have "[0..<4] = [0, 1, 2, 3 :: nat]" by (simp add: upt_rec)
  then show ?thesis using conjunct1 [OF pool_round_robin [OF p]] by (simp flip: numeral_2_eq_2)
qed


section \<open>The senders of a closed tunnel\<close>

lemma OutgoingQueue_closed:
  "OutgoingQueue a now c = Inr (q, k) \<Longrightarrow> qc_closed k = qc_closed c"
  by (auto simp: OutgoingQueue_def result_simps)

text \<open>A state in which the primary sender has no packet to send, and one iteration from it.\<close>

definition idle :: "net_addr \<Rightarrow> err option \<Rightarrow> sender \<times> DNSPacketConn \<Rightarrow> bool" where
  "idle addr closed = (\<lambda>(s, c). sn_senderID s = 0 \<and> conn_inv (dc_conn c) \<and> outgoing (dc_conn c) addr = [] \<and>
     qc_closed (dc_conn c) = closed)"

lemma idle_polls:
  assumes "idle addr closed (s, c)"
  shows "\<exists>t0 t1 fired y. sendLoop_iter addr numSenders state (s, c) t0 t1 [] fired y \<and> idle addr closed y"
proof -
  have inv: "conn_inv (dc_conn c)" using assms by (simp add: idle_def)
  obtain r k where k: "OutgoingQueue addr 0 (dc_conn c) = Inr (rec_SendQueue r, k)" "conn_inv k"
    "peer (qc_remotes k) addr = Some r" "outgoing k = outgoing (dc_conn c)"
    using OutgoingQueue_ok [OF inv] by blast
  let ?c = "c\<lparr>dc_conn := k\<rparr>"
  have empty: "fst (conn_recv (rec_SendQueue r) (dc_conn ?c)) = None"
    using conn_recv_outgoing [OF k(2,3)] k(4) assms by (auto simp: idle_def)
  let ?t1 = "max 0 (sn_pollTimer s)"
  have "\<exists>fired. poll_select (pacing_triggered numSenders state 0 s) (sn_senderID s = 0) (rec_SendQueue r)
      (sn_pollTimer s) ?t1 ?c ?c [] fired ?c"
  proof (cases "pacing_triggered numSenders state 0 s")
    case True
    from paced [OF empty True] show ?thesis by (rule exI)
  next
    case False
    have "sn_senderID s = 0" using assms by (simp add: idle_def)
    have "sn_pollTimer s \<le> ?t1" by simp
    from poll_select.expired [OF empty False \<open>sn_senderID s = 0\<close> this] show ?thesis by (rule exI)
  qed
  then obtain fired where "poll_select (pacing_triggered numSenders state 0 s) (sn_senderID s = 0)
      (rec_SendQueue r) (sn_pollTimer s) ?t1 ?c ?c [] fired ?c" by blast
  from sendLoop_iter.intros [OF k(1) _ refl this]
  have "sendLoop_iter addr numSenders state (s, c) 0 ?t1 [] fired
      (reset_timers (pacing_triggered numSenders state 0 s) fired [] ?t1 s, displace_poll [] ?c)" by simp
  moreover have "idle addr closed
      (reset_timers (pacing_triggered numSenders state 0 s) fired [] ?t1 s, displace_poll [] ?c)"
    using assms k OutgoingQueue_closed [OF k(1)] by (auto simp: idle_def reset_timers_def displace_poll_def Let_def)
  ultimately show ?thesis by blast
qed

text \<open>One iteration of the primary sender that sends a poll, on a connection that has been closed.\<close>

definition polls_though_closed ::
  "net_addr \<Rightarrow> nat \<Rightarrow> int option \<Rightarrow> sender \<times> DNSPacketConn \<Rightarrow> sender \<times> DNSPacketConn \<Rightarrow> bool" where
  "polls_though_closed addr numSenders state x y \<longleftrightarrow>
     qc_closed (dc_conn (snd x)) \<noteq> None \<and>
     (\<exists>t0 t1 fired. sendLoop_iter addr numSenders state x t0 t1 [] fired y)"



end
