(* ===== verification/SocksPools.thy ===== *)
theory SocksPools
  imports Tunnel Noise
begin

text \<open>
  The pluggable transport mode of the client (\<open>acceptLoop\<close> of \<open>src/dnstt-client/lib/client.go\<close>): the
  arguments of a SOCKS request say which tunnels it needs, and one pool of tunnels is kept for each
  configuration.
\<close>

section \<open>The arguments of a request\<close>

record poolKey =
  pk_transportType :: bytes
  pk_transportArg :: bytes
  pk_pubkey :: bytes
  pk_domain :: bytes

record socks_config =
  sc_key :: poolKey
  sc_pubkey :: bytes
  sc_domain :: Name
  sc_mtu :: int

text \<open>The first of the three transports that is among the arguments.\<close>

definition arg_pubkey :: bytes where "arg_pubkey = map of_char ''pubkey''"
definition arg_domain :: bytes where "arg_domain = map of_char ''domain''"

definition transport_arg :: "(bytes \<Rightarrow> bytes option) \<Rightarrow> (bytes \<times> bytes) option" where
  "transport_arg args =
     (case args doh of
        Some a \<Rightarrow> Some (doh, a)
      | None \<Rightarrow> (case args dot of
                   Some a \<Rightarrow> Some (dot, a)
                 | None \<Rightarrow> (case args udp of Some a \<Rightarrow> Some (udp, a) | None \<Rightarrow> None)))"

text \<open>An error stands for \<open>Reject\<close>.\<close>

definition parse_args :: "(bytes \<Rightarrow> bytes option) \<Rightarrow> err + socks_config" where
  "parse_args args =
     (case transport_arg args of
        None \<Rightarrow> Inl Errorf
      | Some (transportType, transportArg) \<Rightarrow>
          (case args arg_pubkey of
             None \<Rightarrow> Inl Errorf
           | Some pubkeyStr \<Rightarrow>
               bindE (DecodeKey pubkeyStr) (\<lambda>pubkey.
                 case args arg_domain of
                   None \<Rightarrow> Inl Errorf
                 | Some domainStr \<Rightarrow>
                     bindE (ParseName domainStr) (\<lambda>domain.
                       let mtu = client_mtu domain
                       in if mtu < 80 then Inl Errorf
                          else Inr \<lparr>sc_key = \<lparr>pk_transportType = transportType, pk_transportArg = transportArg,
                                              pk_pubkey = pubkeyStr, pk_domain = domainStr\<rparr>,
                                    sc_pubkey = pubkey, sc_domain = domain, sc_mtu = mtu\<rparr>))))"

section \<open>One request\<close>

type_synonym tunnel_pools = "poolKey \<Rightarrow> TunnelPool option"

text \<open>What becomes of a request: rejected, granted over a tunnel, or ended by an error of \<open>Grant\<close>.\<close>

datatype verdict = Rejected | Granted Tunnel | GrantFailed

text \<open>
  The pool of a configuration is made when it is first asked for; \<open>create cfg i\<close> is the \<open>i\<close>-th
  result of \<open>createTunnel\<close> then.
\<close>

definition pool_for ::
  "(socks_config \<Rightarrow> nat \<Rightarrow> err + Tunnel) \<Rightarrow> nat \<Rightarrow> socks_config \<Rightarrow> tunnel_pools \<Rightarrow> TunnelPool \<times> tunnel_pools" where
  "pool_for create numTunnels cfg pools =
     (case pools (sc_key cfg) of
        Some pool \<Rightarrow> (pool, pools)
      | None \<Rightarrow>
          let pool = fill_pool (create cfg) 0 numTunnels NewTunnelPool
          in (pool, pools(sc_key cfg \<mapsto> pool)))"

definition handle_request ::
  "(socks_config \<Rightarrow> nat \<Rightarrow> err + Tunnel) \<Rightarrow> nat \<Rightarrow> bool \<Rightarrow> (bytes \<Rightarrow> bytes option) \<Rightarrow> tunnel_pools \<Rightarrow>
     verdict \<times> tunnel_pools" where
  "handle_request create numTunnels grant args pools =
     (case parse_args args of
        Inl _ \<Rightarrow> (Rejected, pools)
      | Inr cfg \<Rightarrow>
          (case pool_for create numTunnels cfg pools of
             (pool, pools) \<Rightarrow>
               if pool_Size pool = 0 then (Rejected, pools)
               else case pool_Get pool of
                   (None, _) \<Rightarrow> (Rejected, pools)
                 | (Some tunnel, pool) \<Rightarrow>
                     (if grant then Granted tunnel else GrantFailed, pools(sc_key cfg \<mapsto> pool))))"

text \<open>
  The requests of a run, each with the results of \<open>createTunnel\<close> at its time and of \<open>Grant\<close>, and
  what is closed at the end.
\<close>

type_synonym request = "(socks_config \<Rightarrow> nat \<Rightarrow> err + Tunnel) \<times> bool \<times> (bytes \<Rightarrow> bytes option)"

fun requests :: "nat \<Rightarrow> request list \<Rightarrow> tunnel_pools \<Rightarrow> verdict list \<times> tunnel_pools" where
  "requests numTunnels [] pools = ([], pools)"
| "requests numTunnels ((create, grant, args) # rs) pools =
     (let (v, pools') = handle_request create numTunnels grant args pools;
          (vs, pools'') = requests numTunnels rs pools'
      in (v # vs, pools''))"

section \<open>Lemmas\<close>

text \<open>The key determines the configuration.\<close>

lemma same_key:
  assumes "parse_args a = Inr cfg" and "parse_args b = Inr cfg'" and "sc_key cfg = sc_key cfg'"
  shows "cfg = cfg'"
  using assms
  by (auto simp: parse_args_def Let_def result_simps split: option.splits prod.splits if_splits)

lemma fill_pool_fails: "\<forall>j. isl (create j) \<Longrightarrow> fill_pool create i n p = p"
proof (induction create i n p rule: fill_pool.induct)
  case (2 create i n p)
  from 2(3) have "isl (create i)" by blast
  then obtain e where "create i = Inl e" by (auto simp: isl_def)
  with 2(1,3) show ?case by simp
qed simp

text \<open>A pool without tunnels stays as it is, whatever is requested.\<close>

lemma empty_pool_step:
  assumes "pools key = Some pool" and "tp_tunnels pool = []"
  shows "snd (handle_request create n grant args pools) key = Some pool"
proof (cases "parse_args args")
  case (Inr cfg)
  show ?thesis
  proof (cases "sc_key cfg = key")
    case True
    with assms Inr show ?thesis by (simp add: handle_request_def pool_for_def pool_Size_def)
  next
    case False
    with assms Inr show ?thesis
      by (auto simp: handle_request_def pool_for_def Let_def split: option.splits prod.splits)
  qed
qed (simp add: handle_request_def assms)

lemma empty_pool_requests:
  "pools key = Some pool \<Longrightarrow> tp_tunnels pool = [] \<Longrightarrow> snd (requests n rs pools) key = Some pool"
proof (induction rs arbitrary: pools)
  case (Cons r rs)
  obtain create grant args where r: "r = (create, grant, args)" by (cases r)
  let ?p = "snd (handle_request create n grant args pools)"
  have "?p key = Some pool" using empty_pool_step Cons.prems .
  then have "snd (requests n rs ?p) key = Some pool" using Cons.prems(2) by (rule Cons.IH)
  then show ?case by (simp add: r split_beta)
qed simp

section \<open>Properties\<close>

text \<open>
  A configuration that fails once fails for good.  When the first request for a configuration
  finds no tunnel that can be created, its empty pool is kept: every later request for the same
  configuration is rejected, whatever other requests come in between and although its tunnels could
  be created by then.
\<close>

theorem empty_pool_is_kept:
  assumes "parse_args args = Inr cfg" and "pools (sc_key cfg) = None" and "\<forall>i. isl (create cfg i)"
    and "parse_args args' = Inr cfg'" and "sc_key cfg' = sc_key cfg"
  shows "fst (handle_request create' n grant' args'
      (snd (requests n rs (snd (handle_request create n grant args pools))))) = Rejected"
proof -
  have empty: "fill_pool (create cfg) 0 n NewTunnelPool = NewTunnelPool" using assms(3) by (rule fill_pool_fails)
  have "snd (handle_request create n grant args pools) (sc_key cfg) = Some NewTunnelPool"
    using assms(1,2) empty
    by (simp add: handle_request_def pool_for_def Let_def pool_Size_def) (simp add: NewTunnelPool_def)
  moreover have "tp_tunnels NewTunnelPool = []" by (simp add: NewTunnelPool_def)
  ultimately have "snd (requests n rs (snd (handle_request create n grant args pools))) (sc_key cfg) = Some NewTunnelPool"
    by (rule empty_pool_requests)
  with assms(4,5) show ?thesis
    by (simp add: handle_request_def pool_for_def pool_Size_def NewTunnelPool_def)
qed

text \<open>The arguments of a request over UDP for the domain \<open>t\<close>.\<close>

definition udp_args :: "bytes \<Rightarrow> bytes option" where
  "udp_args = [udp \<mapsto> [57], arg_pubkey \<mapsto> hex_encode (replicate 32 1), arg_domain \<mapsto> [116]]"

lemma udp_args_ok:
  "parse_args udp_args = Inr \<lparr>sc_key = \<lparr>pk_transportType = udp, pk_transportArg = [57],
     pk_pubkey = hex_encode (replicate 32 1), pk_domain = [116]\<rparr>,
     sc_pubkey = replicate 32 1, sc_domain = [[116]], sc_mtu = 142\<rparr>"
proof -
  have "ParseName [116] = Inr [[116]]"
    by (simp add: ParseName_def trimSuffixByte_def valid_name_def valid_label_def name_octets_def)
  moreover have "client_mtu [[116]] = 142"
    by (simp add: client_mtu_def dnsNameCapacity_def quo_def numPadding_def Let_def)
  moreover have "DecodeKey (hex_encode (replicate 32 1)) = Inr (replicate 32 1)"
    by (simp add: DecodeKey_def KeyLen_def)
  ultimately show ?thesis
    by (simp add: parse_args_def transport_arg_def udp_args_def arg_pubkey_def arg_domain_def)
qed

theorem empty_pool_is_kept_witness:
  "fst (handle_request (\<lambda>_ _. Inr (bare_tunnel 1)) 8 True udp_args
      (snd (requests 8 [] (snd (handle_request (\<lambda>_ _. Inl Errorf) 8 True udp_args Map.empty))))) = Rejected \<and>
   fst (handle_request (\<lambda>_ _. Inr (bare_tunnel 1)) 8 True udp_args Map.empty) \<noteq> Rejected"
proof
  show "fst (handle_request (\<lambda>_ _. Inr (bare_tunnel 1)) 8 True udp_args
      (snd (requests 8 [] (snd (handle_request (\<lambda>_ _. Inl Errorf) 8 True udp_args Map.empty))))) = Rejected"
    by (rule empty_pool_is_kept [OF udp_args_ok _ _ udp_args_ok]) simp_all
  have "fill_pool (\<lambda>_. Inr (bare_tunnel 1)) 0 8 NewTunnelPool = \<lparr>tp_tunnels = replicate 8 (bare_tunnel 1), tp_next = 0\<rparr>"
    by (simp add: NewTunnelPool_def pool_Add_def numeral_eq_Suc)
  then show "fst (handle_request (\<lambda>_ _. Inr (bare_tunnel 1)) 8 True udp_args Map.empty) \<noteq> Rejected"
    unfolding handle_request_def udp_args_ok by (simp add: pool_for_def pool_Get_def pool_Size_def Let_def)
qed

end
