(* ===== verification/Transport.thy ===== *)
theory Transport
  imports SocksPools
begin

text \<open>
  The client as a pluggable transport (\<open>Start\<close> and \<open>acceptLoop\<close> of \<open>src/dnstt-client/lib/client.go\<close>): the
  methods that the parent process asks for, the loop that accepts SOCKS requests, and what is closed
  at the end.  The pluggable transport library is a parameter.
\<close>

section \<open>Start\<close>

text \<open>What the parent process is told.\<close>

datatype client_report = Cmethod bytes | CmethodError bytes | CmethodsDone | ProxyError

text \<open>
  Whether a proxy is asked for and the names of the methods, unless the setup fails, and whether the
  address can be listened on for the method with a number.
\<close>

record transport_env =
  tr_ClientSetup :: "(bool \<times> bytes list) option"
  tr_ListenSocks :: "nat \<Rightarrow> bool"

definition dnstt :: bytes where
  "dnstt = map of_char ''dnstt''"

text \<open>The loop over the methods: the reports, and the numbers of those that are listened for.\<close>

fun listen_all :: "transport_env \<Rightarrow> nat \<Rightarrow> bytes list \<Rightarrow> client_report list \<times> nat list" where
  "listen_all env i [] = ([], [])"
| "listen_all env i (methodName # methodNames) =
     (let (reports, listeners) = listen_all env (Suc i) methodNames
      in if methodName = dnstt then
           (if \<not> tr_ListenSocks env i then (CmethodError methodName # reports, listeners)
            else (Cmethod methodName # reports, i # listeners))
         else (CmethodError methodName # reports, listeners))"

text \<open>How \<open>Start\<close> goes on: it returns, the program ends, or it serves until a signal comes.\<close>

datatype start_outcome =
    StartReturns "client_report list"
  | StartFatal
  | StartServes "client_report list" bytes int "nat list"

definition Start_transport :: "transport_env \<Rightarrow> nat \<Rightarrow> bytes \<Rightarrow> int \<Rightarrow> start_outcome" where
  "Start_transport env nargs listenAddr numTunnels =
     (let listenAddr = (if listenAddr = [] then map of_char ''127.0.0.1:0'' else listenAddr);
          numTunnels = (if numTunnels < 1 then 1 else numTunnels)
      in if nargs \<noteq> 0 then StartReturns []
         else case tr_ClientSetup env of
             None \<Rightarrow> StartFatal
           | Some (proxy, methodNames) \<Rightarrow>
               if proxy then StartReturns [ProxyError]
               else
                 let (reports, listeners) = listen_all env 0 methodNames
                 in StartServes (reports @ [CmethodsDone]) listenAddr numTunnels listeners)"

section \<open>acceptLoop\<close>

text \<open>
  The results of \<open>AcceptSocks\<close>.  The loop ends with the first error that is not temporary, when the
  listener has been closed for example, and then closes all pools.
\<close>

definition close_pools :: "tunnel_pools \<Rightarrow> poolKey \<Rightarrow> action list" where
  "close_pools pools key = (case pools key of None \<Rightarrow> [] | Some pool \<Rightarrow> fst (pool_Close pool))"

definition acceptLoop :: "nat \<Rightarrow> request accept list \<Rightarrow> verdict list \<times> (poolKey \<Rightarrow> action list) option" where
  "acceptLoop numTunnels accepts =
     (let (reqs, e) = accept_loop accepts;
          (vs, pools) = requests numTunnels reqs Map.empty
      in (vs, if e = None then None else Some (close_pools pools)))"

section \<open>What is served is closed\<close>

text \<open>The tunnels of a pool are never removed from it or replaced.\<close>

lemma pool_Get_tunnels:
  "pool_Get p = (t, p') \<Longrightarrow> tp_tunnels p' = tp_tunnels p \<and>
     (\<forall>u. t = Some u \<longrightarrow> length (tp_tunnels p) < 2 ^ 64 \<longrightarrow> u \<in> set (tp_tunnels p))"
proof -
  assume g: "pool_Get p = (t, p')"
  have "unat (x mod of_nat (length (tp_tunnels p))) < length (tp_tunnels p)"
    if "tp_tunnels p \<noteq> []" "length (tp_tunnels p) < 2 ^ 64" for x :: u64
    using that by (simp add: unat_mod unat_of_nat take_bit_eq_mod)
  with g show ?thesis by (auto simp: pool_Get_def Let_def split: if_splits intro!: nth_mem)
qed

lemma fill_pool_length: "length (tp_tunnels (fill_pool create i n p)) \<le> length (tp_tunnels p) + n"
  by (induction create i n p rule: fill_pool.induct) (fastforce simp: pool_Add_def split: sum.splits)+

definition small_pools :: "nat \<Rightarrow> tunnel_pools \<Rightarrow> bool" where
  "small_pools n pools \<longleftrightarrow> (\<forall>key pool. pools key = Some pool \<longrightarrow> length (tp_tunnels pool) \<le> n)"

definition tunnels_at :: "tunnel_pools \<Rightarrow> poolKey \<Rightarrow> Tunnel list" where
  "tunnels_at pools key = (case pools key of None \<Rightarrow> [] | Some pool \<Rightarrow> tp_tunnels pool)"

lemma tunnels_at_Some [simp]: "pools key = Some pool \<Longrightarrow> tunnels_at pools key = tp_tunnels pool"
  by (simp add: tunnels_at_def)

lemma tunnels_atE:
  assumes "t \<in> set (tunnels_at pools key)"
  obtains pool where "pools key = Some pool" and "t \<in> set (tp_tunnels pool)"
  using assms by (cases "pools key") (auto simp: tunnels_at_def)

lemma pool_for_keeps:
  assumes "pool_for create n cfg pools = (pool, pools')" and "small_pools n pools"
  shows "small_pools n pools' \<and> pools' (sc_key cfg) = Some pool \<and>
     (\<forall>key. pools key \<noteq> None \<longrightarrow> tunnels_at pools' key = tunnels_at pools key)"
  using assms fill_pool_length [of "create cfg" 0 n NewTunnelPool]
  by (auto simp: pool_for_def small_pools_def tunnels_at_def NewTunnelPool_def Let_def split: option.splits if_splits)

lemma handle_request_keeps:
  assumes "small_pools n pools" and "n < 2 ^ 64"
  shows "small_pools n (snd (handle_request create n grant args pools)) \<and>
     (\<forall>key. pools key \<noteq> None \<longrightarrow> tunnels_at (snd (handle_request create n grant args pools)) key = tunnels_at pools key) \<and>
     (\<forall>t. fst (handle_request create n grant args pools) = Granted t \<longrightarrow>
        (\<exists>key. t \<in> set (tunnels_at (snd (handle_request create n grant args pools)) key)))"
proof (cases "parse_args args")
  case (Inl e)
  then show ?thesis using assms by (simp add: handle_request_def)
next
  case (Inr cfg)
  obtain pool pools' where f: "pool_for create n cfg pools = (pool, pools')" by fastforce
  note k = pool_for_keeps [OF f assms(1)]
  obtain t p where g: "pool_Get pool = (t, p)" by fastforce
  note gt = pool_Get_tunnels [OF g]
  have len: "length (tp_tunnels pool) \<le> n" using k by (auto simp: small_pools_def)
  show ?thesis
  proof (cases "pool_Size pool = 0 \<or> t = None")
    case True
    then have "handle_request create n grant args pools = (Rejected, pools')"
      using Inr f g by (auto simp: handle_request_def)
    with k show ?thesis by simp
  next
    case False
    then obtain u where u: "t = Some u" by auto
    then have h: "handle_request create n grant args pools =
        (if grant then Granted u else GrantFailed, pools'(sc_key cfg \<mapsto> p))"
      using Inr f g False by (simp add: handle_request_def)
    have "u \<in> set (tp_tunnels p)" using gt u len assms(2) by auto
    moreover have "tunnels_at (pools'(sc_key cfg \<mapsto> p)) = tunnels_at pools'"
      using k gt by (auto simp: tunnels_at_def fun_eq_iff)
    moreover have "small_pools n (pools'(sc_key cfg \<mapsto> p))" using k gt len by (auto simp: small_pools_def)
    moreover from calculation(1) have "u \<in> set (tunnels_at (pools'(sc_key cfg \<mapsto> p)) (sc_key cfg))" by simp
    ultimately show ?thesis using k by (auto simp: h intro: exI [of _ "sc_key cfg"])
  qed
qed

lemma requests_keep:
  assumes "small_pools n pools" and "n < 2 ^ 64"
  shows "(\<forall>key. pools key \<noteq> None \<longrightarrow> tunnels_at (snd (requests n rs pools)) key = tunnels_at pools key) \<and>
     (\<forall>t. Granted t \<in> set (fst (requests n rs pools)) \<longrightarrow>
        (\<exists>key. t \<in> set (tunnels_at (snd (requests n rs pools)) key)))"
  using assms(1)
proof (induction rs arbitrary: pools)
  case (Cons r rs)
  obtain create grant args where r: "r = (create, grant, args)" by (cases r)
  define p where "p = snd (handle_request create n grant args pools)"
  note h = handle_request_keeps [OF Cons.prems assms(2), of create grant args, folded p_def]
  note IH = Cons.IH [OF conjunct1 [OF h]]
  have keep: "p key \<noteq> None \<and> tunnels_at p key = tunnels_at pools key" if "pools key \<noteq> None" for key
    using that h by (auto simp: p_def handle_request_def pool_for_def Let_def split: sum.splits option.splits prod.splits if_splits)
  have s: "requests n (r # rs) pools =
      (fst (handle_request create n grant args pools) # fst (requests n rs p), snd (requests n rs p))"
    by (simp add: r p_def split_beta)
  show ?case
  proof (intro conjI allI impI)
    fix key assume "pools key \<noteq> None"
    with keep IH show "tunnels_at (snd (requests n (r # rs) pools)) key = tunnels_at pools key" unfolding s by simp
  next
    fix t assume t: "Granted t \<in> set (fst (requests n (r # rs) pools))"
    show "\<exists>key. t \<in> set (tunnels_at (snd (requests n (r # rs) pools)) key)"
    proof (cases "Granted t = fst (handle_request create n grant args pools)")
      case True
      with h obtain key where key: "t \<in> set (tunnels_at p key)" by metis
      then have "p key \<noteq> None" by (auto elim: tunnels_atE)
      with IH key show ?thesis unfolding s by (intro exI [of _ key]) auto
    next
      case False
      with t IH show ?thesis unfolding s by simp
    qed
  qed
qed simp


lemma two_tunnels: "fill_pool (\<lambda>_. Inr (bare_tunnel 1)) 0 2 NewTunnelPool = \<lparr>tp_tunnels = [bare_tunnel 1, bare_tunnel 1], tp_next = 0\<rparr>"
  by (simp add: NewTunnelPool_def pool_Add_def numeral_eq_Suc)


end
