(* ===== verification/Failover.thy ===== *)
theory Failover
  imports Tunnel "HOL-Library.Sublist"
begin

text \<open>
  The client with several resolvers (\<open>StartWithResolverFallback\<close> of
  \<open>src/dnstt-client/lib/client.go\<close>): the first connection, the reconnection with the next resolver,
  and the handling of a local connection, which starts a reconnection after some errors.
\<close>

section \<open>State\<close>

text \<open>
  The variables that the closures of \<open>StartWithResolverFallback\<close> share, and what has been closed.
\<close>

record failover =
  fo_resolverIndex :: nat
  fo_currentPool :: "TunnelPool option"
  fo_reconnecting :: bool
  fo_closed :: "action list"

text \<open>
  An attempt to connect: whether the shutdown is seen before it, and what \<open>createTunnel\<close> then gives
  for a resolver and the number of the tunnel.  The attempts of one run are numbered.
\<close>

type_synonym attempt = "bool \<times> (bytes \<Rightarrow> nat \<Rightarrow> err + Tunnel)"

definition connectWithResolver ::
  "(bytes \<Rightarrow> nat \<Rightarrow> err + Tunnel) \<Rightarrow> bytes list \<Rightarrow> nat \<Rightarrow> nat \<Rightarrow> err + TunnelPool" where
  "connectWithResolver create resolvers numTunnels resolverIdx =
     (if resolverIdx \<ge> length resolvers then Inl Errorf
      else
        let resolver = with_port (resolvers ! resolverIdx);
            pool = fill_pool (create resolver) 0 numTunnels NewTunnelPool
        in if pool_Size pool = 0 then Inl Errorf else Inr pool)"

text \<open>How a loop over the resolvers ends, after how many attempts, and at which index.\<close>

datatype search = Stopped | Connected TunnelPool | Exhausted

function try_resolvers ::
  "(nat \<Rightarrow> attempt) \<Rightarrow> bytes list \<Rightarrow> nat \<Rightarrow> nat \<Rightarrow> nat \<Rightarrow> search \<times> nat \<times> nat" where
  "try_resolvers att resolvers numTunnels k idx =
     (if idx < length resolvers then
        (if fst (att k) then (Stopped, k, idx)
         else case connectWithResolver (snd (att k)) resolvers numTunnels idx of
                Inl _ \<Rightarrow> try_resolvers att resolvers numTunnels (Suc k) (Suc idx)
              | Inr pool \<Rightarrow> (Connected pool, Suc k, idx))
      else (Exhausted, k, idx))"
  by pat_completeness auto
termination
  by (relation "measure (\<lambda>(_, resolvers, _, _, idx). length resolvers - idx)") auto

declare try_resolvers.simps [simp del]

text \<open>
  \<open>tryReconnect\<close>.  The flag is set while another goroutine is in it, and then it returns at once.
\<close>

definition closeCurrent :: "failover \<Rightarrow> failover" where
  "closeCurrent s =
     (case fo_currentPool s of
        None \<Rightarrow> s
      | Some pool \<Rightarrow> s\<lparr>fo_currentPool := None, fo_closed := fo_closed s @ fst (pool_Close pool)\<rparr>)"

definition tryReconnect :: "(nat \<Rightarrow> attempt) \<Rightarrow> bytes list \<Rightarrow> nat \<Rightarrow> failover \<Rightarrow> failover" where
  "tryReconnect att resolvers numTunnels s =
     (if fo_reconnecting s then s
      else
        let s = closeCurrent s
        in case try_resolvers att resolvers numTunnels 0 (fo_resolverIndex s) of
             (Stopped, _, i) \<Rightarrow> s\<lparr>fo_resolverIndex := i\<rparr>
           | (Connected pool, _, i) \<Rightarrow> s\<lparr>fo_resolverIndex := i, fo_currentPool := Some pool\<rparr>
           | (Exhausted, k, _) \<Rightarrow>
               (case try_resolvers att resolvers numTunnels k 0 of
                  (Connected pool, _, i) \<Rightarrow> s\<lparr>fo_resolverIndex := i, fo_currentPool := Some pool\<rparr>
                | (_, _, i) \<Rightarrow> s\<lparr>fo_resolverIndex := i\<rparr>))"

text \<open>The first connection, which does not look for the shutdown.\<close>

definition initial_connection :: "(nat \<Rightarrow> attempt) \<Rightarrow> bytes list \<Rightarrow> nat \<Rightarrow> err + failover" where
  "initial_connection att resolvers numTunnels =
     (case try_resolvers (\<lambda>k. (False, snd (att k))) resolvers numTunnels 0 0 of
        (Connected pool, _, i) \<Rightarrow>
          Inr \<lparr>fo_resolverIndex = i, fo_currentPool = Some pool, fo_reconnecting = False, fo_closed = []\<rparr>
      | _ \<Rightarrow> Inl Errorf)"

text \<open>Everything before the accept loop; the attempts depend on the domain and the MTU.\<close>

definition fallback_setup ::
  "(Name \<Rightarrow> int \<Rightarrow> nat \<Rightarrow> attempt) \<Rightarrow> bool \<Rightarrow> bytes list \<Rightarrow> int \<Rightarrow> bytes \<Rightarrow> err + failover" where
  "fallback_setup att listen resolvers numTunnels domainStr =
     (if length resolvers = 0 then Inl Errorf
      else
        let numTunnels = (if numTunnels < 1 then 1 else numTunnels)
        in bindE (ParseName domainStr) (\<lambda>domain.
             let mtu = client_mtu domain
             in if mtu < 80 then Inl Errorf
                else if \<not> listen then Inl Errorf
                else initial_connection (att domain mtu) resolvers (nat numTunnels)))"

section \<open>A local connection\<close>

text \<open>The text of the error that \<open>handle\<close> makes of an error of \<open>OpenStream\<close>, and what it is searched for.\<close>

definition hex32 :: "u32 \<Rightarrow> bytes" where
  "hex32 x = hex_encode (be32 x)"

definition handle_error :: "u32 \<Rightarrow> bytes \<Rightarrow> bytes" where
  "handle_error conv e =
     map of_char ''session '' @ hex32 conv @ map of_char '' opening stream: '' @ e"

definition connection_error :: "bytes \<Rightarrow> bool" where
  "connection_error errStr \<longleftrightarrow>
     sublist (map of_char ''broken pipe'') errStr \<or> sublist (map of_char ''connection reset'') errStr \<or>
     sublist (map of_char ''EOF'') errStr \<or> sublist (map of_char ''timeout'') errStr \<or>
     sublist (map of_char ''i/o timeout'') errStr"

text \<open>
  \<open>handleWithFailover\<close>: the text of the error of \<open>OpenStream\<close> for each tunnel, if it fails, gives
  the next state and whether \<open>tryReconnect\<close> is started.
\<close>

definition handleWithFailover :: "(Tunnel \<Rightarrow> bytes option) \<Rightarrow> failover \<Rightarrow> failover \<times> bool" where
  "handleWithFailover openStream s =
     (case fo_currentPool s of
        None \<Rightarrow> (s, True)
      | Some pool \<Rightarrow>
          if pool_Size pool = 0 then (s, True)
          else case pool_Get pool of
              (None, _) \<Rightarrow> (s, True)
            | (Some tunnel, pool) \<Rightarrow>
                let s = s\<lparr>fo_currentPool := Some pool\<rparr>
                in case openStream tunnel of
                     None \<Rightarrow> (s, False)
                   | Some e \<Rightarrow>
                       if connection_error (handle_error (tn_conv tunnel) e)
                       then (s\<lparr>fo_resolverIndex := fo_resolverIndex s + 1\<rparr>, True)
                       else (s, False))"

section \<open>The order of the attempts\<close>

text \<open>Which resolver each attempt of a reconnection is with.\<close>

definition attempt_order :: "nat \<Rightarrow> nat \<Rightarrow> nat list" where
  "attempt_order n idx = [idx..<n] @ [0..<n]"

text \<open>Whether attempt \<open>k\<close> ends the search that tries the resolvers in the order \<open>order\<close>.\<close>

definition decisive :: "(nat \<Rightarrow> attempt) \<Rightarrow> bytes list \<Rightarrow> nat \<Rightarrow> nat list \<Rightarrow> nat \<Rightarrow> bool" where
  "decisive att resolvers numTunnels order k \<longleftrightarrow>
     fst (att k) \<or> \<not> isl (connectWithResolver (snd (att k)) resolvers numTunnels (order ! k))"

lemma try_resolvers_find:
  "try_resolvers att resolvers numTunnels k idx =
     (case find (\<lambda>j. fst (att (k + j)) \<or>
              \<not> isl (connectWithResolver (snd (att (k + j))) resolvers numTunnels (idx + j)))
            [0..<length resolvers - idx] of
        None \<Rightarrow> (Exhausted, k + (length resolvers - idx), max idx (length resolvers))
      | Some j \<Rightarrow>
          if fst (att (k + j)) then (Stopped, k + j, idx + j)
          else (Connected (projr (connectWithResolver (snd (att (k + j))) resolvers numTunnels (idx + j))),
                Suc (k + j), idx + j))"
proof (induction att resolvers numTunnels k idx rule: try_resolvers.induct)
  case (1 att resolvers numTunnels k idx)
  show ?case
  proof (cases "idx < length resolvers")
    case False
    then show ?thesis by (simp add: try_resolvers.simps [of _ _ _ _ idx])
  next
    case True
    let ?P = "\<lambda>k idx j. fst (att (k + j)) \<or>
        \<not> isl (connectWithResolver (snd (att (k + j))) resolvers numTunnels (idx + j))"
    have upt: "[0..<length resolvers - idx] = 0 # map Suc [0..<length resolvers - Suc idx]"
      using True by (simp add: upt_conv_Cons map_Suc_upt Suc_diff_Suc)
    have find_map: "find (?P k idx) (map Suc xs) = map_option Suc (find (?P (Suc k) (Suc idx)) xs)" for xs
      by (induction xs) auto
    show ?thesis
    proof (cases "?P k idx 0")
      case P: True
      then show ?thesis
        using True unfolding upt
        by (subst try_resolvers.simps)
          (auto split: sum.splits)
    next
      case P: False
      then obtain e where e: "connectWithResolver (snd (att k)) resolvers numTunnels idx = Inl e" "\<not> fst (att k)"
        by (auto simp: isl_def)
      have "try_resolvers att resolvers numTunnels k idx = try_resolvers att resolvers numTunnels (Suc k) (Suc idx)"
        using True e by (subst try_resolvers.simps) simp
      moreover note 1 [OF True e(2,1)]
      moreover have "find (?P k idx) [0..<length resolvers - idx] =
          map_option Suc (find (?P (Suc k) (Suc idx)) [0..<length resolvers - Suc idx])"
        using P unfolding upt find_map [symmetric] by simp
      ultimately show ?thesis using True by (auto simp: max_def split: option.splits)
    qed
  qed
qed

lemma find_append_option:
  "find P (xs @ ys) = (case find P xs of None \<Rightarrow> find P ys | Some x \<Rightarrow> Some x)"
  by (induction xs) auto

lemma find_map_option: "find P (map f xs) = map_option f (find (P \<circ> f) xs)"
  by (induction xs) auto

lemma find_upt_less: "find P [0..<n] = Some j \<Longrightarrow> j < n"
  by (auto simp: find_Some_iff)

text \<open>The search over the whole order, split where the loops of \<open>tryReconnect\<close> are.\<close>

lemma find_order:
  fixes n idx :: nat
  defines "order \<equiv> attempt_order n idx"
  shows "find (\<lambda>k. P k (order ! k)) [0..<length order] =
     (case find (\<lambda>j. P j (idx + j)) [0..<n - idx] of
        Some j \<Rightarrow> Some j
      | None \<Rightarrow> map_option (\<lambda>j. n - idx + j) (find (\<lambda>j. P (n - idx + j) j) [0..<n]))"
proof -
  have "[0..<length order] = [0..<n - idx] @ map (\<lambda>j. n - idx + j) [0..<n]"
    unfolding order_def attempt_order_def
    by (rule nth_equalityI) (auto simp: nth_append)
  moreover have "find (\<lambda>k. P k (order ! k)) [0..<n - idx] = find (\<lambda>j. P j (idx + j)) [0..<n - idx]"
    by (rule find_cong) (auto simp: order_def attempt_order_def nth_append)
  moreover have "find ((\<lambda>k. P k (order ! k)) \<circ> (\<lambda>j. n - idx + j)) [0..<n] = find (\<lambda>j. P (n - idx + j) j) [0..<n]"
    by (rule find_cong) (auto simp: order_def attempt_order_def nth_append)
  ultimately show ?thesis by (simp add: find_append_option find_map_option split: option.splits)
qed

text \<open>What \<open>closeCurrent\<close> has added to the closed layers.\<close>

definition closing :: "failover \<Rightarrow> action list" where
  "closing s = (case fo_currentPool s of None \<Rightarrow> [] | Some pool \<Rightarrow> fst (pool_Close pool))"

lemma closeCurrent_simps [simp]:
  "fo_currentPool (closeCurrent s) = None" "fo_resolverIndex (closeCurrent s) = fo_resolverIndex s"
  "fo_closed (closeCurrent s) = fo_closed s @ closing s"
  by (simp_all add: closeCurrent_def closing_def split: option.splits)

lemma tryReconnect_find:
  assumes "\<not> fo_reconnecting s" and "order = attempt_order (length resolvers) (fo_resolverIndex s)"
  shows "(case find (decisive att resolvers numTunnels order) [0..<length order] of
       None \<Rightarrow> fo_currentPool (tryReconnect att resolvers numTunnels s) = None
     | Some k \<Rightarrow> fo_resolverIndex (tryReconnect att resolvers numTunnels s) = order ! k \<and>
         fo_currentPool (tryReconnect att resolvers numTunnels s) =
           (if fst (att k) then None
            else Some (projr (connectWithResolver (snd (att k)) resolvers numTunnels (order ! k))))) \<and>
     fo_closed (tryReconnect att resolvers numTunnels s) = fo_closed s @ closing s"
proof -
  let ?n = "length resolvers" and ?idx = "fo_resolverIndex s" and ?s = "closeCurrent s"
  let ?P = "\<lambda>k i. fst (att k) \<or> \<not> isl (connectWithResolver (snd (att k)) resolvers numTunnels i)"
  note f = find_order [where P = ?P and n = ?n and idx = ?idx, folded assms(2)]
  note t1 = try_resolvers_find [of att resolvers numTunnels 0 ?idx]
  note t2 = try_resolvers_find [of att resolvers numTunnels "?n - ?idx" 0]
  have d: "find (decisive att resolvers numTunnels order) [0..<length order] =
      find (\<lambda>k. ?P k (order ! k)) [0..<length order]"
    by (simp add: decisive_def [abs_def])
  have nth: "j < ?n - ?idx \<Longrightarrow> order ! j = ?idx + j" "j < ?n \<Longrightarrow> order ! (?n - ?idx + j) = j" for j
    by (simp_all add: assms(2) attempt_order_def nth_append)
  show ?thesis
  proof (cases "find (\<lambda>j. ?P j (?idx + j)) [0..<?n - ?idx]")
    case (Some j)
    with find_upt_less [OF Some] show ?thesis
      using assms(1) nth(1) t1 unfolding d f tryReconnect_def Let_def by simp
  next
    case None
    note first = None
    then have s': "tryReconnect att resolvers numTunnels s =
        (case try_resolvers att resolvers numTunnels (?n - ?idx) 0 of
           (Connected pool, _, i) \<Rightarrow> ?s\<lparr>fo_resolverIndex := i, fo_currentPool := Some pool\<rparr>
         | (_, _, i) \<Rightarrow> ?s\<lparr>fo_resolverIndex := i\<rparr>)"
      using assms(1) t1 unfolding tryReconnect_def Let_def by simp
    show ?thesis
    proof (cases "find (\<lambda>j. ?P (?n - ?idx + j) j) [0..<?n]")
      case (Some j)
      with find_upt_less [OF Some] show ?thesis using nth(2) t2 first unfolding d f s' by simp
    next
      case None
      then show ?thesis using t2 first unfolding d f s' by simp
    qed
  qed
qed

section \<open>Properties\<close>


text \<open>Two resolvers of which only the second one works; the index is at the second one.\<close>

definition second_works :: attempt where
  "second_works = (False, \<lambda>resolver i. if hd resolver = 50 then Inr (bare_tunnel 7) else Inl Errorf)"


section \<open>A dead session\<close>

text \<open>The error of \<open>OpenStream\<close> on a session that has been closed, \<open>io.ErrClosedPipe\<close>.\<close>

definition ErrClosedPipe :: bytes where
  "ErrClosedPipe = map of_char ''io: read/write on closed pipe''"

lemma hexdigit_range: "v < 16 \<Longrightarrow> hexdigit v \<notin> {69, 107, 110, 117}"
  by (drule nibble_cases) (elim insertE emptyE; simp add: hexdigit_def)

lemma hex32_letters: "c \<in> {69, 107, 110, 117} \<Longrightarrow> c \<notin> set (hex32 x)"
  using hexdigit_range [OF high_nibble_lt] hexdigit_range [OF low_nibble_lt]
  by (auto simp: hex32_def hex_encode_def hex_byte_def)

lemma sublist_set: "sublist xs ys \<Longrightarrow> set xs \<subseteq> set ys"
  by (auto simp: sublist_def)

lemma double_Cons: "sublist [n, n] (x # xs) \<longleftrightarrow> x = n \<and> xs \<noteq> [] \<and> hd xs = n \<or> sublist [n, n] xs"
  by (cases xs) (auto simp: sublist_Cons_right)

lemma double_append:
  "sublist [n, n] (xs @ ys) \<longleftrightarrow>
     sublist [n, n] xs \<or> sublist [n, n] ys \<or> (xs \<noteq> [] \<and> last xs = n \<and> ys \<noteq> [] \<and> hd ys = n)"
  by (induction xs) (auto simp: double_Cons hd_append)

lemma closed_pipe_no_connection_error: "\<not> connection_error (handle_error conv ErrClosedPipe)"
proof -
  let ?e = "handle_error conv ErrClosedPipe"
  have absent: "69 \<notin> set ?e" "107 \<notin> set ?e" "117 \<notin> set ?e"
    using hex32_letters [of _ conv] by (simp_all add: handle_error_def ErrClosedPipe_def)
  have "hex32 conv \<noteq> []" by (simp add: hex32_def flip: length_0_conv)
  then have "\<not> sublist [110, 110] ?e"
    using hex32_letters [of 110 conv] sublist_set [of "[110, 110]" "hex32 conv"] hd_in_set [of "hex32 conv"]
    by (auto simp: handle_error_def ErrClosedPipe_def double_append sublist_code)
  moreover have "sublist [110, 110] (map of_char ''connection reset'' :: bytes)" by (simp add: sublist_code)
  ultimately have "\<not> sublist (map of_char ''connection reset'') ?e"
    using sublist_order.order_trans by blast
  moreover have "\<not> sublist (map of_char ''broken pipe'') ?e" "\<not> sublist (map of_char ''EOF'') ?e"
    "\<not> sublist (map of_char ''timeout'') ?e" "\<not> sublist (map of_char ''i/o timeout'') ?e"
    using absent by (auto dest!: sublist_set)
  ultimately show ?thesis unfolding connection_error_def by blast
qed

text \<open>
  A dead session is not replaced.  A session that has been closed, by its keep-alive timeout for
  example, makes \<open>OpenStream\<close> return \<open>io.ErrClosedPipe\<close>; the text of this error is not among those
  that \<open>handleWithFailover\<close> looks for, so the client stays with the resolver and the pool it has, and
  no reconnection starts, for this connection and for every later one.
\<close>

theorem dead_session_not_replaced:
  assumes "fo_currentPool s = Some pool" and "tp_tunnels pool \<noteq> []" and "length (tp_tunnels pool) < 2 ^ 64"
  shows "((\<lambda>s. fst (handleWithFailover (\<lambda>_. Some ErrClosedPipe) s)) ^^ n) s =
       s\<lparr>fo_currentPool := Some (pool\<lparr>tp_next := tp_next pool + of_nat n\<rparr>)\<rparr> \<and>
     \<not> snd (handleWithFailover (\<lambda>_. Some ErrClosedPipe)
         (((\<lambda>s. fst (handleWithFailover (\<lambda>_. Some ErrClosedPipe) s)) ^^ n) s))"
proof -
  have step: "handleWithFailover (\<lambda>_. Some ErrClosedPipe) s =
      (s\<lparr>fo_currentPool := Some (pool\<lparr>tp_next := tp_next pool + 1\<rparr>)\<rparr>, False)"
    if "fo_currentPool s = Some pool" "tp_tunnels pool \<noteq> []" "length (tp_tunnels pool) < 2 ^ 64" for s pool
    using that closed_pipe_no_connection_error by (simp add: handleWithFailover_def pool_Get_nonempty pool_Size_def)
  have run: "((\<lambda>s. fst (handleWithFailover (\<lambda>_. Some ErrClosedPipe) s)) ^^ n) s =
      s\<lparr>fo_currentPool := Some (pool\<lparr>tp_next := tp_next pool + of_nat n\<rparr>)\<rparr>"
  proof (induction n)
    case 0
    then show ?case using assms(1) by simp
  next
    case (Suc n)
    let ?pool = "pool\<lparr>tp_next := tp_next pool + of_nat n\<rparr>"
    from Suc.IH show ?case
      using step [of "s\<lparr>fo_currentPool := Some ?pool\<rparr>" ?pool] assms by (simp add: ac_simps)
  qed
  with step [of "s\<lparr>fo_currentPool := Some (pool\<lparr>tp_next := tp_next pool + of_nat n\<rparr>)\<rparr>"
      "pool\<lparr>tp_next := tp_next pool + of_nat n\<rparr>"] assms show ?thesis by simp
qed

theorem dead_session_not_replaced_witness:
  "\<not> snd (handleWithFailover (\<lambda>_. Some ErrClosedPipe)
     (((\<lambda>s. fst (handleWithFailover (\<lambda>_. Some ErrClosedPipe) s)) ^^ 5)
        \<lparr>fo_resolverIndex = 0, fo_currentPool = Some \<lparr>tp_tunnels = [bare_tunnel 1], tp_next = 0\<rparr>,
         fo_reconnecting = False, fo_closed = []\<rparr>))"
  by (rule conjunct2 [OF dead_session_not_replaced [where pool = "\<lparr>tp_tunnels = [bare_tunnel 1], tp_next = 0\<rparr>"]])
    simp_all

end
