(* ===== verification/FailoverRuns.thy ===== *)
theory FailoverRuns
  imports Failover Completion
begin

text \<open>
  The goroutines of \<open>StartWithResolverFallback\<close> (\<open>src/dnstt-client/lib/client.go\<close>) side by side: handlers of
  connections that start reconnections, the goroutines that run \<open>tryReconnect\<close>, and the caller, which
  waits for the shutdown.  They share the index of the resolver, the current pool and the flag
  \<open>reconnecting\<close>.  A pool is its number here, in the order in which pools are created; which attempt to
  connect succeeds is not determined.
\<close>

section \<open>The goroutines\<close>

text \<open>
  \<open>tryReconnect\<close>: at the compare-and-swap, before the current pool is closed, at the head of the first or
  second loop, after its look at the shutdown, in an attempt with a resolver, after a failed one, with
  a new pool, before the flag is reset, and ended.
\<close>

datatype reconnector =
    RStart
  | RClose
  | RLoop bool
  | RConnect bool
  | RDialing bool nat
  | RFailed bool
  | RConnected nat
  | RLeave
  | REnded

record failover_run =
  fr_resolverIndex :: nat
  fr_currentPool :: "nat option"
  fr_reconnecting :: bool
  fr_gs :: "reconnector list"
  fr_shutdown :: bool
  fr_returned :: bool
  fr_created :: nat
  fr_closed :: "nat list"

text \<open>After the first connection, with the resolver of the given index.\<close>

definition new_failover :: "nat \<Rightarrow> failover_run" where
  "new_failover i = \<lparr>fr_resolverIndex = i, fr_currentPool = Some 0, fr_reconnecting = False, fr_gs = [],
     fr_shutdown = False, fr_returned = False, fr_created = 1, fr_closed = []\<rparr>"

abbreviation at :: "failover_run \<Rightarrow> nat \<Rightarrow> reconnector \<Rightarrow> bool" where
  "at s i g \<equiv> i < length (fr_gs s) \<and> fr_gs s ! i = g"

abbreviation goes :: "nat \<Rightarrow> reconnector \<Rightarrow> failover_run \<Rightarrow> failover_run" where
  "goes i g s \<equiv> s\<lparr>fr_gs := (fr_gs s)[i := g]\<rparr>"

text \<open>
  \<open>n\<close> is the number of resolvers.  A handler starts a reconnection when there is no pool, or when the pool
  that it has looked up has been closed meanwhile, and after a connection error, when it also
  increments the index.  In the second loop nothing follows the last resolver; the first loop
  is followed by the reset of the index.
\<close>

inductive failover_step :: "nat \<Rightarrow> failover_run \<Rightarrow> failover_run \<Rightarrow> bool"
  for n where
  no_pool: "fr_currentPool s = None \<or> fr_closed s \<noteq> [] \<Longrightarrow> failover_step n s (s\<lparr>fr_gs := fr_gs s @ [RStart]\<rparr>)"
| failed_stream: "failover_step n s (s\<lparr>fr_resolverIndex := Suc (fr_resolverIndex s), fr_gs := fr_gs s @ [RStart]\<rparr>)"
| busy: "at s i RStart \<Longrightarrow> fr_reconnecting s \<Longrightarrow> failover_step n s (goes i REnded s)"
| start: "at s i RStart \<Longrightarrow> \<not> fr_reconnecting s \<Longrightarrow> failover_step n s (goes i RClose (s\<lparr>fr_reconnecting := True\<rparr>))"
| close: "at s i RClose \<Longrightarrow>
     failover_step n s (goes i (RLoop True) (s\<lparr>fr_currentPool := None,
       fr_closed := fr_closed s @ (case fr_currentPool s of None \<Rightarrow> [] | Some p \<Rightarrow> [p])\<rparr>))"
| stop: "at s i (RLoop b) \<Longrightarrow> fr_resolverIndex s < n \<Longrightarrow> fr_shutdown s \<Longrightarrow> failover_step n s (goes i RLeave s)"
| look: "at s i (RLoop b) \<Longrightarrow> fr_resolverIndex s < n \<Longrightarrow> \<not> fr_shutdown s \<Longrightarrow> failover_step n s (goes i (RConnect b) s)"
| restart: "at s i (RLoop True) \<Longrightarrow> \<not> fr_resolverIndex s < n \<Longrightarrow>
     failover_step n s (goes i (RLoop False) (s\<lparr>fr_resolverIndex := 0\<rparr>))"
| exhausted: "at s i (RLoop False) \<Longrightarrow> \<not> fr_resolverIndex s < n \<Longrightarrow> failover_step n s (goes i RLeave s)"
| dial: "at s i (RConnect b) \<Longrightarrow> failover_step n s (goes i (RDialing b (fr_resolverIndex s)) s)"
| attempt_fails: "at s i (RDialing b k) \<Longrightarrow> failover_step n s (goes i (RFailed b) s)"
| attempt_works: "at s i (RDialing b k) \<Longrightarrow> k < n \<Longrightarrow>
     failover_step n s (goes i (RConnected (fr_created s)) (s\<lparr>fr_created := Suc (fr_created s)\<rparr>))"
| continue: "at s i (RFailed b) \<Longrightarrow>
     failover_step n s (goes i (RLoop b) (s\<lparr>fr_resolverIndex := Suc (fr_resolverIndex s)\<rparr>))"
| install: "at s i (RConnected p) \<Longrightarrow> failover_step n s (goes i RLeave (s\<lparr>fr_currentPool := Some p\<rparr>))"
| leave: "at s i RLeave \<Longrightarrow> failover_step n s (goes i REnded (s\<lparr>fr_reconnecting := False\<rparr>))"
| shutdown: "failover_step n s (s\<lparr>fr_shutdown := True\<rparr>)"
| returns: "fr_shutdown s \<Longrightarrow> \<not> fr_returned s \<Longrightarrow>
     failover_step n s (s\<lparr>fr_returned := True,
       fr_closed := fr_closed s @ (case fr_currentPool s of None \<Rightarrow> [] | Some p \<Rightarrow> [p])\<rparr>)"

section \<open>Invariant\<close>

text \<open>Whether a goroutine is inside, between the compare-and-swap and the reset of the flag.\<close>

fun inside :: "reconnector \<Rightarrow> bool" where
  "inside RStart = False"
| "inside REnded = False"
| "inside _ = True"

text \<open>Whether it has closed the old pool and not yet installed a new one.\<close>

fun between :: "reconnector \<Rightarrow> bool" where
  "between (RLoop _) = True"
| "between (RConnect _) = True"
| "between (RDialing _ _) = True"
| "between (RFailed _) = True"
| "between (RConnected _) = True"
| "between _ = False"

fun holds :: "reconnector \<Rightarrow> nat list" where
  "holds (RConnected p) = [p]"
| "holds _ = []"

text \<open>The pools that are open: the current one and one that is to become current.\<close>

definition open_pools :: "failover_run \<Rightarrow> nat list" where
  "open_pools s = (case fr_currentPool s of None \<Rightarrow> [] | Some p \<Rightarrow> [p]) @ concat (map holds (fr_gs s))"

definition failover_inv :: "failover_run \<Rightarrow> bool" where
  "failover_inv s \<longleftrightarrow>
     length (filter inside (fr_gs s)) = (if fr_reconnecting s then 1 else 0) \<and>
     (list_ex between (fr_gs s) \<longrightarrow> fr_currentPool s = None) \<and>
     (\<not> fr_returned s \<longrightarrow> mset (fr_closed s @ open_pools s) = mset [0..<fr_created s])"

lemma concat_holds_update:
  assumes "i < length gs"
  shows "mset (concat (map holds (gs[i := g]))) + mset (holds (gs ! i)) = mset (concat (map holds gs)) + mset (holds g)"
proof -
  have "gs = take i gs @ gs ! i # drop (Suc i) gs" using assms by (rule id_take_nth_drop)
  then have "mset (concat (map holds gs)) =
      mset (concat (map holds (take i gs))) + mset (holds (gs ! i)) + mset (concat (map holds (drop (Suc i) gs)))"
    by (metis (no_types) ab_semigroup_add_class.add_ac(1) concat.simps(2) concat_append list.simps(9) map_append mset_append)
  moreover have "gs[i := g] = take i gs @ g # drop (Suc i) gs" using assms by (rule upd_conv_take_nth_drop)
  ultimately show ?thesis by simp
qed

text \<open>The only goroutine inside, if there is one.\<close>

lemma inside_unique:
  assumes "failover_inv s" and "at s i g" and "inside g"
  shows "fr_reconnecting s" and "\<And>j. j < length (fr_gs s) \<Longrightarrow> inside (fr_gs s ! j) \<Longrightarrow> j = i"
proof -
  have f: "length (filter inside ((fr_gs s)[i := REnded])) + 1 = length (filter inside (fr_gs s))"
    using length_filter_update [of i "fr_gs s" inside REnded] assms(2,3) by auto
  with assms(1) show r: "fr_reconnecting s" by (auto simp: failover_inv_def split: if_splits)
  fix j assume j: "j < length (fr_gs s)" "inside (fr_gs s ! j)"
  from f r assms(1) have "filter inside ((fr_gs s)[i := REnded]) = []" by (simp add: failover_inv_def)
  then have "\<forall>g \<in> set ((fr_gs s)[i := REnded]). \<not> inside g" by (simp add: filter_empty_conv)
  with j show "j = i" by (metis length_list_update nth_list_update_neq nth_mem)
qed

lemma between_inside: "between g \<Longrightarrow> inside g"
  by (cases g) simp_all

text \<open>The accounts before and after a step.\<close>

lemma account:
  fixes C P H h h' R c p G T :: "nat multiset"
  assumes "c + p + G = R" and "H + h = G + h'" and "C + P + h' + R = c + p + h + T"
  shows "C + P + H = T"
proof -
  have "C + P + H + (h' + h + R) = (C + P + h' + R) + (H + h)" by (simp only: ac_simps)
  also have "\<dots> = (c + p + h + T) + (G + h')" by (simp only: assms(2,3))
  also have "\<dots> = (c + p + G) + (T + (h' + h))" by (simp only: ac_simps)
  also have "\<dots> = T + (h' + h + R)" unfolding assms(1) by (simp only: ac_simps)
  finally show ?thesis by (rule add_right_imp_eq)
qed

lemma failover_inv_move:
  assumes inv: "failover_inv s" and "at s i g" and gs: "fr_gs t = (fr_gs s)[i := g']"
    and flag: "inside g' \<longleftrightarrow> (if inside g then fr_reconnecting t else fr_reconnecting t \<noteq> fr_reconnecting s)"
    and idle: "\<not> inside g \<Longrightarrow> fr_currentPool t = fr_currentPool s \<and> (fr_reconnecting s \<longrightarrow> fr_reconnecting t)"
    and none: "between g' \<Longrightarrow> fr_currentPool t = None"
    and ret: "fr_returned t = fr_returned s"
    and pools: "mset (fr_closed t) + mset (case fr_currentPool t of None \<Rightarrow> [] | Some p \<Rightarrow> [p]) + mset (holds g') +
        mset [0..<fr_created s] =
      mset (fr_closed s) + mset (case fr_currentPool s of None \<Rightarrow> [] | Some p \<Rightarrow> [p]) + mset (holds g) +
        mset [0..<fr_created t]"
  shows "failover_inv t"
proof -
  have i: "i < length (fr_gs s)" "fr_gs s ! i = g" using assms(2) by auto
  have "length (filter inside (fr_gs t)) = (if fr_reconnecting t then 1 else 0)"
    using length_filter_update [OF i(1), of inside g'] inv flag idle i inside_unique(1) [OF inv assms(2)]
    unfolding gs failover_inv_def by (auto split: if_splits)
  moreover have "fr_currentPool t = None" if b: "list_ex between (fr_gs t)"
  proof -
    obtain j where j: "j < length (fr_gs s)" "between ((fr_gs s)[i := g'] ! j)"
      using b unfolding gs by (auto simp: list_ex_length)
    show ?thesis
    proof (cases "j = i")
      case True
      with j i(1) none show ?thesis by simp
    next
      case False
      then have bj: "between (fr_gs s ! j)" using j by simp
      then have "\<not> inside g" using inside_unique(2) [OF inv assms(2)] j(1) False between_inside by blast
      moreover have "list_ex between (fr_gs s)" using j(1) bj by (auto simp: list_ex_length)
      ultimately show ?thesis using idle inv by (simp add: failover_inv_def)
    qed
  qed
  moreover have "mset (fr_closed t @ open_pools t) = mset [0..<fr_created t]" if "\<not> fr_returned t"
  proof -
    have "mset (fr_closed s) + mset (case fr_currentPool s of None \<Rightarrow> [] | Some p \<Rightarrow> [p]) +
        mset (concat (map holds (fr_gs s))) = mset [0..<fr_created s]"
      using inv ret that by (simp add: failover_inv_def open_pools_def add.assoc)
    moreover have "mset (concat (map holds (fr_gs t))) + mset (holds g) = mset (concat (map holds (fr_gs s))) + mset (holds g')"
      using concat_holds_update [OF i(1), of g'] by (simp only: gs i(2))
    ultimately have "mset (fr_closed t) + mset (case fr_currentPool t of None \<Rightarrow> [] | Some p \<Rightarrow> [p]) +
        mset (concat (map holds (fr_gs t))) = mset [0..<fr_created t]"
      using pools by (rule account)
    then show ?thesis by (simp add: open_pools_def add.assoc)
  qed
  ultimately show ?thesis by (simp add: failover_inv_def)
qed

lemma failover_inv_spawn:
  assumes "failover_inv s" and "fr_gs t = fr_gs s @ [RStart]" and "fr_currentPool t = fr_currentPool s"
    and "fr_reconnecting t = fr_reconnecting s" and "fr_returned t = fr_returned s" and "fr_created t = fr_created s"
    and "fr_closed t = fr_closed s"
  shows "failover_inv t"
  using assms by (simp add: failover_inv_def open_pools_def)

lemma failover_inv_step:
  assumes "failover_step n s t" and inv: "failover_inv s"
  shows "failover_inv t"
  using assms(1)
proof cases
  case (close i)
  show ?thesis by (rule failover_inv_move [OF inv close(2), where g' = "RLoop True"]) (use inside_unique(1) [OF inv close(2)] in \<open>simp_all add: close(1)\<close>)
next
  case (install i p)
  show ?thesis
    by (rule failover_inv_move [OF inv install(2), where g' = "RLeave"])
      (use inside_unique(1) [OF inv install(2)] inv install(2) in \<open>auto simp: install(1) failover_inv_def list_ex_length\<close>)
next
  case (attempt_works i b k)
  show ?thesis
    by (rule failover_inv_move [OF inv attempt_works(2), where g' = "RConnected (fr_created s)"])
      (use inside_unique(1) [OF inv attempt_works(2)] inv attempt_works(2) in
        \<open>auto simp: attempt_works(1) failover_inv_def list_ex_length\<close>)
next
  case (stop i b)
  show ?thesis by (rule failover_inv_move [OF inv stop(2), where g' = "RLeave"]) (use inside_unique(1) [OF inv stop(2)] in \<open>simp_all add: stop(1)\<close>)
next
  case (leave i)
  show ?thesis by (rule failover_inv_move [OF inv leave(2), where g' = "REnded"]) (use inside_unique(1) [OF inv leave(2)] in \<open>simp_all add: leave(1)\<close>)
next
  case (busy i)
  show ?thesis by (rule failover_inv_move [OF inv busy(2), where g' = "REnded"]) (use busy(3) in \<open>simp_all add: busy(1)\<close>)
next
  case (start i)
  show ?thesis by (rule failover_inv_move [OF inv start(2), where g' = "RClose"]) (use start(3) in \<open>simp_all add: start(1)\<close>)
next
  case (look i b)
  have "fr_currentPool s = None" using inv look(2) by (force simp: failover_inv_def list_ex_length)
  then show ?thesis
    by (intro failover_inv_move [OF inv look(2), where g' = "RConnect b"]) (use inside_unique(1) [OF inv look(2)] in \<open>simp_all add: look(1)\<close>)
next
  case (restart i)
  have "fr_currentPool s = None" using inv restart(2) by (force simp: failover_inv_def list_ex_length)
  then show ?thesis
    by (intro failover_inv_move [OF inv restart(2), where g' = "RLoop False"]) (use inside_unique(1) [OF inv restart(2)] in \<open>simp_all add: restart(1)\<close>)
next
  case (exhausted i)
  show ?thesis
    by (rule failover_inv_move [OF inv exhausted(2), where g' = "RLeave"]) (use inside_unique(1) [OF inv exhausted(2)] in \<open>simp_all add: exhausted(1)\<close>)
next
  case (dial i b)
  have "fr_currentPool s = None" using inv dial(2) by (force simp: failover_inv_def list_ex_length)
  then show ?thesis
    by (intro failover_inv_move [OF inv dial(2), where g' = "RDialing b (fr_resolverIndex s)"]) (use inside_unique(1) [OF inv dial(2)] in \<open>simp_all add: dial(1)\<close>)
next
  case (attempt_fails i b k)
  have "fr_currentPool s = None" using inv attempt_fails(2) by (force simp: failover_inv_def list_ex_length)
  then show ?thesis
    by (intro failover_inv_move [OF inv attempt_fails(2), where g' = "RFailed b"])
      (use inside_unique(1) [OF inv attempt_fails(2)] in \<open>simp_all add: attempt_fails(1)\<close>)
next
  case (continue i b)
  have "fr_currentPool s = None" using inv continue(2) by (force simp: failover_inv_def list_ex_length)
  then show ?thesis
    by (intro failover_inv_move [OF inv continue(2), where g' = "RLoop b"])
      (use inside_unique(1) [OF inv continue(2)] in \<open>simp_all add: continue(1)\<close>)
next
  case no_pool
  show ?thesis by (rule failover_inv_spawn [OF inv]) (simp_all add: no_pool(1))
next
  case failed_stream
  show ?thesis by (rule failover_inv_spawn [OF inv]) (simp_all add: failed_stream)
next
  case shutdown
  show ?thesis using inv by (simp add: shutdown failover_inv_def open_pools_def)
next
  case returns
  show ?thesis using inv by (simp add: returns(1) failover_inv_def open_pools_def)
qed

lemma new_failover_inv: "failover_inv (new_failover i)"
  by (simp add: failover_inv_def new_failover_def open_pools_def)

lemma failover_runs_inv: "(failover_step n)\<^sup>*\<^sup>* (new_failover i) s \<Longrightarrow> failover_inv s"
  by (induction rule: rtranclp_induct) (auto intro: new_failover_inv failover_inv_step)

section \<open>Properties\<close>

lemma holds_inside: "length (concat (map holds gs)) \<le> length (filter inside gs)"
proof (induction gs)
  case (Cons g gs)
  then show ?case by (cases g) auto
qed simp

lemma holds_between: "\<not> list_ex between gs \<Longrightarrow> concat (map holds gs) = []"
proof (induction gs)
  case (Cons g gs)
  then show ?case by (cases g) auto
qed simp

text \<open>
  C40: The pools of the failover.  Whatever connections fail, whenever, and however the reconnections
  that they start interleave, at most one goroutine reconnects at a time, at most one pool of tunnels
  is open at a time, no pool is closed twice, a closed one is never current again, and none is lost:
  until the function returns, every pool that has been created has been closed or is the open one.
\<close>

theorem failover_pools:
  assumes "(failover_step n)\<^sup>*\<^sup>* (new_failover i) s" and "\<not> fr_returned s"
  shows "length (filter inside (fr_gs s)) \<le> 1 \<and> length (open_pools s) \<le> 1 \<and>
     distinct (fr_closed s @ open_pools s) \<and> set (fr_closed s @ open_pools s) = {..<fr_created s}"
proof -
  have inv: "failover_inv s" using assms(1) by (rule failover_runs_inv)
  then have m: "mset (fr_closed s @ open_pools s) = mset [0..<fr_created s]"
    and one: "length (filter inside (fr_gs s)) \<le> 1"
    using assms(2) by (auto simp: failover_inv_def)
  have "length (open_pools s) \<le> 1"
  proof (cases "fr_currentPool s")
    case None
    then show ?thesis using holds_inside [of "fr_gs s"] one by (simp add: open_pools_def)
  next
    case (Some p)
    with inv have "\<not> list_ex between (fr_gs s)" by (auto simp: failover_inv_def)
    with Some show ?thesis using holds_between [of "fr_gs s"] by (simp add: open_pools_def)
  qed
  moreover have "distinct (fr_closed s @ open_pools s)" using m by (metis distinct_upt mset_eq_imp_distinct_iff)
  moreover have "set (fr_closed s @ open_pools s) = {..<fr_created s}"
    using mset_eq_setD [OF m] by (simp add: atLeast0LessThan)
  ultimately show ?thesis using one by blast
qed

text \<open>
  Two streams fail at once.  The first reconnection skips the second resolver, and the other one then
  closes the healthy pool that the first has installed.
\<close>

theorem failover_pools_witness:
  "\<exists>s. (failover_step 3)\<^sup>*\<^sup>* (new_failover 0) s \<and> fr_created s = 2 \<and> fr_closed s = [0, 1] \<and> open_pools s = [] \<and>
     distinct (fr_closed s @ open_pools s)"
proof -
  have S: "(failover_step 3)\<^sup>*\<^sup>* a c" if "(failover_step 3)\<^sup>*\<^sup>* a b" "failover_step 3 b c" for a b c
    using that by (rule rtranclp.rtrancl_into_rtrancl)
  let ?s = "\<lambda>idx pool rec gs created closed. \<lparr>fr_resolverIndex = idx, fr_currentPool = pool, fr_reconnecting = rec,
      fr_gs = gs, fr_shutdown = False, fr_returned = False, fr_created = created, fr_closed = closed\<rparr>"
  have "(failover_step 3)\<^sup>*\<^sup>* (new_failover 0) (?s 0 (Some 0) False [] 1 [])" by (simp add: new_failover_def)
  from S [OF this failed_stream] have "(failover_step 3)\<^sup>*\<^sup>* (new_failover 0) (?s 1 (Some 0) False [RStart] 1 [])" by simp
  from S [OF this failed_stream] have "(failover_step 3)\<^sup>*\<^sup>* (new_failover 0) (?s 2 (Some 0) False [RStart, RStart] 1 [])"
    by (simp add: numeral_2_eq_2)
  from S [OF this start [where i = 0]] have "(failover_step 3)\<^sup>*\<^sup>* (new_failover 0) (?s 2 (Some 0) True [RClose, RStart] 1 [])" by simp
  from S [OF this close [where i = 0]] have "(failover_step 3)\<^sup>*\<^sup>* (new_failover 0) (?s 2 None True [RLoop True, RStart] 1 [0])" by simp
  from S [OF this look [where i = 0 and b = True]] have "(failover_step 3)\<^sup>*\<^sup>* (new_failover 0) (?s 2 None True [RConnect True, RStart] 1 [0])" by simp
  from S [OF this dial [where i = 0 and b = True]] have "(failover_step 3)\<^sup>*\<^sup>* (new_failover 0) (?s 2 None True [RDialing True 2, RStart] 1 [0])" by simp
  from S [OF this attempt_works [where i = 0 and b = True and k = 2]] have "(failover_step 3)\<^sup>*\<^sup>* (new_failover 0) (?s 2 None True [RConnected 1, RStart] 2 [0])"
    by (simp add: numeral_2_eq_2)
  from S [OF this install [where i = 0 and p = 1]] have "(failover_step 3)\<^sup>*\<^sup>* (new_failover 0) (?s 2 (Some 1) True [RLeave, RStart] 2 [0])" by simp
  from S [OF this leave [where i = 0]] have "(failover_step 3)\<^sup>*\<^sup>* (new_failover 0) (?s 2 (Some 1) False [REnded, RStart] 2 [0])" by simp
  from S [OF this start [where i = 1]] have "(failover_step 3)\<^sup>*\<^sup>* (new_failover 0) (?s 2 (Some 1) True [REnded, RClose] 2 [0])" by simp
  from S [OF this close [where i = 1]] have run: "(failover_step 3)\<^sup>*\<^sup>* (new_failover 0) (?s 2 None True [REnded, RLoop True] 2 [0, 1])" by simp
  have "\<not> fr_returned (?s 2 None True [REnded, RLoop True] 2 [0, 1])" by simp
  from failover_pools [OF run this]
  have "distinct ([0, 1] @ open_pools (?s 2 None True [REnded, RLoop True] 2 [0, 1]))" by simp
  moreover have "open_pools (?s 2 None True [REnded, RLoop True] 2 [0, 1]) = []" by (simp add: open_pools_def)
  ultimately show ?thesis using run by (intro exI [of _ "?s 2 None True [REnded, RLoop True] 2 [0, 1]"] conjI) simp_all
qed

end
