(* ===== verification/ResolverPool.thy ===== *)
theory ResolverPool
  imports Completion
begin

text \<open>
  The concurrent test of a list of resolvers, as in \<open>TestResolversFromFile\<close>
  (\<open>src/dnstt-client/lib/resolver_tester.go\<close>) and \<open>TestResolvers\<close>
  (\<open>src/dnstt-client/mobile/mobile.go\<close>): one goroutine for each resolver, a channel used as a
  semaphore, a bounded channel for the results, one goroutine that closes it, and the caller that
  collects.  The goroutines interleave freely.  The test of a resolver is a parameter here.
\<close>

section \<open>State and steps\<close>

text \<open>
  Where a goroutine is: before \<open>sem <- struct\<close>, in the test, at the send of its result, after it,
  and at the end, with the semaphore released and \<open>wg.Done\<close> called.
\<close>

datatype 'r phase = Waiting | Testing | Sending 'r | Sent | Finished

record 'r pool =
  pl_gs :: "'r phase list"
  pl_resultChan :: "'r list"
  pl_results :: "'r list"
  pl_closed :: bool

fun holds_sem :: "'r phase \<Rightarrow> bool" where
  "holds_sem Testing = True"
| "holds_sem (Sending _) = True"
| "holds_sem Sent = True"
| "holds_sem _ = False"

abbreviation running :: "'r pool \<Rightarrow> nat" where
  "running s \<equiv> length (filter holds_sem (pl_gs s))"

definition new_pool :: "nat \<Rightarrow> 'r pool" where
  "new_pool n = \<lparr>pl_gs = replicate n Waiting, pl_resultChan = [], pl_results = [], pl_closed = False\<rparr>"

inductive pool_step :: "('i \<Rightarrow> 'r) \<Rightarrow> 'i list \<Rightarrow> nat \<Rightarrow> 'r pool \<Rightarrow> 'r pool \<Rightarrow> bool"
  for test items concurrency where
  acquire: "i < length (pl_gs s) \<Longrightarrow> pl_gs s ! i = Waiting \<Longrightarrow> running s < concurrency \<Longrightarrow>
     pool_step test items concurrency s (s\<lparr>pl_gs := (pl_gs s)[i := Testing]\<rparr>)"
| run_test: "i < length (pl_gs s) \<Longrightarrow> pl_gs s ! i = Testing \<Longrightarrow>
     pool_step test items concurrency s (s\<lparr>pl_gs := (pl_gs s)[i := Sending (test (items ! i))]\<rparr>)"
| send_result: "i < length (pl_gs s) \<Longrightarrow> pl_gs s ! i = Sending r \<Longrightarrow>
     length (pl_resultChan s) < concurrency * 2 \<Longrightarrow>
     pool_step test items concurrency s
       (s\<lparr>pl_gs := (pl_gs s)[i := Sent], pl_resultChan := pl_resultChan s @ [r]\<rparr>)"
| release: "i < length (pl_gs s) \<Longrightarrow> pl_gs s ! i = Sent \<Longrightarrow>
     pool_step test items concurrency s (s\<lparr>pl_gs := (pl_gs s)[i := Finished]\<rparr>)"
| close_chan: "\<forall>g \<in> set (pl_gs s). g = Finished \<Longrightarrow> \<not> pl_closed s \<Longrightarrow>
     pool_step test items concurrency s (s\<lparr>pl_closed := True\<rparr>)"
| collect: "pl_resultChan s = r # rs \<Longrightarrow>
     pool_step test items concurrency s (s\<lparr>pl_resultChan := rs, pl_results := pl_results s @ [r]\<rparr>)"

text \<open>The caller's loop over the channel ends when it is closed and empty.\<close>

definition pool_final :: "'r pool \<Rightarrow> bool" where
  "pool_final s \<longleftrightarrow> pl_closed s \<and> pl_resultChan s = []"

section \<open>Invariant and measure\<close>

definition is_sent :: "'r phase \<Rightarrow> bool" where
  "is_sent g \<longleftrightarrow> g = Sent \<or> g = Finished"

abbreviation sent_results :: "('i \<Rightarrow> 'r) \<Rightarrow> 'i list \<Rightarrow> 'r phase list \<Rightarrow> 'r multiset" where
  "sent_results test items \<equiv> results_of (\<lambda>i. test (items ! i)) is_sent"

definition pool_inv :: "('i \<Rightarrow> 'r) \<Rightarrow> 'i list \<Rightarrow> nat \<Rightarrow> 'r pool \<Rightarrow> bool" where
  "pool_inv test items concurrency s \<longleftrightarrow>
     1 \<le> concurrency \<and> length (pl_gs s) = length items \<and> running s \<le> concurrency \<and>
     (\<forall>i<length items. \<forall>r. pl_gs s ! i = Sending r \<longrightarrow> r = test (items ! i)) \<and>
     mset (pl_results s @ pl_resultChan s) = sent_results test items (pl_gs s) \<and>
     (pl_closed s \<longrightarrow> (\<forall>i<length items. pl_gs s ! i = Finished))"

fun weight :: "'r phase \<Rightarrow> nat" where
  "weight Waiting = 5"
| "weight Testing = 4"
| "weight (Sending _) = 3"
| "weight Sent = 1"
| "weight Finished = 0"

definition pool_msr :: "'r pool \<Rightarrow> nat" where
  "pool_msr s =
     sum_list (map weight (pl_gs s)) + length (pl_resultChan s) + (if pl_closed s then 0 else 1)"

lemma sent_results_all:
  assumes "\<forall>g \<in> set gs. g = Finished" and "length gs = length items"
  shows "sent_results test items gs = mset (map test items)"
proof -
  have "map (\<lambda>i. test (items ! i)) [0..<length items] = map test items"
    by (simp add: map_equality_iff)
  then show ?thesis
    using assms results_of_all [of gs is_sent "\<lambda>i. test (items ! i)"] by (auto simp: is_sent_def)
qed

interpretation resolver_pool: completes "pool_step test items concurrency" "pool_inv test items concurrency"
  pool_final pool_msr
  for test :: "'i \<Rightarrow> 'r" and items concurrency
proof
  fix s t :: "'r pool"
  assume inv: "pool_inv test items concurrency s" and step: "pool_step test items concurrency s t"
  from step inv show "pool_inv test items concurrency t"
  proof cases
    case (acquire i)
    with inv show ?thesis using length_filter_update [of i "pl_gs s" holds_sem Testing]
      by (auto simp: pool_inv_def nth_list_update results_of_same is_sent_def)
  next
    case (run_test i)
    with inv show ?thesis using length_filter_update [of i "pl_gs s" holds_sem "Sending (test (items ! i))"]
      by (auto simp: pool_inv_def nth_list_update results_of_same is_sent_def)
  next
    case (send_result i r)
    with inv show ?thesis using length_filter_update [of i "pl_gs s" holds_sem Sent]
      by (auto simp: pool_inv_def nth_list_update results_of_new is_sent_def)
  next
    case (release i)
    with inv show ?thesis using length_filter_update [of i "pl_gs s" holds_sem Finished]
      by (auto simp: pool_inv_def nth_list_update results_of_same is_sent_def)
  qed (auto simp: pool_inv_def all_set_conv_all_nth)
next
  fix s t :: "'r pool"
  assume step: "pool_step test items concurrency s t"
  then show "pool_msr t < pool_msr s"
    by cases (auto simp: pool_msr_def sum_list_update_less [where f = weight and d = 0, simplified]
        sum_list_update_less [where f = weight and d = 1, simplified])
next
  fix s :: "'r pool"
  assume inv: "pool_inv test items concurrency s" and "\<not> pool_final s"
  show "\<exists>t. pool_step test items concurrency s t"
  proof (cases "pl_resultChan s")
    case (Cons r rs)
    then show ?thesis by (blast intro: collect)
  next
    case Nil
    then have open_: "\<not> pl_closed s" using \<open>\<not> pool_final s\<close> by (simp add: pool_final_def)
    show ?thesis
    proof (cases "\<exists>g \<in> set (pl_gs s). holds_sem g")
      case True
      then obtain i where i: "i < length (pl_gs s)" "holds_sem (pl_gs s ! i)"
        by (auto simp: in_set_conv_nth)
      have room: "length (pl_resultChan s) < concurrency * 2" using inv Nil by (simp add: pool_inv_def)
      show ?thesis
      proof (cases "pl_gs s ! i")
        case Testing
        with i(1) show ?thesis by (blast intro: run_test)
      next
        case (Sending r)
        with i(1) room show ?thesis by (blast intro: send_result)
      next
        case Sent
        with i(1) show ?thesis by (blast intro: release)
      qed (use i in simp_all)
    next
      case False
      then have "running s = 0" by auto
      show ?thesis
      proof (cases "\<forall>g \<in> set (pl_gs s). g = Finished")
        case True
        with open_ show ?thesis by (blast intro: close_chan)
      next
        case no: False
        then obtain i where i: "i < length (pl_gs s)" "pl_gs s ! i \<noteq> Finished"
          by (auto simp: in_set_conv_nth)
        moreover from i False have "\<not> holds_sem (pl_gs s ! i)" by simp
        ultimately have "pl_gs s ! i = Waiting" by (cases "pl_gs s ! i") auto
        moreover have "running s < concurrency" using inv \<open>running s = 0\<close> by (simp add: pool_inv_def)
        ultimately show ?thesis using i(1) by (blast intro: acquire)
      qed
    qed
  qed
qed

section \<open>Properties\<close>

lemma new_pool_inv: "1 \<le> concurrency \<Longrightarrow> pool_inv test items concurrency (new_pool (length items))"
  by (simp add: pool_inv_def new_pool_def results_of_none is_sent_def)

text \<open>What a goroutine is about to send is the result of a test.\<close>

lemma pool_sending:
  assumes "pool_inv test items concurrency s" and "Sending r \<in> set (pl_gs s)"
  shows "r \<in> set (map test items)"
proof -
  obtain i where "i < length (pl_gs s)" "pl_gs s ! i = Sending r" using assms(2) by (auto simp: in_set_conv_nth)
  with assms(1) have "i < length items" "r = test (items ! i)" by (simp_all add: pool_inv_def)
  then show ?thesis by simp
qed

lemma pool_final_stuck:
  "pool_inv test items concurrency s \<Longrightarrow> pool_final s \<Longrightarrow> \<not> pool_step test items concurrency s t"
  by (auto simp: pool_inv_def pool_final_def elim!: pool_step.cases)

lemma pool_results:
  assumes "pool_inv test items concurrency (new_pool (length items))"
    and "(pool_step test items concurrency)\<^sup>*\<^sup>* (new_pool (length items)) s" and "pool_final s"
  shows "mset (pl_results s) = mset (map test items)"
proof -
  have "pool_inv test items concurrency s" by (rule resolver_pool.steps_inv [OF assms(2,1)])
  with assms(3) show ?thesis
    using sent_results_all [of "pl_gs s" items test]
    by (auto simp: pool_inv_def pool_final_def all_set_conv_all_nth)
qed

text \<open>
  The concurrent test of the resolvers always ends.  With a concurrency of at least one, every
  schedule of the goroutines stops after at most five steps for each resolver and one more, never
  runs more tests at a time than the concurrency allows, and when nothing can go on any more the
  results are closed and the caller has exactly the test results of all the resolvers, each once.
\<close>

theorem resolver_tests_complete:
  assumes "1 \<le> concurrency" and "(pool_step test items concurrency ^^ n) (new_pool (length items)) s"
  shows "n \<le> 5 * length items + 1 \<and> running s \<le> concurrency \<and>
     ((\<nexists>t. pool_step test items concurrency s t) \<longrightarrow>
        pool_final s \<and> mset (pl_results s) = mset (map test items))"
proof -
  note inv0 = new_pool_inv [OF assms(1), of test items]
  have steps: "(pool_step test items concurrency)\<^sup>*\<^sup>* (new_pool (length items)) s"
    using assms(2) by (rule relpowp_imp_rtranclp)
  have inv: "pool_inv test items concurrency s" by (rule resolver_pool.steps_inv [OF steps inv0])
  have "n \<le> 5 * length items + 1"
    using resolver_pool.run_bounded [OF inv0 assms(2)]
    by (simp add: pool_msr_def new_pool_def sum_list_replicate)
  moreover have "mset (pl_results s) = mset (map test items)" if "pool_final s"
    by (rule pool_results [OF inv0 steps that])
  ultimately show ?thesis
    using inv resolver_pool.stuck_final [OF inv0 steps] by (auto simp: pool_inv_def)
qed

theorem resolver_tests_complete_witness:
  "\<exists>n s. (pool_step (\<lambda>i. i * i) [2, 3] 1 ^^ n) (new_pool (length [2, 3])) s \<and> n \<le> 11 \<and>
     mset (pl_results s) = mset [4, 9 :: nat]"
proof -
  have inv: "pool_inv (\<lambda>i :: nat. i * i) [2, 3] 1 (new_pool (length [2, 3 :: nat]))" by (rule new_pool_inv) simp
  from resolver_pool.reaches_final [OF this] obtain s n where
    s: "(pool_step (\<lambda>i :: nat. i * i) [2, 3] 1 ^^ n) (new_pool (length [2, 3 :: nat])) s"
    "pool_inv (\<lambda>i :: nat. i * i) [2, 3] 1 s" "pool_final s"
    by (auto simp: rtranclp_power)
  moreover have "\<nexists>t. pool_step (\<lambda>i :: nat. i * i) [2, 3] 1 s t" using pool_final_stuck [OF s(2,3)] by blast
  ultimately show ?thesis
    using resolver_tests_complete [OF _ s(1)] by (intro exI [of _ n] exI [of _ s]) simp
qed

text \<open>
  With a concurrency of zero, which \<open>TestResolversFromFile\<close> does not exclude, the semaphore is a
  channel without a buffer and nobody ever receives from it: no goroutine gets past it.
\<close>

lemma zero_concurrency_deadlock:
  "items \<noteq> [] \<Longrightarrow> \<not> pool_step test items 0 (new_pool (length items)) s"
  by (auto simp: new_pool_def elim!: pool_step.cases)

end
