(* ===== verification/ResolverTest.thy ===== *)
theory ResolverTest
  imports ServerPayload ResolverPool
begin

text \<open>
  The test of a DNS resolver (\<open>TestDNSResolver\<close> of \<open>src/dnstt-client/lib/resolver_tester.go\<close>) and
  the test of all the resolvers of a file (\<open>TestResolversFromFile\<close>).  The network is a parameter:
  what dialing, writing and reading give.  The server's answer to the test query is the one that the
  theories on the server compute.
\<close>

section \<open>The test of one resolver\<close>

definition rrTypeA :: u16 where
  "rrTypeA = 1"

text \<open>The reason of a failure; the code has a text for each.\<close>

datatype test_error =
    DialError
  | QueryFormatError
  | WriteError
  | ReadError
  | ParseError
  | NotAResponse
  | UnexpectedNOERROR
  | SERVFAIL
  | REFUSED
  | UnexpectedRCODE u16
  | AuthorityRecords nat

record ResolverTestResult =
  rt_Resolver :: bytes
  rt_Success :: bool
  rt_Latency :: int
  rt_Error :: "test_error option"
  rt_ResponseLen :: nat

definition new_result :: "bytes \<Rightarrow> ResolverTestResult" where
  "new_result resolver =
     \<lparr>rt_Resolver = resolver, rt_Success = False, rt_Latency = 0, rt_Error = None, rt_ResponseLen = 0\<rparr>"

text \<open>The label of the random subdomain; the random bytes are an argument.\<close>

definition generateRandomSubdomain :: "bytes \<Rightarrow> bytes" where
  "generateRandomSubdomain rand = hex_encode (take 8 rand)"

definition test_query :: "bytes \<Rightarrow> Name \<Rightarrow> Message" where
  "test_query rand domain =
     \<lparr>msg_ID = 0x1234, msg_Flags = 0x0100,
      msg_Question = [\<lparr>q_Name = generateRandomSubdomain rand # domain, q_Type = rrTypeA, q_Class = ClassIN\<rparr>],
      msg_Answer = [], msg_Authority = [], msg_Additional = []\<rparr>"

text \<open>What the checks on a parsed response find wrong.\<close>

definition check_response :: "Message \<Rightarrow> test_error option" where
  "check_response resp =
     (if msg_Flags resp AND 0x8000 = 0 then Some NotAResponse
      else
        let rcode = msg_Flags resp AND 0x000f
        in if rcode \<noteq> RcodeNameError then
             Some (if rcode = RcodeNoError then UnexpectedNOERROR
                   else if rcode = 2 then SERVFAIL
                   else if rcode = 5 then REFUSED
                   else UnexpectedRCODE rcode)
           else if length (msg_Authority resp) > 0 then Some (AuthorityRecords (length (msg_Authority resp)))
           else None)"

text \<open>
  The network: whether dialing an address succeeds and whether a query can be written, both within
  the timeout, and the datagram that is read before the deadline, with the time it took.
\<close>

record dns_net =
  dn_Dial :: "int \<Rightarrow> bytes \<Rightarrow> bool"
  dn_Write :: "int \<Rightarrow> bytes \<Rightarrow> bytes \<Rightarrow> bool"
  dn_Read :: "int \<Rightarrow> bytes \<Rightarrow> bytes \<Rightarrow> (bytes \<times> int) option"

definition TestDNSResolver ::
  "dns_net \<Rightarrow> int \<Rightarrow> Name \<Rightarrow> bytes \<times> bytes \<Rightarrow> err + ResolverTestResult" where
  "TestDNSResolver net timeout domain = (\<lambda>(resolver, rand).
     let result = new_result resolver;
         addr = with_port resolver
     in if \<not> dn_Dial net timeout addr then Inr (result\<lparr>rt_Error := Some DialError\<rparr>)
        else case WireFormat (test_query rand domain) of
            Inl e \<Rightarrow> if e = Panic then Inl Panic else Inr (result\<lparr>rt_Error := Some QueryFormatError\<rparr>)
          | Inr query \<Rightarrow>
              if \<not> dn_Write net timeout addr query then Inr (result\<lparr>rt_Error := Some WriteError\<rparr>)
              else case dn_Read net timeout addr query of
                  None \<Rightarrow> Inr (result\<lparr>rt_Error := Some ReadError\<rparr>)
                | Some (datagram, latency) \<Rightarrow>
                    let buf = take 4096 datagram;
                        result = result\<lparr>rt_Latency := latency, rt_ResponseLen := length buf\<rparr>
                    in case MessageFromWireFormat buf of
                        Inl _ \<Rightarrow> Inr (result\<lparr>rt_Error := Some ParseError\<rparr>)
                      | Inr resp \<Rightarrow>
                          (case check_response resp of
                             Some e \<Rightarrow> Inr (result\<lparr>rt_Error := Some e\<rparr>)
                           | None \<Rightarrow> Inr (result\<lparr>rt_Success := True\<rparr>)))"

section \<open>The file of resolvers\<close>

text \<open>
  \<open>bufio.Scanner\<close> with lines: a carriage return before the end of the line is dropped, an empty
  last line is none, and a line of 65536 bytes or more is an error.
\<close>

definition scan_lines :: "bytes \<Rightarrow> err + bytes list" where
  "scan_lines s =
     (let pieces = splitOn 10 s;
          ls = (if last pieces = [] then butlast pieces else pieces)
      in if \<exists>l \<in> set ls. 65536 \<le> length l then Inl Errorf else Inr (map (trimSuffixByte 13) ls))"

text \<open>
  \<open>strings.TrimSpace\<close>: the Unicode tables, for text with other than ASCII bytes at an end, are a
  parameter.
\<close>

definition asciiSpace :: "byte \<Rightarrow> bool" where
  "asciiSpace c \<longleftrightarrow> c \<in> {9, 10, 11, 12, 13, 32}"

definition TrimSpace :: "(bytes \<Rightarrow> bytes) \<Rightarrow> bytes \<Rightarrow> bytes" where
  "TrimSpace uniTrim s =
     (let t = dropWhile asciiSpace s
      in if t \<noteq> [] \<and> hd t \<ge> 0x80 then uniTrim t
         else let r = dropWhile asciiSpace (rev t)
              in if r \<noteq> [] \<and> hd r \<ge> 0x80 then uniTrim (rev r) else rev r)"

text \<open>Empty lines and comments are skipped.\<close>

definition resolver_lines :: "(bytes \<Rightarrow> bytes) \<Rightarrow> bytes list \<Rightarrow> bytes list" where
  "resolver_lines uniTrim ls =
     filter (\<lambda>line. line \<noteq> [] \<and> hd line \<noteq> 35) (map (TrimSpace uniTrim) ls)"

definition read_resolvers :: "(bytes \<Rightarrow> bytes) \<Rightarrow> bytes \<Rightarrow> err + bytes list" where
  "read_resolvers uniTrim content =
     bindE (scan_lines content) (\<lambda>ls.
       let resolvers = resolver_lines uniTrim ls
       in if length resolvers = 0 then Inl Errorf else Inr resolvers)"

section \<open>TestResolversFromFile\<close>

definition successful :: "(err + ResolverTestResult) list \<Rightarrow> ResolverTestResult list" where
  "successful rs =
     concat (map (\<lambda>r. case r of Inl _ \<Rightarrow> [] | Inr x \<Rightarrow> if rt_Success x then [x] else []) rs)"

text \<open>\<open>sort.Slice\<close> sorts, but the order of equal elements is not determined.\<close>

definition sorted_by_latency :: "ResolverTestResult list \<Rightarrow> ResolverTestResult list \<Rightarrow> bool" where
  "sorted_by_latency xs ys \<longleftrightarrow> mset ys = mset xs \<and> sorted_wrt (\<lambda>a b. rt_Latency a \<le> rt_Latency b) ys"

text \<open>
  The arguments are the content of the file (or \<open>None\<close> if it cannot be opened) and the text of the
  domain.  The random bytes of each test are arbitrary, and the goroutines may run in any order.
\<close>

definition before_tests :: "(bytes \<Rightarrow> bytes) \<Rightarrow> bytes option \<Rightarrow> bytes \<Rightarrow> err + Name \<times> bytes list" where
  "before_tests uniTrim contents domain =
     (case contents of
        None \<Rightarrow> Inl Errorf
      | Some content \<Rightarrow>
          bindE (ParseName domain) (\<lambda>domainName.
          bindE (read_resolvers uniTrim content) (\<lambda>resolvers. Inr (domainName, resolvers))))"

inductive TestResolversFromFile ::
  "dns_net \<Rightarrow> (bytes \<Rightarrow> bytes) \<Rightarrow> bytes option \<Rightarrow> bytes \<Rightarrow> int \<Rightarrow> int \<Rightarrow>
     err + ResolverTestResult list \<Rightarrow> bool"
  for net uniTrim contents domain timeout concurrency where
  no_test:
    "before_tests uniTrim contents domain = Inl e \<Longrightarrow>
     TestResolversFromFile net uniTrim contents domain timeout concurrency (Inl e)"
| negative_concurrency:
    "before_tests uniTrim contents domain = Inr (domainName, resolvers) \<Longrightarrow> concurrency < 0 \<Longrightarrow>
     TestResolversFromFile net uniTrim contents domain timeout concurrency (Inl Panic)"
| test_panics:
    "before_tests uniTrim contents domain = Inr (domainName, resolvers) \<Longrightarrow> 0 \<le> concurrency \<Longrightarrow>
     length rands = length resolvers \<Longrightarrow> \<forall>r \<in> set rands. length r = 8 \<Longrightarrow>
     (pool_step (TestDNSResolver net timeout domainName) (zip resolvers rands) (nat concurrency))\<^sup>*\<^sup>*
        (new_pool (length resolvers)) s \<Longrightarrow>
     Sending (Inl Panic) \<in> set (pl_gs s) \<Longrightarrow>
     TestResolversFromFile net uniTrim contents domain timeout concurrency (Inl Panic)"
| tested:
    "before_tests uniTrim contents domain = Inr (domainName, resolvers) \<Longrightarrow> 0 \<le> concurrency \<Longrightarrow>
     length rands = length resolvers \<Longrightarrow> \<forall>r \<in> set rands. length r = 8 \<Longrightarrow>
     (pool_step (TestDNSResolver net timeout domainName) (zip resolvers rands) (nat concurrency))\<^sup>*\<^sup>*
        (new_pool (length resolvers)) s \<Longrightarrow>
     pool_final s \<Longrightarrow> sorted_by_latency (successful (pl_results s)) out \<Longrightarrow>
     TestResolversFromFile net uniTrim contents domain timeout concurrency (Inr out)"

section \<open>Messages of one question\<close>

text \<open>A message that consists of one question is its header and the question, uncompressed.\<close>

lemma one_question_wire:
  assumes "valid_name name" and "msg_Question m = [\<lparr>q_Name = name, q_Type = ty, q_Class = cl\<rparr>]"
    and "msg_Answer m = []" and "msg_Authority m = []" and "msg_Additional m = []"
  shows "\<exists>buf. WireFormat m = Inr buf \<and> MessageFromWireFormat buf = Inr m \<and> length buf = 16 + name_octets name"
proof -
  have "valid_message m" "entries m \<le> Suc compressionPointerLimit"
    using assms by (simp_all add: valid_message_def entries_def valid_Question_def compressionPointerLimit_def)
  then obtain buf where buf: "WireFormat m = Inr buf" "MessageFromWireFormat buf = Inr m"
    using message_roundtrip by blast
  obtain b0 where b0: "write_each WriteCount [length (msg_Question m), length (msg_Answer m),
      length (msg_Authority m), length (msg_Additional m)]
      (builder_Write (be16 (msg_ID m) @ be16 (msg_Flags m)) newMessageBuilder) = Inr b0"
    "length (builder_w b0) = 12" "builder_nameCache b0 = Map.empty"
    using assms(2-5) by (auto simp: WriteCount_ok builder_Write_def)
  have valid: "list_all valid_label name" using assms(1) by (simp add: valid_name_def)
  obtain b1 where b1: "WriteName name b0 = Inr b1" "builder_w b1 = builder_w b0 @ plain_name name"
    using WriteName_first [OF valid b0(3)] by auto
  have "length buf = 16 + name_octets name"
    using buf(1) b0(2) b1 assms(2-5) unfolding WireFormat_def WriteMessage_def b0(1)
    by (auto simp: WriteQuestion_def)
  with buf show ?thesis by blast
qed

lemma length_subdomain [simp]: "8 \<le> length rand \<Longrightarrow> length (generateRandomSubdomain rand) = 16"
  by (simp add: generateRandomSubdomain_def)

lemma test_name_valid:
  assumes "valid_name domain" and "name_octets domain + 17 \<le> 255" and "8 \<le> length rand"
  shows "valid_name (generateRandomSubdomain rand # domain)"
    "name_octets (generateRandomSubdomain rand # domain) = name_octets domain + 17"
  using assms by (auto simp: valid_name_def valid_label_def name_octets_Cons simp flip: length_0_conv)

text \<open>For labels of a domain the test never panics, however long the name gets.\<close>

lemma WireFormat_test_query:
  assumes "list_all valid_label domain" and "8 \<le> length rand"
  shows "WireFormat (test_query rand domain) \<noteq> Inl Panic"
proof -
  let ?m = "test_query rand domain"
  obtain b0 where b0: "write_each WriteCount [length (msg_Question ?m), length (msg_Answer ?m),
      length (msg_Authority ?m), length (msg_Additional ?m)]
      (builder_Write (be16 (msg_ID ?m) @ be16 (msg_Flags ?m)) newMessageBuilder) = Inr b0"
    "builder_nameCache b0 = Map.empty"
    by (auto simp: test_query_def WriteCount_ok builder_Write_def)
  have "list_all valid_label (generateRandomSubdomain rand # domain)"
    using assms by (simp add: valid_label_def flip: length_0_conv)
  from WriteName_first [OF this b0(2)] show ?thesis
    unfolding WireFormat_def WriteMessage_def b0(1) by (auto simp: test_query_def WriteQuestion_def)
qed

lemma TestDNSResolver_Inr:
  "list_all valid_label domain \<Longrightarrow> 8 \<le> length (snd x) \<Longrightarrow> \<exists>y. TestDNSResolver net timeout domain x = Inr y"
  using WireFormat_test_query [of domain "snd x"]
  by (auto simp: TestDNSResolver_def Let_def split: prod.splits sum.splits option.splits)

section \<open>Properties\<close>

lemma TrimSuffix_label: "Name_TrimSuffix u (l # domain) domain = Some [l]"
  by (simp add: Name_TrimSuffix_def Let_def list_all2_refl)

text \<open>
  C21: The server passes its own test.  For a domain with room for the random label, the server
  takes the test query, queues one response, and sends it as a datagram; a resolver that delivers
  this datagram is reported as working, with its latency and the length of the response.
\<close>

theorem own_server_passes:
  assumes "valid_name domain" and "name_octets domain + 17 \<le> 255" and "length rand = 8"
    and "512 \<le> maxUDPPayload" and "length (sv_ch s) < record_chan_cap"
  shows "\<exists>query rec reply.
     WireFormat (test_query rand domain) = Inr query \<and>
     server_recv u maxUDPPayload domain query addr s = s\<lparr>sv_ch := sv_ch s @ [rec]\<rparr> \<and>
     (\<forall>maxEncodedPayload sched now c.
        server_send maxUDPPayload maxEncodedPayload sched now rec c = Inr (Some (reply, addr), None, c)) \<and>
     (\<forall>net timeout resolver latency.
        dn_Dial net timeout (with_port resolver) \<longrightarrow> dn_Write net timeout (with_port resolver) query \<longrightarrow>
        dn_Read net timeout (with_port resolver) query = Some (reply, latency) \<longrightarrow>
        TestDNSResolver net timeout domain (resolver, rand) =
          Inr \<lparr>rt_Resolver = resolver, rt_Success = True, rt_Latency = latency, rt_Error = None,
               rt_ResponseLen = length reply\<rparr>)"
proof -
  let ?name = "generateRandomSubdomain rand # domain"
  let ?q = "\<lparr>q_Name = ?name, q_Type = rrTypeA, q_Class = ClassIN\<rparr>"
  let ?resp = "base_response (test_query rand domain) 0x8403 []"
  let ?rec = "\<lparr>dr_Resp = ?resp, dr_Addr = addr, dr_ClientID = replicate 8 0\<rparr>"
  have name: "valid_name ?name" "name_octets ?name = name_octets domain + 17"
    using test_name_valid assms(1-3) by simp_all
  obtain query where query: "WireFormat (test_query rand domain) = Inr query"
    "MessageFromWireFormat query = Inr (test_query rand domain)" "length query = 16 + name_octets ?name"
    using one_question_wire [OF name(1), of "test_query rand domain"] by (auto simp: test_query_def)
  obtain reply where reply: "WireFormat ?resp = Inr reply" "MessageFromWireFormat reply = Inr ?resp"
    "length reply = 16 + name_octets ?name"
    using one_question_wire [OF name(1), of ?resp] by (auto simp: test_query_def base_response_def)
  have cut: "take 4096 query = query" "take 4096 reply = reply"
    using query(3) reply(3) name(2) assms(2) by simp_all
  have "responseFor u maxUDPPayload (test_query rand domain) domain = (Some ?resp, [])"
    by (simp add: responseFor_table response_table_def answer_question_def test_query_def OPT_records_def
        TrimSuffix_label Opcode_def rrTypeA_def base_response_def)
  then have "server_recv u maxUDPPayload domain query addr s = s\<lparr>sv_ch := sv_ch s @ [?rec]\<rparr>"
    using assms(5) by (simp add: server_recv_def cut query(2) Let_def)
  moreover have "server_send maxUDPPayload n sched now ?rec c = Inr (Some (reply, addr), None, c)"
    for n sched now c
    using reply name(2) assms(2,4) by (simp add: server_send_def fill_response_def response_datagram_def)
  moreover have "TestDNSResolver net timeout domain (resolver, rand) =
      Inr \<lparr>rt_Resolver = resolver, rt_Success = True, rt_Latency = latency, rt_Error = None,
           rt_ResponseLen = length reply\<rparr>"
    if "dn_Dial net timeout (with_port resolver)" "dn_Write net timeout (with_port resolver) query"
      "dn_Read net timeout (with_port resolver) query = Some (reply, latency)"
    for net timeout resolver latency
    using that query(1) reply(2)
    by (simp add: TestDNSResolver_def Let_def cut check_response_def base_response_def new_result_def)
  ultimately show ?thesis using query(1) by blast
qed

text \<open>The domain and the server for the witness.\<close>

theorem own_server_passes_witness:
  "\<exists>query rec reply.
     WireFormat (test_query (replicate 8 7) [[116], [101]]) = Inr query \<and>
     server_recv \<lparr>uniLower = id, uniUpper = id\<rparr> 1232 [[116], [101]] query DummyAddr
       \<lparr>sv_conn = NewQueuePacketConn DummyAddr, sv_ch = []\<rparr> =
       \<lparr>sv_conn = NewQueuePacketConn DummyAddr, sv_ch = [rec]\<rparr> \<and>
     TestDNSResolver \<lparr>dn_Dial = \<lambda>_ _. True, dn_Write = \<lambda>_ _ _. True, dn_Read = \<lambda>_ _ _. Some (reply, 9)\<rparr> 3
       [[116], [101]] ([57], replicate 8 7) =
       Inr \<lparr>rt_Resolver = [57], rt_Success = True, rt_Latency = 9, rt_Error = None,
            rt_ResponseLen = length reply\<rparr>"
proof -
  let ?s = "\<lparr>sv_conn = NewQueuePacketConn DummyAddr, sv_ch = []\<rparr>"
  have a: "valid_name [[116], [101]]" "name_octets [[116], [101 :: byte]] + 17 \<le> 255"
    "length (replicate 8 (7 :: byte)) = 8" "(512 :: int) \<le> 1232" "length (sv_ch ?s) < record_chan_cap"
    by (simp_all add: valid_name_def valid_label_def name_octets_def record_chan_cap_def)
  from own_server_passes [OF a, of "\<lparr>uniLower = id, uniUpper = id\<rparr>" DummyAddr] obtain query rec reply where
    q: "WireFormat (test_query (replicate 8 7) [[116], [101]]) = Inr query"
    "server_recv \<lparr>uniLower = id, uniUpper = id\<rparr> 1232 [[116], [101]] query DummyAddr ?s = ?s\<lparr>sv_ch := sv_ch ?s @ [rec]\<rparr>"
    and t: "\<And>net timeout resolver latency. dn_Dial net timeout (with_port resolver) \<Longrightarrow>
      dn_Write net timeout (with_port resolver) query \<Longrightarrow>
      dn_Read net timeout (with_port resolver) query = Some (reply, latency) \<Longrightarrow>
      TestDNSResolver net timeout [[116], [101]] (resolver, replicate 8 7) =
          Inr \<lparr>rt_Resolver = resolver, rt_Success = True, rt_Latency = latency, rt_Error = None,
               rt_ResponseLen = length reply\<rparr>"
    by blast
  have "TestDNSResolver \<lparr>dn_Dial = \<lambda>_ _. True, dn_Write = \<lambda>_ _ _. True, dn_Read = \<lambda>_ _ _. Some (reply, 9)\<rparr> 3
       [[116], [101]] ([57], replicate 8 7) =
       Inr \<lparr>rt_Resolver = [57], rt_Success = True, rt_Latency = 9, rt_Error = None,
            rt_ResponseLen = length reply\<rparr>"
    by (rule t) simp_all
  with q show ?thesis by (intro exI [of _ query] exI [of _ rec] exI [of _ reply]) simp
qed

section \<open>The test of a file\<close>

lemma successful_Inr: "successful (map Inr xs) = filter rt_Success xs"
  by (induction xs) (simp_all add: successful_def)

lemma mset_successful: "mset rs = mset qs \<Longrightarrow> mset (successful rs) = mset (successful qs)"
  by (simp add: successful_def mset_concat flip: sum_mset_sum_list)

lemma sort_exists: "\<exists>ys. sorted_by_latency xs ys"
proof -
  have "sorted_by_latency xs (sort_key rt_Latency xs)"
    unfolding sorted_by_latency_def using sorted_sort_key [of rt_Latency xs] by (simp add: sorted_map)
  then show ?thesis ..
qed

lemma before_tests_not_Panic: "before_tests uniTrim contents domain \<noteq> Inl Panic"
  using NewName_not_Panic
  by (auto simp: before_tests_def ParseName_def read_resolvers_def scan_lines_def result_simps Let_def
      split: option.splits if_splits)

lemma before_tests_valid:
  "before_tests uniTrim contents domain = Inr (domainName, resolvers) \<Longrightarrow> list_all valid_label domainName"
  by (auto simp: before_tests_def ParseName_def NewName_eq_Inr valid_name_def result_simps Let_def
      split: option.splits if_splits)

lemma tests_Inr:
  assumes "list_all valid_label domainName" and "\<forall>r \<in> set rands. length r = 8"
  shows "\<exists>results. map (TestDNSResolver net timeout domainName) (zip resolvers rands) = map Inr results"
proof -
  have "\<exists>y. TestDNSResolver net timeout domainName x = Inr y" if "x \<in> set (zip resolvers rands)" for x
  proof -
    have "8 \<le> length (snd x)" using assms(2) that by (cases x) (auto dest: set_zip_rightD)
    from TestDNSResolver_Inr [OF assms(1) this] show ?thesis .
  qed
  then obtain f where "\<forall>x \<in> set (zip resolvers rands). TestDNSResolver net timeout domainName x = Inr (f x)"
    by metis
  then show ?thesis by (intro exI [of _ "map f (zip resolvers rands)"]) simp
qed

section \<open>The outcome of TestResolversFromFile\<close>

text \<open>What an outcome has to be.\<close>

definition file_outcome_ok ::
  "dns_net \<Rightarrow> (bytes \<Rightarrow> bytes) \<Rightarrow> bytes option \<Rightarrow> bytes \<Rightarrow> int \<Rightarrow> err + ResolverTestResult list \<Rightarrow> bool" where
  "file_outcome_ok net uniTrim contents domain timeout r \<longleftrightarrow>
     r \<noteq> Inl Panic \<and>
     (case before_tests uniTrim contents domain of
        Inl e \<Rightarrow> r = Inl e
      | Inr (domainName, resolvers) \<Rightarrow> \<exists>out rands results.
          r = Inr out \<and> length rands = length resolvers \<and>
          map (TestDNSResolver net timeout domainName) (zip resolvers rands) = map Inr results \<and>
          mset out = mset (filter rt_Success results) \<and>
          sorted_wrt (\<lambda>a b. rt_Latency a \<le> rt_Latency b) out)"

lemma file_pool_inv:
  assumes "1 \<le> concurrency" and "length rands = length resolvers"
  shows "pool_inv test (zip resolvers rands) (nat concurrency) (new_pool (length resolvers))"
  using new_pool_inv [of "nat concurrency" test "zip resolvers rands"] assms by simp

lemma file_test_with:
  assumes "1 \<le> concurrency" and "before_tests uniTrim contents domain = Inr (domainName, resolvers)"
    and "length rands = length resolvers" and "\<forall>r \<in> set rands. length r = 8"
  shows "\<exists>out. TestResolversFromFile net uniTrim contents domain timeout concurrency (Inr out) \<and>
     mset out = mset (successful (map (TestDNSResolver net timeout domainName) (zip resolvers rands)))"
proof -
  let ?test = "TestDNSResolver net timeout domainName"
  note inv = file_pool_inv [OF assms(1,3), of ?test]
  obtain s where s: "(pool_step ?test (zip resolvers rands) (nat concurrency))\<^sup>*\<^sup>* (new_pool (length resolvers)) s"
    "pool_final s"
    using resolver_pool.reaches_final [OF inv] by blast
  obtain out where out: "sorted_by_latency (successful (pl_results s)) out" using sort_exists by blast
  have "mset (pl_results s) = mset (map ?test (zip resolvers rands))"
    using pool_results [of ?test "zip resolvers rands" "nat concurrency" s] inv s assms(3) by simp
  then have "mset out = mset (successful (map ?test (zip resolvers rands)))"
    using mset_successful out by (metis sorted_by_latency_def)
  then show ?thesis using tested [OF assms(2) _ assms(3,4) s out] assms(1) by auto
qed

lemma file_test_returns:
  assumes "1 \<le> concurrency"
  shows "\<exists>r. TestResolversFromFile net uniTrim contents domain timeout concurrency r"
proof (cases "before_tests uniTrim contents domain")
  case (Inl e)
  then show ?thesis by (blast intro: no_test)
next
  case (Inr b)
  obtain domainName resolvers where b: "b = (domainName, resolvers)" by (cases b)
  show ?thesis
    using file_test_with [OF assms Inr [unfolded b], of "replicate (length resolvers) (replicate 8 0)"] by auto
qed

lemma file_outcome:
  assumes "1 \<le> concurrency" and "TestResolversFromFile net uniTrim contents domain timeout concurrency r"
  shows "file_outcome_ok net uniTrim contents domain timeout r"
  using assms(2)
proof cases
  case (no_test e)
  then show ?thesis using before_tests_not_Panic [of uniTrim contents domain] by (auto simp: file_outcome_ok_def)
next
  case (test_panics domainName resolvers rands s)
  let ?test = "TestDNSResolver net timeout domainName"
  obtain results where "map ?test (zip resolvers rands) = map Inr results"
    using tests_Inr before_tests_valid test_panics(2,5) by blast
  moreover have "pool_inv ?test (zip resolvers rands) (nat concurrency) s"
    using resolver_pool.steps_inv file_pool_inv [OF assms(1)] test_panics by blast
  ultimately have "Inl Panic \<in> set (map Inr results :: (err + ResolverTestResult) list)"
    using pool_sending test_panics(7) by metis
  then show ?thesis by auto
next
  case (tested domainName resolvers rands s out)
  let ?test = "TestDNSResolver net timeout domainName"
  obtain results where results: "map ?test (zip resolvers rands) = map Inr results"
    using tests_Inr before_tests_valid tested(2,5) by blast
  have "mset (pl_results s) = mset (map ?test (zip resolvers rands))"
    using pool_results [of ?test "zip resolvers rands" "nat concurrency" s]
      file_pool_inv [OF assms(1) tested(4), of ?test] tested(4,6,7) by simp
  then have "mset (successful (pl_results s)) = mset (filter rt_Success results)"
    using mset_successful [of "pl_results s" "map Inr results"] by (simp add: results successful_Inr)
  with tested results show ?thesis by (auto simp: sorted_by_latency_def file_outcome_ok_def)
qed (use assms in simp_all)



end
