(* ===== verification/TunnelSearch.thy ===== *)
theory TunnelSearch
  imports ResolverTest Tunnel
begin

text \<open>
  The search for a resolver that carries a whole tunnel (\<open>TestTunnelConnection\<close> and
  \<open>TestAndConnectWithResolver\<close> of \<open>src/dnstt-client/lib/resolver_tester.go\<close>): one goroutine for each
  candidate, a semaphore, and a context that the caller cancels when the first result is a success.
\<close>

section \<open>TestTunnelConnection\<close>

text \<open>
  \<open>create\<close> is \<open>createTunnel\<close> over UDP, with the time that it takes; the tunnel is closed again.  The
  result is the error.
\<close>

definition TestTunnelConnection ::
  "(Name \<Rightarrow> int \<Rightarrow> bytes \<Rightarrow> int \<times> (err + Tunnel)) \<Rightarrow> bytes \<Rightarrow> bytes \<Rightarrow> int \<Rightarrow> err option" where
  "TestTunnelConnection create resolver domain timeout =
     (case ParseName domain of
        Inl _ \<Rightarrow> Some Errorf
      | Inr domainName \<Rightarrow>
          let mtu = client_mtu domainName
          in if mtu < 80 then Some Errorf
             else case create domainName mtu (with_port resolver) of
                 (elapsed, result) \<Rightarrow>
                   if elapsed > timeout then Some Errorf
                   else (case result of Inl _ \<Rightarrow> Some Errorf | Inr _ \<Rightarrow> None))"

text \<open>The candidates: the resolvers with a latency below half a second, or all if there are none.\<close>

definition candidates :: "ResolverTestResult list \<Rightarrow> ResolverTestResult list" where
  "candidates resolvers =
     (let cs = filter (\<lambda>r. rt_Latency r < 500 * ms) resolvers
      in if length cs = 0 then resolvers else cs)"

section \<open>The goroutines\<close>

text \<open>The result of a test; its error is \<open>nil\<close> exactly when it is a success.\<close>

record TunnelTestResult =
  tt_Resolver :: bytes
  tt_Success :: bool

definition test_result :: "(nat \<Rightarrow> bool) \<Rightarrow> bytes list \<Rightarrow> nat \<Rightarrow> TunnelTestResult" where
  "test_result test names i = \<lparr>tt_Resolver = names ! i, tt_Success = test i\<rparr>"

lemma test_result_simps [simp]:
  "tt_Resolver (test_result test names i) = names ! i" "tt_Success (test_result test names i) = test i"
  by (simp_all add: test_result_def)

text \<open>
  A goroutine: at the first select, after it, in the test, at the send of its result, after that,
  and ended, with the semaphore released.
\<close>

datatype stage = SWaiting | SAcquired | STesting | SSending TunnelTestResult | SDone | SFinished

text \<open>The caller: collecting, with the failures so far, draining the channel, or returned.\<close>

datatype collector = Collecting "TunnelTestResult list" | Draining bytes | Returned "err + bytes"

record search_state =
  se_gs :: "stage list"
  se_ctxDone :: bool
  se_resultChan :: "TunnelTestResult list"
  se_closed :: bool
  se_main :: collector

definition new_search :: "nat \<Rightarrow> search_state" where
  "new_search n = \<lparr>se_gs = replicate n SWaiting, se_ctxDone = False, se_resultChan = [],
     se_closed = False, se_main = Collecting []\<rparr>"

fun in_sem :: "stage \<Rightarrow> bool" where
  "in_sem SWaiting = False"
| "in_sem SFinished = False"
| "in_sem _ = True"

abbreviation testing :: "search_state \<Rightarrow> nat" where
  "testing s \<equiv> length (filter in_sem (se_gs s))"

text \<open>\<open>test i\<close> is whether the test of the \<open>i\<close>-th candidate succeeds, \<open>names ! i\<close> its address.\<close>

inductive search_step ::
  "(nat \<Rightarrow> bool) \<Rightarrow> bytes list \<Rightarrow> nat \<Rightarrow> search_state \<Rightarrow> search_state \<Rightarrow> bool"
  for test names concurrency where
  s_acquire: "i < length (se_gs s) \<Longrightarrow> se_gs s ! i = SWaiting \<Longrightarrow> testing s < concurrency \<Longrightarrow>
     search_step test names concurrency s (s\<lparr>se_gs := (se_gs s)[i := SAcquired]\<rparr>)"
| s_cancelled: "i < length (se_gs s) \<Longrightarrow> se_gs s ! i = SWaiting \<Longrightarrow> se_ctxDone s \<Longrightarrow>
     search_step test names concurrency s (s\<lparr>se_gs := (se_gs s)[i := SFinished]\<rparr>)"
| s_check: "i < length (se_gs s) \<Longrightarrow> se_gs s ! i = SAcquired \<Longrightarrow>
     search_step test names concurrency s
       (s\<lparr>se_gs := (se_gs s)[i := (if se_ctxDone s then SDone else STesting)]\<rparr>)"
| s_test: "i < length (se_gs s) \<Longrightarrow> se_gs s ! i = STesting \<Longrightarrow>
     search_step test names concurrency s (s\<lparr>se_gs := (se_gs s)[i := SSending (test_result test names i)]\<rparr>)"
| s_send: "i < length (se_gs s) \<Longrightarrow> se_gs s ! i = SSending r \<Longrightarrow>
     length (se_resultChan s) < length names \<Longrightarrow>
     search_step test names concurrency s
       (s\<lparr>se_gs := (se_gs s)[i := SDone], se_resultChan := se_resultChan s @ [r]\<rparr>)"
| s_drop: "i < length (se_gs s) \<Longrightarrow> se_gs s ! i = SSending r \<Longrightarrow> se_ctxDone s \<Longrightarrow>
     search_step test names concurrency s (s\<lparr>se_gs := (se_gs s)[i := SDone]\<rparr>)"
| s_release: "i < length (se_gs s) \<Longrightarrow> se_gs s ! i = SDone \<Longrightarrow>
     search_step test names concurrency s (s\<lparr>se_gs := (se_gs s)[i := SFinished]\<rparr>)"
| s_close: "\<forall>i<length (se_gs s). se_gs s ! i = SFinished \<Longrightarrow> \<not> se_closed s \<Longrightarrow>
     search_step test names concurrency s (s\<lparr>se_closed := True\<rparr>)"
| s_failure: "se_main s = Collecting fs \<Longrightarrow> se_resultChan s = r # rs \<Longrightarrow> \<not> tt_Success r \<Longrightarrow>
     search_step test names concurrency s (s\<lparr>se_resultChan := rs, se_main := Collecting (fs @ [r])\<rparr>)"
| s_success: "se_main s = Collecting fs \<Longrightarrow> se_resultChan s = r # rs \<Longrightarrow> tt_Success r \<Longrightarrow>
     search_step test names concurrency s
       (s\<lparr>se_resultChan := rs, se_ctxDone := True, se_main := Draining (tt_Resolver r)\<rparr>)"
| s_drain: "se_main s = Draining x \<Longrightarrow> se_resultChan s = r # rs \<Longrightarrow>
     search_step test names concurrency s (s\<lparr>se_resultChan := rs\<rparr>)"
| s_found: "se_main s = Draining x \<Longrightarrow> se_closed s \<Longrightarrow> se_resultChan s = [] \<Longrightarrow>
     search_step test names concurrency s (s\<lparr>se_main := Returned (Inr x)\<rparr>)"
| s_none: "se_main s = Collecting fs \<Longrightarrow> se_closed s \<Longrightarrow> se_resultChan s = [] \<Longrightarrow>
     search_step test names concurrency s (s\<lparr>se_ctxDone := True, se_main := Returned (Inl Errorf)\<rparr>)"

definition search_final :: "search_state \<Rightarrow> bool" where
  "search_final s \<longleftrightarrow> (\<exists>r. se_main s = Returned r)"

text \<open>
  \<open>TestAndConnectWithResolver\<close>, for any schedule; \<open>create i\<close> is \<open>createTunnel\<close> in the test of the
  \<open>i\<close>-th candidate.
\<close>

definition candidate_names :: "ResolverTestResult list \<Rightarrow> bytes list" where
  "candidate_names resolvers = map rt_Resolver (candidates resolvers)"

definition tunnel_works ::
  "(nat \<Rightarrow> Name \<Rightarrow> int \<Rightarrow> bytes \<Rightarrow> int \<times> (err + Tunnel)) \<Rightarrow> bytes list \<Rightarrow> bytes \<Rightarrow> int \<Rightarrow> nat \<Rightarrow> bool" where
  "tunnel_works create names domain timeout i \<longleftrightarrow>
     TestTunnelConnection (create i) (names ! i) domain timeout = None"

inductive TestAndConnectWithResolver ::
  "(nat \<Rightarrow> Name \<Rightarrow> int \<Rightarrow> bytes \<Rightarrow> int \<times> (err + Tunnel)) \<Rightarrow> ResolverTestResult list \<Rightarrow> bytes \<Rightarrow> int \<Rightarrow>
     err + bytes \<Rightarrow> bool"
  for create resolvers domain timeout where
  no_resolvers: "resolvers = [] \<Longrightarrow> TestAndConnectWithResolver create resolvers domain timeout (Inl Errorf)"
| searched: "resolvers \<noteq> [] \<Longrightarrow> names = candidate_names resolvers \<Longrightarrow>
     (search_step (tunnel_works create names domain timeout) names
        (min 30 (length names)))\<^sup>*\<^sup>* (new_search (length names)) s \<Longrightarrow>
     se_main s = Returned r \<Longrightarrow>
     TestAndConnectWithResolver create resolvers domain timeout r"

section \<open>Invariant and measure\<close>

definition is_over :: "stage \<Rightarrow> bool" where
  "is_over g \<longleftrightarrow> g = SDone \<or> g = SFinished"

definition collector_inv :: "(nat \<Rightarrow> bool) \<Rightarrow> bytes list \<Rightarrow> search_state \<Rightarrow> bool" where
  "collector_inv test names s =
     (case se_main s of
        Collecting fs \<Rightarrow> \<not> se_ctxDone s \<and> (\<forall>r \<in> set fs. \<not> tt_Success r) \<and>
          mset (fs @ se_resultChan s) = results_of (test_result test names) is_over (se_gs s)
      | Draining x \<Rightarrow> se_ctxDone s \<and> (\<exists>i<length names. x = names ! i \<and> test i)
      | Returned (Inr x) \<Rightarrow> se_ctxDone s \<and> (\<exists>i<length names. x = names ! i \<and> test i)
      | Returned (Inl _) \<Rightarrow> se_ctxDone s \<and> (\<forall>i<length names. \<not> test i))"

definition search_inv :: "(nat \<Rightarrow> bool) \<Rightarrow> bytes list \<Rightarrow> nat \<Rightarrow> search_state \<Rightarrow> bool" where
  "search_inv test names concurrency s \<longleftrightarrow>
     1 \<le> concurrency \<and> length (se_gs s) = length names \<and> testing s \<le> concurrency \<and>
     (\<forall>i<length names. \<forall>r. se_gs s ! i = SSending r \<longrightarrow> r = test_result test names i) \<and>
     (\<forall>r \<in> set (se_resultChan s). \<exists>i<length names. r = test_result test names i) \<and>
     (se_closed s \<longrightarrow> (\<forall>i<length names. se_gs s ! i = SFinished)) \<and>
     collector_inv test names s"

fun stage_weight :: "stage \<Rightarrow> nat" where
  "stage_weight SWaiting = 6"
| "stage_weight SAcquired = 5"
| "stage_weight STesting = 4"
| "stage_weight (SSending _) = 3"
| "stage_weight SDone = 1"
| "stage_weight SFinished = 0"

definition search_msr :: "search_state \<Rightarrow> nat" where
  "search_msr s = sum_list (map stage_weight (se_gs s)) + length (se_resultChan s) +
     (if se_closed s then 0 else 1) +
     (case se_main s of Collecting _ \<Rightarrow> 2 | Draining _ \<Rightarrow> 1 | Returned _ \<Rightarrow> 0)"

lemma search_msr_decreases: "search_step test names concurrency s t \<Longrightarrow> search_msr t < search_msr s"
  by (cases rule: search_step.cases)
    (auto simp: search_msr_def sum_list_update_less [where f = stage_weight and d = 0, simplified]
      sum_list_update_less [where f = stage_weight and d = 1, simplified])

lemma in_sem_bound:
  assumes "i < length (se_gs s)" and "testing s \<le> concurrency"
    and "in_sem g \<Longrightarrow> in_sem (se_gs s ! i) \<or> testing s < concurrency"
  shows "length (filter in_sem ((se_gs s)[i := g])) \<le> concurrency"
  using length_filter_update [OF assms(1), of in_sem g] assms(2,3) by (auto split: if_splits)

text \<open>A step of one goroutine that sends nothing, and one after the cancellation.\<close>

lemma collector_inv_same:
  assumes "collector_inv test names s" and "i < length (se_gs s)"
    and "is_over g = is_over (se_gs s ! i) \<or> se_ctxDone s"
  shows "collector_inv test names (s\<lparr>se_gs := (se_gs s)[i := g]\<rparr>)"
  using assms by (cases "se_main s") (auto simp: collector_inv_def results_of_same split: sum.splits)

lemma collector_inv_send:
  assumes "collector_inv test names s" and "i < length (se_gs s)" and "\<not> is_over (se_gs s ! i)"
    and "is_over g" and "r = test_result test names i"
  shows "collector_inv test names (s\<lparr>se_gs := (se_gs s)[i := g], se_resultChan := se_resultChan s @ [r]\<rparr>)"
  using assms by (cases "se_main s") (auto simp: collector_inv_def results_of_new split: sum.splits)

lemma search_inv_goroutine:
  assumes "search_inv test names concurrency s" and "i < length (se_gs s)" and "se_gs s ! i \<noteq> SFinished"
    and "in_sem g \<Longrightarrow> in_sem (se_gs s ! i) \<or> testing s < concurrency"
    and "\<And>r. g = SSending r \<Longrightarrow> r = test_result test names i"
    and "is_over g = is_over (se_gs s ! i) \<or> se_ctxDone s"
  shows "search_inv test names concurrency (s\<lparr>se_gs := (se_gs s)[i := g]\<rparr>)"
  using assms in_sem_bound [of i s concurrency g] collector_inv_same [of test names s i g]
  by (auto simp: search_inv_def nth_list_update)

lemma search_inv_step:
  assumes "search_inv test names concurrency s" and "search_step test names concurrency s t"
  shows "search_inv test names concurrency t"
  using assms(2,1)
proof cases
  case (s_send i r)
  have r: "r = test_result test names i" "i < length names"
    using s_send(2,3) assms(1) unfolding search_inv_def by auto
  have gs: "length (filter in_sem ((se_gs s)[i := SDone])) \<le> concurrency"
    using in_sem_bound [of i s concurrency SDone] s_send(2,3) assms(1) unfolding search_inv_def by auto
  have "collector_inv test names t"
    unfolding s_send(1)
  proof (rule collector_inv_send)
    show "collector_inv test names s" using assms(1) by (simp add: search_inv_def)
    show "r = test_result test names i" by (rule r(1))
  qed (simp_all add: s_send(2,3) is_over_def)
  moreover have "\<forall>q \<in> set (se_resultChan t). \<exists>j<length names. q = test_result test names j"
    using assms(1) r unfolding search_inv_def s_send(1) by auto
  moreover have "\<not> se_closed s" using s_send(2,3) assms(1) unfolding search_inv_def by auto
  ultimately show ?thesis
    using assms(1) gs s_send(2) unfolding s_send(1) search_inv_def
    by (auto simp: nth_list_update split: if_splits)
next
  case (s_failure fs r rs)
  with assms(1) show ?thesis by (auto simp: search_inv_def collector_inv_def)
next
  case (s_success fs r rs)
  with assms(1) show ?thesis by (auto simp: search_inv_def collector_inv_def)
next
  case (s_drain x r rs)
  with assms(1) show ?thesis by (auto simp: search_inv_def collector_inv_def)
next
  case (s_found x)
  with assms(1) show ?thesis by (auto simp: search_inv_def collector_inv_def)
next
  case (s_none fs)
  have "results_of (test_result test names) is_over (se_gs s) = mset (map (test_result test names) [0..<length names])"
    using assms(1) s_none by (subst results_of_all) (auto simp: search_inv_def is_over_def)
  then have "mset fs = mset (map (test_result test names) [0..<length names])"
    using assms(1) s_none by (simp add: search_inv_def collector_inv_def)
  then have "set fs = (test_result test names) ` {0..<length names}"
    by (metis set_mset_mset set_map set_upt)
  with s_none assms(1) show ?thesis by (auto simp: search_inv_def collector_inv_def)
next
  case s_close
  have "collector_inv test names (s\<lparr>se_closed := True\<rparr>) = collector_inv test names s"
    by (cases "se_main s") (simp_all add: collector_inv_def split: sum.split)
  with s_close assms(1) show ?thesis by (simp add: search_inv_def)
qed (auto intro!: search_inv_goroutine simp: is_over_def)

lemma search_room:
  assumes "search_inv test names concurrency s" and "i < length (se_gs s)" and "\<not> is_over (se_gs s ! i)"
    and "se_main s = Collecting fs"
  shows "length (se_resultChan s) < length names"
proof -
  have "length fs + length (se_resultChan s) = size (results_of (test_result test names) is_over (se_gs s))"
    using assms(1,4) by (auto simp: search_inv_def collector_inv_def dest: arg_cong [of _ _ size])
  moreover have "size (results_of (test_result test names) is_over (se_gs s)) < length (se_gs s)"
    using assms(2,3) by (rule size_results_of_less)
  ultimately show ?thesis using assms(1) by (simp add: search_inv_def)
qed

text \<open>A goroutine that has the semaphore can go on.\<close>

lemma search_goroutine_progress:
  assumes "search_inv test names concurrency s" and "i < length (se_gs s)" and "in_sem (se_gs s ! i)"
  shows "\<exists>t. search_step test names concurrency s t"
proof (cases "se_gs s ! i")
  case SAcquired
  then show ?thesis using assms(2) by (blast intro: s_check)
next
  case STesting
  then show ?thesis using assms(2) by (blast intro: s_test)
next
  case (SSending r)
  show ?thesis
  proof (cases "se_ctxDone s")
    case True
    with SSending assms(2) show ?thesis by (blast intro: s_drop)
  next
    case False
    then obtain fs where "se_main s = Collecting fs"
      using assms(1) by (cases "se_main s") (auto simp: search_inv_def collector_inv_def split: sum.splits)
    from search_room [OF assms(1,2) _ this] SSending assms(2) show ?thesis
      by (auto simp: is_over_def intro: s_send)
  qed
next
  case SDone
  then show ?thesis using assms(2) by (blast intro: s_release)
qed (use assms(3) in simp_all)

lemma search_progress:
  assumes "search_inv test names concurrency s" and "\<not> search_final s"
  shows "\<exists>t. search_step test names concurrency s t"
proof (cases "\<exists>i<length (se_gs s). in_sem (se_gs s ! i)")
  case True
  then show ?thesis using search_goroutine_progress assms(1) by blast
next
  case idle: False
  then have "filter in_sem (se_gs s) = []" by (auto simp: filter_empty_conv in_set_conv_nth)
  then have free: "testing s < concurrency" using assms(1) by (simp add: search_inv_def)
  show ?thesis
  proof (cases "\<forall>i<length (se_gs s). se_gs s ! i = SFinished")
    case False
    then obtain i where "i < length (se_gs s)" "se_gs s ! i = SWaiting"
      using idle by (metis in_sem.elims(3))
    with free show ?thesis by (blast intro: s_acquire)
  next
    case True
    show ?thesis
    proof (cases "se_closed s")
      case False
      with True show ?thesis by (blast intro: s_close)
    next
      case closed: True
      show ?thesis
      proof (cases "se_resultChan s")
        case Nil
        with closed assms(2) show ?thesis
          by (cases "se_main s") (auto simp: search_final_def intro: s_none s_found)
      next
        case (Cons r rs)
        with assms(2) show ?thesis
          by (cases "se_main s"; cases "tt_Success r")
            (auto simp: search_final_def intro: s_success s_failure s_drain)
      qed
    qed
  qed
qed

interpretation tunnel_search: completes "search_step test names concurrency" "search_inv test names concurrency"
  search_final search_msr
  for test names concurrency
  by unfold_locales (blast intro: search_inv_step search_msr_decreases search_progress)+

section \<open>Properties\<close>

lemma new_search_inv: "1 \<le> concurrency \<Longrightarrow> search_inv test names concurrency (new_search (length names))"
  by (simp add: search_inv_def collector_inv_def new_search_def results_of_none is_over_def)

lemma search_outcome:
  assumes "search_inv test names concurrency s" and "se_main s = Returned r"
  shows "case r of Inr x \<Rightarrow> \<exists>i<length names. x = names ! i \<and> test i | Inl _ \<Rightarrow> \<forall>i<length names. \<not> test i"
  using assms by (auto simp: search_inv_def collector_inv_def split: sum.splits)

lemma candidate_names_nonempty: "resolvers \<noteq> [] \<Longrightarrow> 1 \<le> min 30 (length (candidate_names resolvers))"
  by (cases "candidate_names resolvers") (auto simp: candidate_names_def candidates_def Let_def split: if_splits)

lemma search_returned:
  assumes "resolvers \<noteq> []" and "TestAndConnectWithResolver create resolvers domain timeout r"
    and "names = candidate_names resolvers"
  shows "case r of
       Inr x \<Rightarrow> \<exists>i<length names. x = names ! i \<and> tunnel_works create names domain timeout i
     | Inl _ \<Rightarrow> \<forall>i<length names. \<not> tunnel_works create names domain timeout i"
  using assms(2)
proof cases
  case (searched names' s)
  then have "names' = names" using assms(3) by simp
  with searched tunnel_search.steps_inv [OF searched(3)]
    new_search_inv [OF candidate_names_nonempty [OF assms(1)], of "tunnel_works create names domain timeout"]
  have "search_inv (tunnel_works create names domain timeout) names (min 30 (length names)) s"
    by (simp add: assms(3))
  from search_outcome [OF this searched(4)] show ?thesis .
qed (use assms(1) in simp)

lemma search_returns:
  assumes "resolvers \<noteq> []"
  shows "\<exists>r. TestAndConnectWithResolver create resolvers domain timeout r"
proof -
  note inv0 = new_search_inv [OF candidate_names_nonempty [OF assms],
      of "tunnel_works create (candidate_names resolvers) domain timeout"]
  show ?thesis
    using tunnel_search.reaches_final [OF inv0] searched [OF assms refl] unfolding search_final_def by blast
qed

text \<open>
  C23: The parallel search for a tunnel.  For any list of resolvers with at least one and any schedule
  of the goroutines, the search never runs more than 30 tests at a time, cannot go on for more than
  six steps for each candidate and three more, and cannot get stuck before it returns.  It has an
  outcome, and every outcome is right: a candidate whose tunnel test succeeds, or the error, and then
  the tunnel tests of all candidates fail.
\<close>

theorem tunnel_search_correct:
  assumes "resolvers \<noteq> []" and "names = candidate_names resolvers"
    and "works = tunnel_works create names domain timeout"
  shows "(\<exists>r. TestAndConnectWithResolver create resolvers domain timeout r) \<and>
    (\<forall>r. TestAndConnectWithResolver create resolvers domain timeout r \<longrightarrow>
       (case r of
          Inr x \<Rightarrow> \<exists>i<length names. x = names ! i \<and> works i
        | Inl _ \<Rightarrow> \<forall>i<length names. \<not> works i)) \<and>
    (\<forall>n s. (search_step works names (min 30 (length names)) ^^ n) (new_search (length names)) s \<longrightarrow>
       n \<le> 6 * length names + 3 \<and> testing s \<le> 30 \<and>
       ((\<nexists>t. search_step works names (min 30 (length names)) s t) \<longrightarrow> search_final s))"
proof -
  let ?c = "min 30 (length names)"
  have c: "1 \<le> ?c" using candidate_names_nonempty [OF assms(1)] unfolding assms(2) .
  note inv0 = new_search_inv [OF c, of works]
  have main: "n \<le> 6 * length names + 3 \<and> testing s \<le> 30 \<and> ((\<nexists>t. search_step works names ?c s t) \<longrightarrow> search_final s)"
    if run: "(search_step works names ?c ^^ n) (new_search (length names)) s" for n s
  proof -
    have steps: "(search_step works names ?c)\<^sup>*\<^sup>* (new_search (length names)) s"
      using run by (rule relpowp_imp_rtranclp)
    have "testing s \<le> ?c" using tunnel_search.steps_inv [OF steps inv0] by (simp add: search_inv_def)
    then show ?thesis
      using tunnel_search.run_bounded [OF inv0 run] tunnel_search.stuck_final [OF inv0 steps]
      by (auto simp: search_msr_def new_search_def sum_list_replicate)
  qed
  show ?thesis
    using main search_returns [OF assms(1)] search_returned [OF assms(1) _ assms(2)] unfolding assms(3) by blast
qed

text \<open>A resolver that is fast and works, and one that is too slow to be a candidate.\<close>

definition found_resolvers :: "ResolverTestResult list" where
  "found_resolvers =
     [\<lparr>rt_Resolver = [49], rt_Success = True, rt_Latency = 9 * ms, rt_Error = None, rt_ResponseLen = 40\<rparr>,
      \<lparr>rt_Resolver = [50], rt_Success = True, rt_Latency = 900 * ms, rt_Error = None, rt_ResponseLen = 40\<rparr>]"

theorem tunnel_search_correct_witness:
  "TestAndConnectWithResolver (\<lambda>i _ _ _. (int i, Inr (bare_tunnel 1))) found_resolvers [116] 5 (Inr [49])"
proof -
  let ?create = "\<lambda>(i :: nat) (_ :: Name) (_ :: int) (_ :: bytes). (int i, Inr (bare_tunnel 1) :: err + Tunnel)"
  have names: "candidate_names found_resolvers = [[49]]"
    by (simp add: candidate_names_def candidates_def found_resolvers_def ms_def)
  have "found_resolvers \<noteq> []" by (simp add: found_resolvers_def)
  from tunnel_search_correct [OF this refl refl, of ?create "[116]" 5]
  obtain r where r: "TestAndConnectWithResolver ?create found_resolvers [116] 5 r"
    "case r of Inr x \<Rightarrow> x = [49] | Inl _ \<Rightarrow> \<not> tunnel_works ?create [[49]] [116] 5 0"
    unfolding names by (auto split: sum.splits)
  have "ParseName [116] = Inr [[116]]"
    by (simp add: ParseName_def trimSuffixByte_def valid_name_def valid_label_def name_octets_def)
  moreover have "client_mtu [[116]] = 142"
    by (simp add: client_mtu_def dnsNameCapacity_def quo_def numPadding_def Let_def)
  ultimately have "tunnel_works ?create [[49]] [116] 5 0"
    by (simp add: tunnel_works_def TestTunnelConnection_def)
  with r show ?thesis by (cases r) auto
qed

end
