(* ===== verification/WeightedList.thy ===== *)
theory WeightedList
  imports GoStd
begin

text \<open>
  Weighted distributions (\<open>src/dnstt-client/lib/weightedlist.go\<close>): the tokenizer and the state
  machine of \<open>parseWeightedList\<close>, and the random choice \<open>sampleWeighted\<close>.  The string \<open>s\<close> and
  the index \<open>i\<close> of the code are the bytes from \<open>i\<close> on; the random number generator is a
  parameter.
\<close>

section \<open>Tokens\<close>

datatype token = kindEOF | kindComma | kindAsterisk | kindText bytes | kindError

text \<open>
  The loop over the bytes of a text token.  A backslash at the end of the string makes the code
  evaluate \<open>s[i]\<close> with \<open>i = len(s)\<close>, in the message of the error token that it would return.
\<close>

fun scan_text :: "bytes \<Rightarrow> bytes \<Rightarrow> err + bytes \<times> bytes" where
  "scan_text acc [] = Inr (acc, [])"
| "scan_text acc (b # r) =
     (if b = 44 \<or> b = 42 then Inr (acc, b # r)
      else if b = 92 then (case r of [] \<Rightarrow> Inl Panic | d # r' \<Rightarrow> scan_text (acc @ [d]) r')
      else scan_text (acc @ [b]) r)"

definition nextToken :: "bytes \<Rightarrow> err + token \<times> bytes" where
  "nextToken s =
     (case s of
        [] \<Rightarrow> Inr (kindEOF, [])
      | b # r \<Rightarrow>
          if b = 44 then Inr (kindComma, r)
          else if b = 42 then Inr (kindAsterisk, r)
          else bindE (scan_text [] s) (\<lambda>(acc, r'). Inr (kindText acc, r')))"

definition peekToken :: "bytes \<Rightarrow> err + token" where
  "peekToken s = bindE (nextToken s) (\<lambda>(t, _). Inr t)"

lemma scan_text_length: "scan_text acc s = Inr (t, r) \<Longrightarrow> length r \<le> length s"
  by (induction acc s rule: scan_text.induct) (auto split: if_splits list.splits)

lemma nextToken_length:
  "nextToken s = Inr (t, r) \<Longrightarrow> length r \<le> length s \<and> (t \<noteq> kindEOF \<longrightarrow> length r < length s)"
proof (cases s)
  case (Cons b s')
  assume "nextToken s = Inr (t, r)"
  with Cons show ?thesis
    by (auto simp: nextToken_def result_simps le_imp_less_Suc split: if_splits list.splits dest!: scan_text_length)
qed (simp add: nextToken_def)

section \<open>parseWeightedList\<close>

datatype pstate = stateBeginEntry | stateLabel | stateEndEntry | stateDone | stateUnexpected

text \<open>
  The loop over the states, with the variables \<open>weights\<close>, \<open>labels\<close>, \<open>weightString\<close> and
  \<open>label\<close>.  The token \<open>t\<close> is only read by \<open>stateUnexpected\<close>, for the text of the error.
\<close>

function parse_loop ::
  "pstate \<Rightarrow> bytes \<Rightarrow> u32 list \<Rightarrow> bytes list \<Rightarrow> bytes \<Rightarrow> bytes \<Rightarrow> err + u32 list \<times> bytes list" where
  "parse_loop stateBeginEntry s weights labels weightString label =
     bindE (nextToken s) (\<lambda>(t, r).
       case t of
         kindText acc \<Rightarrow>
           bindE (peekToken r) (\<lambda>u.
             if u = kindAsterisk then
               bindE (nextToken r) (\<lambda>(_, r'). parse_loop stateLabel r' weights labels acc label)
             else parse_loop stateEndEntry r weights labels [49] acc)
       | _ \<Rightarrow> parse_loop stateUnexpected r weights labels weightString label)"
| "parse_loop stateLabel s weights labels weightString label =
     bindE (nextToken s) (\<lambda>(t, r).
       case t of
         kindText acc \<Rightarrow> parse_loop stateEndEntry r weights labels weightString acc
       | _ \<Rightarrow> parse_loop stateUnexpected r weights labels weightString label)"
| "parse_loop stateEndEntry s weights labels weightString label =
     bindE (ParseUint32 weightString) (\<lambda>w.
     bindE (nextToken s) (\<lambda>(t, r).
       case t of
         kindEOF \<Rightarrow> parse_loop stateDone r (weights @ [w]) (labels @ [label]) weightString label
       | kindComma \<Rightarrow> parse_loop stateBeginEntry r (weights @ [w]) (labels @ [label]) weightString label
       | _ \<Rightarrow> parse_loop stateUnexpected r (weights @ [w]) (labels @ [label]) weightString label))"
| "parse_loop stateUnexpected s weights labels weightString label = Inl Errorf"
| "parse_loop stateDone s weights labels weightString label = Inr (weights, labels)"
  by pat_completeness auto
termination
  by (relation "measure (\<lambda>(st, s, _). 2 * length s + (if st \<in> {stateDone, stateUnexpected} then 0 else 1))")
    (auto dest!: nextToken_length)

declare parse_loop.simps [simp del]

definition parseWeightedList :: "bytes \<Rightarrow> err + u32 list \<times> bytes list" where
  "parseWeightedList s = parse_loop stateBeginEntry s [] [] [] []"

section \<open>sampleWeighted\<close>

text \<open>\<open>rand\<close> is the result of reading eight bytes of random data as a big-endian integer.\<close>

definition Int63 :: "err + u64 \<Rightarrow> err + u64" where
  "Int63 rand = (case rand of Inl _ \<Rightarrow> Inl Panic | Inr n \<Rightarrow> Inr (n AND (2 ^ 63 - 1)))"

text \<open>The sum is an \<open>int64\<close>: its order is the signed one.\<close>

fun sum_weights :: "u64 \<Rightarrow> u32 list \<Rightarrow> err + u64" where
  "sum_weights acc [] = Inr acc"
| "sum_weights acc (w # ws) =
     (let acc' = acc + ucast w
      in if sint acc' < sint (ucast w :: u64) then Inl Panic else sum_weights acc' ws)"

fun pick :: "nat \<Rightarrow> u64 \<Rightarrow> u32 list \<Rightarrow> err + nat" where
  "pick i r [] = Inl Panic"
| "pick i r (w # ws) = (if r < ucast w then Inr i else pick (Suc i) (r - ucast w) ws)"

text \<open>\<open>Int63n n\<close> panics when \<open>n\<close> is not positive; the parameter is its value otherwise.\<close>

definition sampleWeighted :: "(u64 \<Rightarrow> u64) \<Rightarrow> u32 list \<Rightarrow> err + nat" where
  "sampleWeighted Int63n weights =
     bindE (sum_weights 0 weights) (\<lambda>s.
       if s = 0 then Inl Panic
       else if sint s \<le> 0 then Inl Panic
       else pick 0 (Int63n s) weights)"

section \<open>The grammar\<close>

text \<open>
  The texts that stand for a string: every comma, asterisk and backslash is escaped by a backslash,
  and other bytes may be.
\<close>

fun unescape :: "bytes \<Rightarrow> bytes option" where
  "unescape [] = Some []"
| "unescape (b # r) =
     (if b = 44 \<or> b = 42 then None
      else if b = 92 then (case r of [] \<Rightarrow> None | d # r' \<Rightarrow> map_option ((#) d) (unescape r'))
      else map_option ((#) b) (unescape r))"

text \<open>An entry is an optional weight and a label, as they are written.\<close>

type_synonym entry = "bytes option \<times> bytes"

fun render_entry :: "entry \<Rightarrow> bytes" where
  "render_entry (None, l) = l"
| "render_entry (Some w, l) = w @ 42 # l"

fun render :: "entry list \<Rightarrow> bytes" where
  "render [] = []"
| "render [e] = render_entry e"
| "render (e # es) = render_entry e @ 44 # render es"

fun entry_value :: "entry \<Rightarrow> (u32 \<times> bytes) option" where
  "entry_value (wt, l) =
     (case (case wt of None \<Rightarrow> Some 1
                     | Some w \<Rightarrow> Option.bind (unescape w) (\<lambda>t. case ParseUint32 t of Inr n \<Rightarrow> Some n | Inl _ \<Rightarrow> None),
            unescape l) of
        (Some n, Some label) \<Rightarrow> if l = [] then None else Some (n, label)
      | _ \<Rightarrow> None)"

section \<open>Lemmas\<close>

definition stops :: "bytes \<Rightarrow> bool" where
  "stops r \<longleftrightarrow> r = [] \<or> hd r = 44 \<or> hd r = 42"

lemma stops_simps [simp]: "stops []" "stops (b # r) \<longleftrightarrow> b = 44 \<or> b = 42"
  by (simp_all add: stops_def)

lemma scan_text_append:
  "unescape raw = Some t \<Longrightarrow> stops r \<Longrightarrow> scan_text acc (raw @ r) = Inr (acc @ t, r)"
proof (induction raw arbitrary: acc t rule: unescape.induct)
  case 1
  then show ?case by (cases r) auto
next
  case (2 b raw)
  then show ?case by (auto split: if_splits list.splits)
qed

lemma scan_text_split:
  "scan_text acc s = Inr (u, r) \<Longrightarrow> \<exists>raw t. s = raw @ r \<and> unescape raw = Some t \<and> u = acc @ t \<and> stops r"
proof (induction acc s rule: scan_text.induct)
  case (1 acc)
  then show ?case by (auto intro!: exI [of _ "[]"])
next
  case (2 acc b s)
  consider (stop) "b = 44 \<or> b = 42" | (esc) d s' where "b = 92" "s = d # s'" | (plain) "b \<noteq> 44" "b \<noteq> 42" "b \<noteq> 92"
    using 2(3) by (cases s) (auto split: if_splits)
  then show ?case
  proof cases
    case stop
    with 2(3) show ?thesis by (auto intro!: exI [of _ "[]"])
  next
    case esc
    with 2 obtain raw t where "s' = raw @ r" "unescape raw = Some t" "u = (acc @ [d]) @ t" "stops r" by auto
    with esc show ?thesis by (intro exI [of _ "92 # d # raw"] exI [of _ "d # t"]) simp
  next
    case plain
    with 2 obtain raw t where "s = raw @ r" "unescape raw = Some t" "u = (acc @ [b]) @ t" "stops r" by auto
    with plain show ?thesis by (intro exI [of _ "b # raw"] exI [of _ "b # t"]) simp
  qed
qed

lemma nextToken_text:
  assumes "unescape raw = Some t" and "raw \<noteq> []" and "stops r"
  shows "nextToken (raw @ r) = Inr (kindText t, r)"
proof -
  obtain b raw' where raw: "raw = b # raw'" using assms(2) by (cases raw) auto
  with assms(1) have "b \<noteq> 44" "b \<noteq> 42" by (auto split: if_splits)
  then show ?thesis using scan_text_append [OF assms(1,3), of "[]"] raw
    by (simp add: nextToken_def del: scan_text.simps)
qed

lemma nextToken_textD:
  assumes "nextToken s = Inr (kindText t, r)"
  obtains raw where "s = raw @ r" and "unescape raw = Some t" and "raw \<noteq> []" and "stops r"
proof -
  from assms obtain b s' where s: "s = b # s'" "b \<noteq> 44" "b \<noteq> 42" "scan_text [] s = Inr (t, r)"
    by (cases s) (auto simp: nextToken_def result_simps simp del: scan_text.simps split: if_splits)
  from scan_text_split [OF s(4)] obtain raw where raw: "s = raw @ r" "unescape raw = Some t" "stops r"
    by auto
  with s have "raw \<noteq> []" by (cases r) auto
  with raw that show thesis by blast
qed

lemma nextToken_simps [simp]:
  "nextToken [] = Inr (kindEOF, [])"
  "nextToken (44 # r) = Inr (kindComma, r)"
  "nextToken (42 # r) = Inr (kindAsterisk, r)"
  by (simp_all add: nextToken_def)

lemma nextToken_otherD:
  "nextToken s = Inr (kindEOF, r) \<Longrightarrow> s = [] \<and> r = []"
  "nextToken s = Inr (kindComma, r) \<Longrightarrow> s = 44 # r"
  "nextToken s = Inr (kindAsterisk, r) \<Longrightarrow> s = 42 # r"
  by (auto simp: nextToken_def result_simps simp del: scan_text.simps split: list.splits if_splits)

lemma ParseUint32_one [simp]: "ParseUint32 [49] = Inr 1"
  by (simp add: ParseUint32_def decimal_def)

lemma render_Cons: "render (e # es) = render_entry e @ (if es = [] then [] else 44 # render es)"
  by (cases es) simp_all

lemma ParseUint32_cases: obtains e where "ParseUint32 s = Inl e" | w where "ParseUint32 s = Inr w"
  by (cases "ParseUint32 s") auto

lemma begin_text:
  "nextToken s = Inr (kindText t, r) \<Longrightarrow> peekToken r = Inr u \<Longrightarrow> u \<noteq> kindAsterisk \<Longrightarrow>
     parse_loop stateBeginEntry s ws ls w l = parse_loop stateEndEntry r ws ls [49] t"
  "nextToken s = Inr (kindText t, 42 # r) \<Longrightarrow>
     parse_loop stateBeginEntry s ws ls w l = parse_loop stateLabel r ws ls t l"
  by (simp_all add: parse_loop.simps(1) peekToken_def)

lemma label_text:
  "nextToken s = Inr (kindText t, r) \<Longrightarrow>
     parse_loop stateLabel s ws ls w l = parse_loop stateEndEntry r ws ls w t"
  by (simp add: parse_loop.simps(2))

lemma end_entry:
  "ParseUint32 w = Inr n \<Longrightarrow>
     parse_loop stateEndEntry [] ws ls w l = Inr (ws @ [n], ls @ [l])"
  "ParseUint32 w = Inr n \<Longrightarrow>
     parse_loop stateEndEntry (44 # r) ws ls w l = parse_loop stateBeginEntry r (ws @ [n]) (ls @ [l]) w l"
  by (simp_all add: parse_loop.simps(3,5))

lemmas parse_steps = begin_text label_text end_entry

text \<open>One well-formed entry is consumed, up to the comma or the end of the string.\<close>

lemma begin_entry:
  assumes "entry_value e = Some (n, label)" and "r = [] \<or> hd r = 44"
  shows "\<exists>w. ParseUint32 w = Inr n \<and>
     parse_loop stateBeginEntry (render_entry e @ r) ws ls w0 l0 = parse_loop stateEndEntry r ws ls w label"
proof -
  obtain wt raw where e: "e = (wt, raw)" by (cases e)
  from assms(1) e have raw: "unescape raw = Some label" "raw \<noteq> []"
    by (auto split: option.splits if_splits)
  have r: "stops r" using assms(2) by (cases r) auto
  show ?thesis
  proof (cases wt)
    case None
    have "peekToken r = Inr (case r of [] \<Rightarrow> kindEOF | _ \<Rightarrow> kindComma)"
      using assms(2) by (cases r) (auto simp: peekToken_def)
    moreover have "n = 1" using assms(1) e None raw by simp
    ultimately show ?thesis
      using begin_text(1) [OF nextToken_text [OF raw(1,2) r]] e None
      by (intro exI [of _ "[49]"]) (auto split: list.splits)
  next
    case (Some rw)
    then obtain w where w: "unescape rw = Some w" "ParseUint32 w = Inr n"
      using assms(1) e raw by (auto split: option.splits sum.splits bind_splits)
    then have "rw \<noteq> []" by (auto simp: ParseUint32_def)
    from nextToken_text [OF w(1) this, of "42 # raw @ r"]
    have "nextToken (rw @ 42 # raw @ r) = Inr (kindText w, 42 # raw @ r)" by simp
    then show ?thesis
      using label_text [OF nextToken_text [OF raw(1,2) r]] e Some w(2)
      by (intro exI [of _ w]) (simp add: begin_text(2))
  qed
qed

lemma parse_rendered:
  assumes "map entry_value es = map Some vs" and "es \<noteq> []"
  shows "parse_loop stateBeginEntry (render es) ws ls w0 l0 = Inr (ws @ map fst vs, ls @ map snd vs)"
  using assms
proof (induction es arbitrary: vs ws ls w0 l0)
  case Nil
  then show ?case by simp
next
  case (Cons e es)
  then obtain n label vs' where v: "vs = (n, label) # vs'" "entry_value e = Some (n, label)"
    "map entry_value es = map Some vs'" by (cases vs) auto
  let ?r = "if es = [] then [] else 44 # render es"
  have "?r = [] \<or> hd ?r = 44" by simp
  from begin_entry [OF v(2) this, of ws ls w0 l0] obtain w where w: "ParseUint32 w = Inr n"
    "parse_loop stateBeginEntry (render_entry e @ ?r) ws ls w0 l0 = parse_loop stateEndEntry ?r ws ls w label"
    by blast
  show ?case
  proof (cases "es = []")
    case True
    with w v show ?thesis by (simp add: end_entry)
  next
    case False
    with w v Cons.IH [OF v(3)] show ?thesis by (simp add: render_Cons end_entry)
  qed
qed

text \<open>Conversely, what the machine accepts is well-formed entries.\<close>

lemma begin_entryD:
  assumes "parse_loop stateBeginEntry s ws ls w0 l0 = Inr (ws', ls')"
  obtains e n label r w where "s = render_entry e @ r" and "entry_value e = Some (n, label)"
    and "ParseUint32 w = Inr n" and "stops r" and "render_entry e \<noteq> []"
    and "parse_loop stateEndEntry r ws ls w label = Inr (ws', ls')"
proof -
  from assms obtain t' r where "nextToken s = Inr (t', r)"
    by (auto simp: parse_loop.simps(1) result_simps)
  with assms obtain t where tr: "nextToken s = Inr (kindText t, r)"
    by (cases t') (auto simp: parse_loop.simps(1,4))
  from nextToken_textD [OF tr] obtain raw where
    raw: "s = raw @ r" "unescape raw = Some t" "raw \<noteq> []" "stops r" .
  from assms tr obtain u where u: "peekToken r = Inr u" by (auto simp: parse_loop.simps(1) result_simps)
  show thesis
  proof (cases "u = kindAsterisk")
    case False
    with assms tr u have rest: "parse_loop stateEndEntry r ws ls [49] t = Inr (ws', ls')"
      by (simp add: begin_text(1))
    with that [of "(None, raw)" r 1 t "[49]"] raw rest show thesis by simp
  next
    case True
    then obtain r' where r': "r = 42 # r'"
      using u by (auto simp: peekToken_def result_simps dest: nextToken_otherD)
    with assms tr have lab: "parse_loop stateLabel r' ws ls t l0 = Inr (ws', ls')" by (simp add: begin_text(2))
    then obtain t' r2 where "nextToken r' = Inr (t', r2)" by (auto simp: parse_loop.simps(2) result_simps)
    with lab obtain label where l: "nextToken r' = Inr (kindText label, r2)"
      "parse_loop stateEndEntry r2 ws ls t label = Inr (ws', ls')"
      by (cases t') (auto simp: parse_loop.simps(2,4))
    from nextToken_textD [OF l(1)] obtain raw2 where
      raw2: "r' = raw2 @ r2" "unescape raw2 = Some label" "raw2 \<noteq> []" "stops r2" .
    from l(2) obtain n where "ParseUint32 t = Inr n" by (auto simp: parse_loop.simps(3) result_simps)
    with that [of "(Some raw, raw2)" r2 n label t] raw raw2 r' l(2) show thesis by simp
  qed
qed

lemma end_entryD:
  assumes "parse_loop stateEndEntry s ws ls w l = Inr (ws', ls')" and "ParseUint32 w = Inr n"
  obtains "s = []" and "ws' = ws @ [n]" and "ls' = ls @ [l]"
  | r where "s = 44 # r" and "parse_loop stateBeginEntry r (ws @ [n]) (ls @ [l]) w l = Inr (ws', ls')"
proof -
  from assms obtain t r where tr: "nextToken s = Inr (t, r)"
    by (auto simp: parse_loop.simps(3) result_simps)
  from assms tr consider "t = kindEOF" | "t = kindComma"
    by (cases t) (auto simp: parse_loop.simps(3,4))
  then show thesis
  proof cases
    case 1
    with tr nextToken_otherD(1) have "s = []" by blast
    with that(1) assms show thesis by (simp add: end_entry)
  next
    case 2
    with tr nextToken_otherD(2) have "s = 44 # r" by blast
    with that(2) assms show thesis by (simp add: end_entry)
  qed
qed

lemma parse_accepted:
  "parse_loop stateBeginEntry s ws ls w0 l0 = Inr (ws', ls') \<Longrightarrow>
     \<exists>es vs. es \<noteq> [] \<and> s = render es \<and> map entry_value es = map Some vs \<and>
       ws' = ws @ map fst vs \<and> ls' = ls @ map snd vs"
proof (induction "length s" arbitrary: s ws ls w0 l0 rule: less_induct)
  case less
  from begin_entryD [OF less.prems] obtain e n label r w where
    e: "s = render_entry e @ r" "entry_value e = Some (n, label)" "ParseUint32 w = Inr n"
    "render_entry e \<noteq> []" "parse_loop stateEndEntry r ws ls w label = Inr (ws', ls')" by metis
  from e(5,3) show ?case
  proof (cases rule: end_entryD)
    case 1
    with e show ?thesis by (intro exI [of _ "[e]"] exI [of _ "[(n, label)]"]) simp
  next
    case (2 r')
    then have "length r' < length s" using e(1) by simp
    from less.hyps [OF this 2(2)] obtain es vs where "es \<noteq> []" "r' = render es"
      "map entry_value es = map Some vs" "ws' = (ws @ [n]) @ map fst vs" "ls' = (ls @ [label]) @ map snd vs"
      by blast
    with e 2(1) show ?thesis
      by (intro exI [of _ "e # es"] exI [of _ "(n, label) # vs"]) (simp add: render_Cons)
  qed
qed

section \<open>Properties of the parser\<close>

text \<open>
  C19: The state machine of \<open>parseWeightedList\<close> accepts exactly the language of its grammar, a
  non-empty list of entries separated by commas, each an optional weight (a 32-bit decimal number)
  with an asterisk and a non-empty label, all with escapes, and returns the values of the entries in
  order; a missing weight is 1.
\<close>

theorem parseWeightedList_exact:
  "parseWeightedList s = Inr (weights, labels) \<longleftrightarrow>
     (\<exists>es vs. es \<noteq> [] \<and> s = render es \<and> map entry_value es = map Some vs \<and>
        weights = map fst vs \<and> labels = map snd vs)"
  unfolding parseWeightedList_def
  using parse_rendered [where ws = "[]" and ls = "[]"] parse_accepted [where ws = "[]" and ls = "[]"]
  by fastforce

text \<open>
  A backslash at the end of the string makes \<open>parseWeightedList\<close> panic, where it means to
  return an error: the code indexes the string out of range while it makes the error token.
\<close>

theorem trailing_backslash_panics:
  assumes "unescape label = Some t"
  shows "parseWeightedList (label @ [92]) = Inl Panic"
proof -
  have scan: "scan_text acc (l @ [92]) = Inl Panic" if "unescape l = Some t" for acc l t
    using that by (induction l arbitrary: acc t rule: unescape.induct) (auto split: if_splits list.splits)
  have "nextToken (label @ [92]) = Inl Panic"
    using assms scan [OF assms, of "[]"]
    by (cases label) (auto simp: nextToken_def simp del: scan_text.simps split: if_splits)
  then show ?thesis by (simp add: parseWeightedList_def parse_loop.simps(1))
qed

theorem trailing_backslash_panics_witness:
  "parseWeightedList [97, 92] = Inl Panic"
  using trailing_backslash_panics [of "[97]" "[97]"] by simp

section \<open>The random choice\<close>

abbreviation total_weight :: "u32 list \<Rightarrow> nat" where
  "total_weight ws \<equiv> sum_list (map unat ws)"

lemma unat_weight [simp]: "unat (ucast (w :: u32) :: u64) = unat w"
proof -
  have "unat w < 2 ^ 64" using unsigned_less [of w, where ?'a = nat] by simp
  then show ?thesis by (simp add: unsigned_ucast_eq take_bit_nat_eq_self)
qed

lemma sint_small:
  assumes "unat (x :: u64) < 2 ^ 63"
  shows "sint x = int (unat x)"
proof -
  from assms have "int (unat x) < int (2 ^ 63)" by (simp only: of_nat_less_iff)
  then have u: "uint x < 2 ^ 63" by simp
  moreover have "- (2 ^ 63) \<le> uint x" by (rule order_trans [OF _ unsigned_greater_eq]) simp
  moreover have "sint x = signed_take_bit 63 (uint x)" by (simp add: sint_uint)
  ultimately show ?thesis using signed_take_bit_int_eq_self [of 63 "uint x"] by simp
qed

lemma unat_add_weight:
  assumes "unat (acc :: u64) + unat (w :: u32) < 2 ^ 63"
  shows "unat (acc + ucast w) = unat acc + unat w"
proof -
  have "unat acc + unat (ucast w :: u64) < 2 ^ LENGTH(64)" using assms by simp
  then show ?thesis by (simp add: unat_add_lem [THEN iffD1] del: unat_weight) simp
qed

lemma sum_weights_eq:
  "unat acc + total_weight ws < 2 ^ 63 \<Longrightarrow> sum_weights acc ws = Inr (of_nat (unat acc + total_weight ws))"
proof (induction ws arbitrary: acc)
  case Nil
  then show ?case by simp
next
  case (Cons w ws)
  then have add: "unat (acc + ucast w) = unat acc + unat w" by (intro unat_add_weight) simp
  then have "sint (acc + ucast w) = int (unat acc + unat w)" using Cons.prems sint_small [of "acc + ucast w"] by simp
  moreover have "sint (ucast w :: u64) = int (unat w)"
    using sint_small [of "ucast w"] Cons.prems by simp
  ultimately show ?case using Cons.IH [of "acc + ucast w"] Cons.prems add
    by (simp add: Let_def add.assoc)
qed

text \<open>The index picked is the one whose part of the sum contains \<open>r\<close>.\<close>

lemma pick_eq:
  "pick i r ws = Inr k \<longleftrightarrow>
     (\<exists>j<length ws. k = i + j \<and> total_weight (take j ws) \<le> unat r \<and> unat r < total_weight (take (Suc j) ws))"
proof (induction ws arbitrary: i r)
  case Nil
  then show ?case by simp
next
  case (Cons w ws)
  have w: "r < ucast w \<longleftrightarrow> unat r < unat w"
    by (simp add: word_less_nat_alt)
  show ?case
  proof (cases "r < ucast w")
    case True
    then have "\<not> unat w + n \<le> unat r" for n using w by simp
    with True w show ?thesis by (auto simp: less_Suc_eq_0_disj)
  next
    case False
    then have "unat (r - ucast w) = unat r - unat w" using w
      by (simp add: unat_sub word_le_nat_alt not_less)
    with False w Cons.IH [of "Suc i" "r - ucast w"] show ?thesis
      by (auto simp: less_Suc_eq_0_disj)
  qed
qed

lemma card_interval: "b \<le> 2 ^ 64 \<Longrightarrow> card {r :: u64. a \<le> unat r \<and> unat r < b} = b - a"
proof -
  assume b: "b \<le> 2 ^ 64"
  have "unat ` {r :: u64. a \<le> unat r \<and> unat r < b} = {a..<b}"
  proof (intro equalityI subsetI)
    fix n assume "n \<in> {a..<b}"
    with b have "n = unat (of_nat n :: u64)" "a \<le> n" "n < b" by (auto simp: unat_of_nat take_bit_eq_mod)
    then show "n \<in> unat ` {r :: u64. a \<le> unat r \<and> unat r < b}" by (metis (mono_tags, lifting) imageI mem_Collect_eq)
  qed auto
  moreover have "inj_on unat {r :: u64. a \<le> unat r \<and> unat r < b}" 
    by (intro inj_onI) (simp add: word_unat_eq_iff)
  ultimately show ?thesis using card_image [of unat "{r :: u64. a \<le> unat r \<and> unat r < b}"] by simp
qed

lemma total_weight_take: "total_weight (take j ws) \<le> total_weight ws"
  by (metis append_take_drop_id map_append sum_list_append le_add1)

lemma pick_total:
  "unat r < total_weight ws \<Longrightarrow> \<exists>j<length ws. pick i r ws = Inr (i + j)"
proof (induction ws arbitrary: i r)
  case Nil
  then show ?case by simp
next
  case (Cons w ws)
  show ?case
  proof (cases "r < ucast w")
    case True
    then show ?thesis by (intro exI [of _ 0]) simp
  next
    case False
    then have "unat (r - ucast w) = unat r - unat w" "unat w \<le> unat r"
      by (simp_all add: unat_sub word_le_nat_alt not_less)
    with Cons.prems have "unat (r - ucast w) < total_weight ws" by simp
    with Cons.IH [of "r - ucast w" "Suc i"] obtain j where
      "j < length ws" "pick (Suc i) (r - ucast w) ws = Inr (Suc i + j)" by auto
    with False show ?thesis by (intro exI [of _ "Suc j"]) simp
  qed
qed

text \<open>
  The choice has exactly the distribution of the weights.  When their sum fits an \<open>int64\<close>, a
  sum of zero panics; otherwise, of the equally likely numbers \<open>r\<close> below the sum, every one selects
  some index, and each index is selected by as many of them as its weight says.
\<close>

theorem sampleWeighted_distribution:
  assumes "total_weight weights < 2 ^ 63"
  shows "if total_weight weights = 0 then \<forall>rand. sampleWeighted rand weights = Inl Panic
     else (\<forall>r. unat r < total_weight weights \<longrightarrow>
             (\<exists>i<length weights. sampleWeighted (\<lambda>_. r) weights = Inr i)) \<and>
          (\<forall>i<length weights.
             card {r. unat r < total_weight weights \<and> sampleWeighted (\<lambda>_. r) weights = Inr i} =
             unat (weights ! i))"
proof -
  let ?s = "of_nat (total_weight weights) :: u64"
  have sum: "sum_weights 0 weights = Inr ?s" using sum_weights_eq [of 0 weights] assms by simp
  have un: "unat ?s = total_weight weights" using assms by (simp add: unat_of_nat take_bit_eq_mod)
  show ?thesis
  proof (cases "total_weight weights = 0")
    case True
    then have "sum_weights 0 weights = Inr 0" using sum unfolding True by simp
    with True show ?thesis by (simp add: sampleWeighted_def)
  next
    case False
    have "?s \<noteq> 0" using un False by (metis unat_0)
    moreover have "sint ?s = int (total_weight weights)" using sint_small [of ?s] un assms by simp
    ultimately have pick: "sampleWeighted (\<lambda>_. r) weights = pick 0 r weights" for r
      using sum False by (simp add: sampleWeighted_def del: sum_list_eq_0_iff)
    have "card {r. unat r < total_weight weights \<and> sampleWeighted (\<lambda>_. r) weights = Inr i} = unat (weights ! i)"
      if i: "i < length weights" for i
    proof -
      have P: "total_weight (take (Suc i) weights) = total_weight (take i weights) + unat (weights ! i)"
        using i by (simp add: take_Suc_conv_app_nth)
      have "{r. unat r < total_weight weights \<and> sampleWeighted (\<lambda>_. r) weights = Inr i} =
          {r. total_weight (take i weights) \<le> unat r \<and> unat r < total_weight (take (Suc i) weights)}"
        using i total_weight_take [of "Suc i" weights] by (auto simp: pick pick_eq)
      then show ?thesis
        using card_interval [of "total_weight (take (Suc i) weights)" "total_weight (take i weights)"]
          P assms total_weight_take [of "Suc i" weights] by simp
    qed
    with False pick pick_total [where i = 0] show ?thesis by (simp del: sum_list_eq_0_iff)
  qed
qed

theorem sampleWeighted_distribution_witness:
  "card {r. unat r < 4 \<and> sampleWeighted (\<lambda>_. r) [1, 0, 3] = Inr 2} = 3"
  using sampleWeighted_distribution [of "[1, 0, 3]"] by simp

end
