(* ===== verification/Utls.thy ===== *)
theory Utls
  imports WeightedList
begin

text \<open>
  uTLS fingerprints (\<open>src/dnstt-client/lib/utls.go\<close> and \<open>SampleUTLSDistribution\<close> of
  \<open>client.go\<close>): the table of fingerprints, dialing with one, and the round tripper that looks at the
  protocol of its first connection and uses that connection later.  The libraries are the parameter
  \<open>utls_lib\<close>.
\<close>

section \<open>Fingerprints\<close>

text \<open>The labels and the names of the library's constants.\<close>

definition UtlsClientHelloIDMap :: "(bytes \<times> string) list" where
  "UtlsClientHelloIDMap = map (\<lambda>(label, i). (map of_char label, i))
     [(''Firefox'', ''HelloFirefox_Auto''),
      (''Firefox_55'', ''HelloFirefox_55''),
      (''Firefox_56'', ''HelloFirefox_56''),
      (''Firefox_63'', ''HelloFirefox_63''),
      (''Firefox_65'', ''HelloFirefox_65''),
      (''Chrome'', ''HelloChrome_Auto''),
      (''Chrome_58'', ''HelloChrome_58''),
      (''Chrome_62'', ''HelloChrome_62''),
      (''Chrome_70'', ''HelloChrome_70''),
      (''Chrome_72'', ''HelloChrome_72''),
      (''Chrome_83'', ''HelloChrome_83''),
      (''iOS'', ''HelloIOS_Auto''),
      (''iOS_11_1'', ''HelloIOS_11_1''),
      (''iOS_12_1'', ''HelloIOS_12_1'')]"

definition utlsLookup :: "casemap \<Rightarrow> bytes \<Rightarrow> string option" where
  "utlsLookup u label =
     map_option snd (find (\<lambda>(l, _). ToLower u label = ToLower u l) UtlsClientHelloIDMap)"

text \<open>The loop over the labels; \<open>None\<close> stands for the \<open>nil\<close> fingerprint of the label \<open>none\<close>.\<close>

fun lookup_all :: "casemap \<Rightarrow> bytes list \<Rightarrow> err + string option list" where
  "lookup_all u [] = Inr []"
| "lookup_all u (label # labels) =
     (if label = map of_char ''none'' then bindE (lookup_all u labels) (\<lambda>ids. Inr (None # ids))
      else case utlsLookup u label of
             None \<Rightarrow> Inl Errorf
           | Some i \<Rightarrow> bindE (lookup_all u labels) (\<lambda>ids. Inr (Some i # ids)))"

definition SampleUTLSDistribution :: "casemap \<Rightarrow> (u64 \<Rightarrow> u64) \<Rightarrow> bytes \<Rightarrow> err + string option" where
  "SampleUTLSDistribution u rand spec =
     bindE (parseWeightedList spec) (\<lambda>(weights, labels).
     bindE (lookup_all u labels) (\<lambda>ids.
     bindE (sampleWeighted rand weights) (\<lambda>i. if i < length ids then Inr (ids ! i) else Inl Panic)))"

section \<open>Dialing\<close>

text \<open>The dials are numbered; the library may answer each one differently.\<close>

record utls_lib =
  ul_SplitHostPort :: "bytes \<Rightarrow> err + bytes"
  ul_Dial :: "nat \<Rightarrow> bytes \<Rightarrow> bool"
  ul_ParseIP :: "bytes \<Rightarrow> bool"
  ul_RemoveSNI :: "nat \<Rightarrow> bool"
  ul_Handshake :: "nat \<Rightarrow> bytes option \<Rightarrow> err + bytes"

record uconn =
  uc_serial :: nat
  uc_sni :: "bytes option"
  uc_protocol :: bytes

definition utlsDialContext :: "utls_lib \<Rightarrow> nat \<Rightarrow> bytes \<Rightarrow> bytes \<Rightarrow> err + uconn" where
  "utlsDialContext lib k addr serverName =
     bindE (if serverName = [] then ul_SplitHostPort lib addr else Inr serverName) (\<lambda>serverName.
       if \<not> ul_Dial lib k addr then Inl Errorf
       else if ul_ParseIP lib serverName \<and> \<not> ul_RemoveSNI lib k then Inl Errorf
       else
         let sni = (if ul_ParseIP lib serverName then None else Some serverName)
         in bindE (ul_Handshake lib k sni) (\<lambda>protocol.
              Inr \<lparr>uc_serial = k, uc_sni = sni, uc_protocol = protocol\<rparr>))"

section \<open>The round tripper\<close>

record url =
  url_Scheme :: bytes
  url_Hostname :: bytes
  url_Port :: bytes

definition http :: bytes where "http = map of_char ''http''"
definition https :: bytes where "https = map of_char ''https''"

text \<open>\<open>net.JoinHostPort\<close> puts a host with a colon into brackets.\<close>

definition JoinHostPort :: "bytes \<Rightarrow> bytes \<Rightarrow> bytes" where
  "JoinHostPort host port =
     (if 58 \<in> set host then [91] @ host @ [93, 58] @ port else host @ [58] @ port)"

definition addrForDial :: "url \<Rightarrow> err + bytes" where
  "addrForDial u =
     (let host = url_Hostname u; port = url_Port u
      in bindE (if port = [] then
                  (if url_Scheme u = http then Inr (map of_char ''80'')
                   else if url_Scheme u = https then Inr (map of_char ''443'')
                   else Inl Errorf)
                else Inr port)
           (\<lambda>port. Inr (JoinHostPort host port)))"

text \<open>
  The inner transport: of HTTP/2 or not, with the variables that its dial function shares.
\<close>

record inner_transport =
  it_http2 :: bool
  it_protocol :: bytes
  it_bootstrapConn :: "uconn option"

definition NextProtoTLS :: bytes where "NextProtoTLS = map of_char ''h2''"

text \<open>\<open>makeRoundTripper\<close>, as dial number \<open>k\<close>.\<close>

definition makeRoundTripper :: "utls_lib \<Rightarrow> nat \<Rightarrow> url \<Rightarrow> bytes \<Rightarrow> err + inner_transport" where
  "makeRoundTripper lib k u serverName =
     bindE (addrForDial u) (\<lambda>addr.
     bindE (utlsDialContext lib k addr serverName) (\<lambda>bootstrapConn.
       let protocol = uc_protocol bootstrapConn
       in Inr \<lparr>it_http2 = (protocol = NextProtoTLS), it_protocol = protocol,
               it_bootstrapConn = Some bootstrapConn\<rparr>))"

text \<open>The function that the inner transport dials with.\<close>

definition dialTLSContext ::
  "utls_lib \<Rightarrow> bytes \<Rightarrow> nat \<Rightarrow> bytes \<Rightarrow> inner_transport \<Rightarrow> (err + uconn) \<times> inner_transport" where
  "dialTLSContext lib serverName k addr it =
     (case it_bootstrapConn it of
        Some c \<Rightarrow> (Inr c, it\<lparr>it_bootstrapConn := None\<rparr>)
      | None \<Rightarrow>
          (case utlsDialContext lib k addr serverName of
             Inl e \<Rightarrow> (Inl e, it)
           | Inr c \<Rightarrow> if uc_protocol c \<noteq> it_protocol it then (Inl Errorf, it) else (Inr c, it)))"

text \<open>
  \<open>RoundTrip\<close>: where the request goes, and the inner transport.  A failure to make the inner
  transport leaves none, so the next request tries again.
\<close>

datatype route = DefaultTransport | InnerTransport inner_transport | NoRoute

definition RoundTrip ::
  "utls_lib \<Rightarrow> nat \<Rightarrow> bytes \<Rightarrow> url \<Rightarrow> inner_transport option \<Rightarrow> route \<times> inner_transport option" where
  "RoundTrip lib k serverName u inner =
     (if url_Scheme u = http then (DefaultTransport, inner)
      else if url_Scheme u \<noteq> https then (NoRoute, inner)
      else case inner of
             Some it \<Rightarrow> (InnerTransport it, inner)
           | None \<Rightarrow>
               (case makeRoundTripper lib k u serverName of
                  Inl _ \<Rightarrow> (NoRoute, None)
                | Inr it \<Rightarrow> (InnerTransport it, Some it)))"

section \<open>Properties\<close>

text \<open>The dials of an inner transport to some addresses, from number \<open>k\<close> on.\<close>

fun dials :: "utls_lib \<Rightarrow> bytes \<Rightarrow> nat \<Rightarrow> bytes list \<Rightarrow> inner_transport \<Rightarrow> (err + uconn) list" where
  "dials lib serverName k [] it = []"
| "dials lib serverName k (addr # addrs) it =
     (let (r, it') = dialTLSContext lib serverName k addr it in r # dials lib serverName (Suc k) addrs it')"

lemma utlsDialContext_serial: "utlsDialContext lib k addr name = Inr c \<Longrightarrow> uc_serial c = k"
  by (auto simp: utlsDialContext_def Let_def result_simps split: if_splits)

lemma dials_later:
  "it_bootstrapConn it = None \<Longrightarrow> i < length addrs \<Longrightarrow> dials lib name k addrs it ! i = Inr c \<Longrightarrow>
     uc_protocol c = it_protocol it \<and> uc_serial c = k + i"
proof (induction addrs arbitrary: k i)
  case (Cons addr addrs)
  have d: "dialTLSContext lib name k addr it = (fst (dialTLSContext lib name k addr it), it)"
    using Cons.prems(1) by (auto simp: dialTLSContext_def split: sum.splits)
  show ?case
  proof (cases i)
    case 0
    with Cons.prems d show ?thesis
      by (auto simp: dialTLSContext_def Let_def split: sum.splits prod.splits if_splits
          dest: utlsDialContext_serial)
  next
    case (Suc j)
    with Cons.IH [OF Cons.prems(1), of j "Suc k"] Cons.prems d show ?thesis
      by (simp add: Let_def split: prod.splits)
  qed
qed simp

lemma length_dials: "length (dials lib name k addrs it) = length addrs"
  by (induction addrs arbitrary: k it) (simp_all add: Let_def split: prod.split)

text \<open>
  C27: The bootstrap connection and the protocol.  The inner transport speaks HTTP/2 exactly when the
  first connection negotiated it.  It gets that connection for its first dial and never again, and
  every connection that it gets later is a new one with the same protocol, whatever the servers
  negotiate; a dial of another protocol is an error.
\<close>

theorem utls_protocol_stable:
  assumes "makeRoundTripper lib 0 u serverName = Inr it" and "i < length addrs"
    and "dials lib serverName 1 addrs it ! i = Inr c"
  shows "(it_http2 it \<longleftrightarrow> it_protocol it = NextProtoTLS) \<and> uc_protocol c = it_protocol it \<and>
     (if i = 0 then it_bootstrapConn it = Some c else uc_serial c = i + 1) \<and> (uc_serial c = 0 \<longleftrightarrow> i = 0)"
proof -
  obtain b where b: "it_bootstrapConn it = Some b" "uc_protocol b = it_protocol it" "uc_serial b = 0"
    "it_http2 it \<longleftrightarrow> it_protocol it = NextProtoTLS"
    using assms(1) by (auto simp: makeRoundTripper_def Let_def result_simps dest: utlsDialContext_serial)
  obtain addr as where addrs: "addrs = addr # as" using assms(2) by (cases addrs) auto
  have d: "dials lib serverName 1 addrs it =
      Inr b # dials lib serverName 2 as (it\<lparr>it_bootstrapConn := None\<rparr>)"
    by (simp add: addrs dialTLSContext_def b(1) numeral_2_eq_2)
  show ?thesis
  proof (cases i)
    case 0
    with assms(3) d b show ?thesis by simp
  next
    case (Suc j)
    with dials_later [of "it\<lparr>it_bootstrapConn := None\<rparr>" j as lib serverName 2 c] assms d addrs b show ?thesis by simp
  qed
qed

text \<open>A server that changes its protocol on the third connection.\<close>

definition changing_lib :: utls_lib where
  "changing_lib = \<lparr>ul_SplitHostPort = \<lambda>a. Inr [97], ul_Dial = \<lambda>_ _. True, ul_ParseIP = \<lambda>_. False,
     ul_RemoveSNI = \<lambda>_. True, ul_Handshake = \<lambda>k _. Inr (if k = 3 then [] else NextProtoTLS)\<rparr>"

theorem utls_protocol_stable_witness:
  "\<exists>it. makeRoundTripper changing_lib 0 \<lparr>url_Scheme = https, url_Hostname = [97], url_Port = []\<rparr> [] = Inr it \<and>
     it_http2 it \<and> dials changing_lib [] 1 [[97], [97], [97]] it ! 2 = Inl Errorf \<and>
     (\<exists>c. dials changing_lib [] 1 [[97], [97], [97]] it ! 1 = Inr c \<and> uc_protocol c = it_protocol it)"
proof -
  let ?u = "\<lparr>url_Scheme = https, url_Hostname = [97], url_Port = []\<rparr>"
  let ?it = "\<lparr>it_http2 = True, it_protocol = NextProtoTLS,
      it_bootstrapConn = Some \<lparr>uc_serial = 0, uc_sni = Some [97], uc_protocol = NextProtoTLS\<rparr>\<rparr>"
  let ?d = "dials changing_lib [] 1 [[97], [97], [97]] ?it"
  have m: "makeRoundTripper changing_lib 0 ?u [] = Inr ?it"
    by (simp add: makeRoundTripper_def addrForDial_def utlsDialContext_def changing_lib_def http_def https_def)
  have d: "?d = [Inr \<lparr>uc_serial = 0, uc_sni = Some [97], uc_protocol = NextProtoTLS\<rparr>,
      Inr \<lparr>uc_serial = 2, uc_sni = Some [97], uc_protocol = NextProtoTLS\<rparr>, Inl Errorf]"
    by (simp add: dialTLSContext_def utlsDialContext_def changing_lib_def NextProtoTLS_def)
  from utls_protocol_stable [OF m, of 1 "[[97], [97], [97]]" "\<lparr>uc_serial = 2, uc_sni = Some [97], uc_protocol = NextProtoTLS\<rparr>"]
  show ?thesis using m d by (intro exI [of _ ?it]) simp
qed

end
