(* ===== verification/Mobile.thy ===== *)
theory Mobile
  imports TunnelSearch Noise Utls
begin

text \<open>
  The library for mobile applications (\<open>src/dnstt-client/mobile/mobile.go\<close>): its configuration, the
  states of its client, and the SOCKS5 exchange that every local connection goes through.
\<close>

section \<open>Configuration\<close>

record Config =
  cf_transportType :: bytes
  cf_transportAddr :: bytes
  cf_pubkeyHex :: bytes
  cf_domain :: bytes
  cf_listenAddr :: bytes
  cf_tunnels :: int
  cf_mtu :: int
  cf_utlsFingerprint :: bytes
  cf_useZstd :: bool
  cf_numParallel :: int

definition none :: bytes where "none = map of_char ''none''"

definition NewConfig :: Config where
  "NewConfig =
     \<lparr>cf_transportType = doh, cf_transportAddr = map of_char ''https://dns.google/dns-query'',
      cf_pubkeyHex = [], cf_domain = [], cf_listenAddr = map of_char ''127.0.0.1:1080'', cf_tunnels = 8,
      cf_mtu = 1232, cf_utlsFingerprint = none, cf_useZstd = True, cf_numParallel = 8\<rparr>"

text \<open>The setters; \<open>SetTunnels\<close> also sets the number of senders.\<close>

datatype setting =
    SetTransportType bytes
  | SetTransportAddr bytes
  | SetPubkeyHex bytes
  | SetDomain bytes
  | SetListenAddr bytes
  | SetTunnels int
  | SetMTU int
  | SetUTLSFingerprint bytes
  | SetUseZstd bool
  | SetNumParallel int

fun set_config :: "setting \<Rightarrow> Config \<Rightarrow> Config" where
  "set_config (SetTransportType v) c = c\<lparr>cf_transportType := v\<rparr>"
| "set_config (SetTransportAddr v) c = c\<lparr>cf_transportAddr := v\<rparr>"
| "set_config (SetPubkeyHex v) c = c\<lparr>cf_pubkeyHex := v\<rparr>"
| "set_config (SetDomain v) c = c\<lparr>cf_domain := v\<rparr>"
| "set_config (SetListenAddr v) c = c\<lparr>cf_listenAddr := v\<rparr>"
| "set_config (SetTunnels v) c = c\<lparr>cf_tunnels := v, cf_numParallel := v\<rparr>"
| "set_config (SetMTU v) c = c\<lparr>cf_mtu := v\<rparr>"
| "set_config (SetUTLSFingerprint v) c = c\<lparr>cf_utlsFingerprint := v\<rparr>"
| "set_config (SetUseZstd v) c = c\<lparr>cf_useZstd := v\<rparr>"
| "set_config (SetNumParallel v) c = c\<lparr>cf_numParallel := v\<rparr>"

section \<open>The client\<close>

datatype client_state = StateStopped | StateConnecting | StateConnected | StateError

text \<open>
  The states that the callback is told are recorded in order.  The listener is its address, and
  \<open>cl_cancel\<close> says whether there is a function to cancel the accept loop with.
\<close>

record MobileClient =
  cl_state :: client_state
  cl_listener :: "bytes option"
  cl_pool :: "TunnelPool option"
  cl_cancel :: bool
  cl_bytesIn :: nat
  cl_bytesOut :: nat
  cl_told :: "client_state list"

definition NewMobileClient :: MobileClient where
  "NewMobileClient = \<lparr>cl_state = StateStopped, cl_listener = None, cl_pool = None, cl_cancel = False,
     cl_bytesIn = 0, cl_bytesOut = 0, cl_told = []\<rparr>"

definition setState :: "client_state \<Rightarrow> MobileClient \<Rightarrow> MobileClient" where
  "setState st c = c\<lparr>cl_state := st, cl_told := cl_told c @ [st]\<rparr>"

text \<open>
  What \<open>Start\<close> depends on: the Unicode tables, the random numbers of the fingerprint, the results of
  \<open>createTunnel\<close> for its arguments, and which addresses can be listened on.
\<close>

record start_env =
  st_casemap :: casemap
  st_rand :: "u64 \<Rightarrow> u64"
  st_create :: "tunnel_options \<Rightarrow> string option \<Rightarrow> bytes \<Rightarrow> Name \<Rightarrow> int \<Rightarrow> bytes \<Rightarrow> bytes \<Rightarrow> nat \<Rightarrow> err + Tunnel"
  st_Listen :: "bytes \<Rightarrow> bool"

text \<open>The fingerprint: the empty text and \<open>none\<close> stand for none.\<close>

definition parse_utls :: "start_env \<Rightarrow> bytes \<Rightarrow> err + string option" where
  "parse_utls env spec =
     (if spec = [] \<or> spec = none then Inr None
      else SampleUTLSDistribution (st_casemap env) (st_rand env) spec)"

text \<open>
  The global variables that \<open>Start\<close> sets before it creates tunnels; the number of senders is at most
  16, and it stays what it was when the configuration has none.
\<close>

definition start_options :: "Config \<Rightarrow> tunnel_options \<Rightarrow> tunnel_options" where
  "start_options cfg opts =
     (let opts = opts\<lparr>to_UseCompression := cf_useZstd cfg\<rparr>
      in if cf_numParallel cfg > 0 then opts\<lparr>to_NumDNSSenders := min 16 (cf_numParallel cfg)\<rparr> else opts)"

text \<open>
  The steps of \<open>Start\<close> up to the tunnels: the pool and the number of tunnels in it.  The panics of
  the fingerprint's distribution pass through.
\<close>

definition start_tunnels :: "start_env \<Rightarrow> tunnel_options \<Rightarrow> Config \<Rightarrow> err + TunnelPool" where
  "start_tunnels env opts cfg =
     bindE (DecodeKey (cf_pubkeyHex cfg)) (\<lambda>pubkey.
     bindE (ParseName (cf_domain cfg)) (\<lambda>domain.
     bindE (parse_utls env (cf_utlsFingerprint cfg)) (\<lambda>utlsID.
       let numTunnels = (if cf_tunnels cfg < 1 then 8 else cf_tunnels cfg);
           mtu = client_mtu domain
       in if mtu < 80 then Inl Errorf
          else
            let pool = fill_pool (st_create env (start_options cfg opts) utlsID pubkey domain mtu
                          (cf_transportType cfg) (cf_transportAddr cfg)) 0 (nat numTunnels) NewTunnelPool
            in if pool_Size pool = 0 then Inl Errorf else Inr pool)))"

definition listen_address :: "Config \<Rightarrow> bytes" where
  "listen_address cfg = (if cf_listenAddr cfg = [] then map of_char ''127.0.0.1:1080'' else cf_listenAddr cfg)"

text \<open>
  \<open>Start\<close> is not one step: other calls may come between the check of the state, with which it
  begins, and its end.  \<open>start_begin\<close> is the check and the change to \<open>StateConnecting\<close>.
\<close>

definition start_begin :: "MobileClient \<Rightarrow> err + MobileClient" where
  "start_begin c =
     (if cl_state c = StateConnecting \<or> cl_state c = StateConnected then Inl Errorf
      else Inr (setState StateConnecting c))"

definition start_end :: "start_env \<Rightarrow> tunnel_options \<Rightarrow> Config \<Rightarrow> MobileClient \<Rightarrow> err option \<times> MobileClient" where
  "start_end env opts cfg c =
     (case start_tunnels env opts cfg of
        Inl e \<Rightarrow> (Some e, if e = Panic then c else setState StateError c)
      | Inr pool \<Rightarrow>
          if \<not> st_Listen env (listen_address cfg) then (Some Errorf, setState StateError c)
          else (None, setState StateConnected
                  (c\<lparr>cl_pool := Some pool, cl_listener := Some (listen_address cfg), cl_cancel := True,
                     cl_bytesIn := 0, cl_bytesOut := 0\<rparr>)))"

definition Start :: "start_env \<Rightarrow> tunnel_options \<Rightarrow> Config \<Rightarrow> MobileClient \<Rightarrow> err option \<times> MobileClient" where
  "Start env opts cfg c =
     (case start_begin c of Inl e \<Rightarrow> (Some e, c) | Inr c \<Rightarrow> start_end env opts cfg c)"

definition Stop :: "MobileClient \<Rightarrow> MobileClient" where
  "Stop c = setState StateStopped (c\<lparr>cl_cancel := False, cl_listener := None, cl_pool := None\<rparr>)"

text \<open>
  \<open>StartWithBestResolver\<close>, with the resolver that \<open>TestResolversWithTunnel\<close> finds (empty if none).
\<close>

definition StartWithBestResolver ::
  "start_env \<Rightarrow> tunnel_options \<Rightarrow> bytes \<Rightarrow> Config \<Rightarrow> MobileClient \<Rightarrow> err option \<times> MobileClient" where
  "StartWithBestResolver env opts bestResolver cfg c =
     (if cl_state c = StateConnecting \<or> cl_state c = StateConnected then (Some Errorf, c)
      else
        let c = setState StateConnecting c
        in if bestResolver = [] then (Some Errorf, setState StateError c)
           else
             let c = setState StateConnecting c
             in Start env opts (cfg\<lparr>cf_transportType := udp, cf_transportAddr := bestResolver\<rparr>) c)"

section \<open>The SOCKS5 exchange\<close>

text \<open>
  The events of one local connection: the result of each read (\<open>None\<close> is an error; a read gives at
  most 256 bytes), and whether the writes to the tunnel's stream succeed.
\<close>

record socks_env =
  so_OpenStream :: bool
  so_greeting :: "bytes option"
  so_request :: "bytes option"
  so_writeGreeting :: bool
  so_auth :: "bytes option"
  so_writeRequest :: bool
  so_response :: "bytes option"

datatype socks_event = ToLocal bytes | ToUpstream bytes | Copy

text \<open>The length of the request in the buffer.\<close>

datatype request_check = Incomplete | UnknownType | Length nat

definition request_length :: "bytes \<Rightarrow> request_check" where
  "request_length buf =
     (let n = length buf
      in if buf ! 3 = 1 then (if n < 10 then Incomplete else Length 10)
         else if buf ! 3 = 3 then
           (let domainLen = unat (buf ! 4)
            in if n < 5 + domainLen + 2 then Incomplete else Length (5 + domainLen + 2))
         else if buf ! 3 = 4 then (if n < 22 then Incomplete else Length 22)
         else UnknownType)"

definition general_failure :: bytes where
  "general_failure = [5, 1, 0, 1, 0, 0, 0, 0, 0, 0]"

definition upstream_exchange :: "socks_env \<Rightarrow> bytes \<Rightarrow> socks_event list" where
  "upstream_exchange env request =
     (if \<not> so_writeGreeting env then [ToUpstream [5, 1, 0], ToLocal general_failure]
      else [ToUpstream [5, 1, 0]] @
        (case so_auth env of
           None \<Rightarrow> [ToLocal general_failure]
         | Some authResp \<Rightarrow>
             if authResp ! 0 \<noteq> 5 \<or> authResp ! 1 \<noteq> 0 then [ToLocal general_failure]
             else [ToUpstream request] @
               (if \<not> so_writeRequest env then [ToLocal general_failure]
                else (case so_response env of
                        None \<Rightarrow> [ToLocal general_failure]
                      | Some resp \<Rightarrow>
                          if length resp < 10 then [ToLocal general_failure]
                          else [ToLocal resp, Copy]))))"

definition handleSOCKS :: "socks_env \<Rightarrow> TunnelPool \<Rightarrow> socks_event list \<times> TunnelPool" where
  "handleSOCKS env pool =
     (case pool_Get pool of
        (None, pool) \<Rightarrow> ([], pool)
      | (Some _, pool) \<Rightarrow>
          (if \<not> so_OpenStream env then []
           else case so_greeting env of
               None \<Rightarrow> []
             | Some buf \<Rightarrow>
                 if length buf < 2 \<or> buf ! 0 \<noteq> 5 then []
                 else [ToLocal [5, 0]] @
                   (case so_request env of
                      None \<Rightarrow> []
                    | Some buf \<Rightarrow>
                        if length buf < 7 \<or> buf ! 0 \<noteq> 5 \<or> buf ! 1 \<noteq> 1 then []
                        else (case request_length buf of
                                Incomplete \<Rightarrow> []
                              | UnknownType \<Rightarrow> [ToLocal [5, 8, 0, 1, 0, 0, 0, 0, 0, 0]]
                              | Length reqLen \<Rightarrow> upstream_exchange env (take reqLen buf))), pool))"

section \<open>The exchange is right\<close>

text \<open>A CONNECT request of RFC 1928 with an address of one of its three types, and a port.\<close>

definition connect_request :: "bytes \<Rightarrow> bool" where
  "connect_request r \<longleftrightarrow>
     (\<exists>rsv a p. length p = 2 \<and>
        (length a = 4 \<and> r = [5, 1, rsv, 1] @ a @ p \<or>
         length a = 16 \<and> r = [5, 1, rsv, 4] @ a @ p \<or>
         (\<exists>l. length a = unat l \<and> r = [5, 1, rsv, 3, l] @ a @ p)))"

lemma request_length_complete:
  assumes "connect_request req"
  shows "7 \<le> length req \<and> (req @ rest) ! 0 = 5 \<and> (req @ rest) ! 1 = 1 \<and>
     request_length (req @ rest) = Length (length req)"
  using assms by (auto simp: connect_request_def request_length_def Let_def)

lemma take_pieces: "take (i + (j + 2)) buf = take i buf @ take j (drop i buf) @ take 2 (drop (i + j) buf)"
  by (simp only: take_add drop_drop add.commute [of j i])

lemma request_length_sound:
  assumes "7 \<le> length buf" and "buf ! 0 = 5" and "buf ! 1 = 1" and "request_length buf = Length n"
  shows "n \<le> length buf \<and> connect_request (take n buf)"
proof -
  obtain rsv ty l r where buf: "buf = [5, 1, rsv, ty, l] @ r"
    using assms(1-3) by (auto simp: numeral_eq_Suc Suc_le_length_iff)
  consider (v4) "ty = 1" "n = 4 + (4 + 2)" | (name) "ty = 3" "n = 5 + (unat l + 2)" | (v6) "ty = 4" "n = 4 + (16 + 2)"
    using assms(4) by (auto simp: buf request_length_def Let_def split: if_splits)
  moreover have n: "n \<le> length buf"
    using assms(4) by (auto simp: request_length_def Let_def split: if_splits)
  ultimately show ?thesis
  proof cases
    case v4
    then have "take n buf = [5, 1, rsv, 1] @ take 4 (drop 4 buf) @ take 2 (drop 8 buf)"
      by (simp only: take_pieces) (simp add: buf)
    moreover have "length (take 4 (drop 4 buf)) = 4" "length (take 2 (drop 8 buf)) = 2" using n v4(2) by simp_all
    ultimately show ?thesis using n unfolding connect_request_def by blast
  next
    case name
    then have "take n buf = [5, 1, rsv, 3, l] @ take (unat l) (drop 5 buf) @ take 2 (drop (5 + unat l) buf)"
      by (simp only: take_pieces) (simp add: buf)
    moreover have "length (take (unat l) (drop 5 buf)) = unat l" "length (take 2 (drop (5 + unat l) buf)) = 2"
      using n name(2) by simp_all
    ultimately show ?thesis using n unfolding connect_request_def by blast
  next
    case v6
    then have "take n buf = [5, 1, rsv, 4] @ take 16 (drop 4 buf) @ take 2 (drop 20 buf)"
      by (simp only: take_pieces) (simp add: buf)
    moreover have "length (take 16 (drop 4 buf)) = 16" "length (take 2 (drop 20 buf)) = 2" using n v6(2) by simp_all
    ultimately show ?thesis using n unfolding connect_request_def by blast
  qed
qed

text \<open>What is needed of the environment for the copying to start with the request \<open>req\<close>.\<close>

definition good_exchange :: "socks_env \<Rightarrow> bytes \<Rightarrow> bytes \<Rightarrow> bool" where
  "good_exchange env req resp \<longleftrightarrow>
     so_OpenStream env \<and> (\<exists>buf. so_greeting env = Some buf \<and> 2 \<le> length buf \<and> buf ! 0 = 5) \<and>
     (\<exists>rest. so_request env = Some (req @ rest)) \<and> connect_request req \<and>
     so_writeGreeting env \<and> (\<exists>r. so_auth env = Some r \<and> r ! 0 = 5 \<and> r ! 1 = 0) \<and>
     so_writeRequest env \<and> so_response env = Some resp \<and> 10 \<le> length resp"

lemma exchange_complete:
  assumes "good_exchange env req resp" and "tp_tunnels pool \<noteq> []" and "length (tp_tunnels pool) < 2 ^ 64"
  shows "fst (handleSOCKS env pool) =
     [ToLocal [5, 0], ToUpstream [5, 1, 0], ToUpstream req, ToLocal resp, Copy]"
proof -
  obtain rest where rest: "so_request env = Some (req @ rest)" "connect_request req"
    using assms(1) by (auto simp: good_exchange_def)
  note r = request_length_complete [OF rest(2), of rest]
  from r assms show ?thesis
    by (auto simp: handleSOCKS_def pool_Get_nonempty good_exchange_def rest upstream_exchange_def)
qed

lemma exchange_sound:
  assumes "Copy \<in> set (fst (handleSOCKS env pool))"
  shows "\<exists>req resp. good_exchange env req resp"
proof -
  obtain g buf n where "so_OpenStream env" "so_greeting env = Some g" "2 \<le> length g" "g ! 0 = 5"
    and buf: "so_request env = Some buf" "7 \<le> length buf" "buf ! 0 = 5" "buf ! 1 = 1" "request_length buf = Length n"
    and u: "Copy \<in> set (upstream_exchange env (take n buf))"
    using assms
    by (auto simp: handleSOCKS_def not_less split: prod.splits option.splits if_splits request_check.splits)
  moreover note request_length_sound [OF buf(2-5)]
  moreover have "buf = take n buf @ drop n buf" by simp
  moreover obtain r resp where "so_writeGreeting env" "so_auth env = Some r" "r ! 0 = 5" "r ! 1 = 0"
    "so_writeRequest env" "so_response env = Some resp" "10 \<le> length resp"
    using u by (auto simp: upstream_exchange_def split: option.splits if_splits)
  ultimately show ?thesis unfolding good_exchange_def by metis
qed

lemma upstream_sound:
  assumes "ToUpstream b \<in> set (fst (handleSOCKS env pool))"
  shows "b = [5, 1, 0] \<or> connect_request b \<and> (\<exists>rest. so_request env = Some (b @ rest))"
proof -
  obtain buf n where buf: "so_request env = Some buf" "7 \<le> length buf" "buf ! 0 = 5" "buf ! 1 = 1"
    "request_length buf = Length n" and u: "ToUpstream b \<in> set (upstream_exchange env (take n buf))"
    using assms
    by (auto simp: handleSOCKS_def not_less split: prod.splits option.splits if_splits request_check.splits)
  then have "b = [5, 1, 0] \<or> b = take n buf" by (auto simp: upstream_exchange_def split: option.splits if_splits)
  moreover have "buf = take n buf @ drop n buf" by simp
  ultimately show ?thesis using request_length_sound [OF buf(2-5)] buf(1) by metis
qed

section \<open>Properties\<close>

text \<open>
  C29: The SOCKS5 exchange.  The data of a local connection is copied exactly when it asks with a
  greeting of version 5 and a complete CONNECT request of RFC 1928 at the start of its second read, and the
  upstream proxy answers both; then the upstream proxy is sent its greeting and exactly this request,
  and the answer to it goes back.  Bytes that came with the request behind it are lost.  Whatever
  happens, nothing goes upstream but the greeting and a complete CONNECT request.
\<close>

theorem socks_exact:
  assumes "tp_tunnels pool \<noteq> []" and "length (tp_tunnels pool) < 2 ^ 64"
  shows "(Copy \<in> set (fst (handleSOCKS env pool)) \<longleftrightarrow> (\<exists>req resp. good_exchange env req resp)) \<and>
     (\<forall>req resp. good_exchange env req resp \<longrightarrow> fst (handleSOCKS env pool) =
        [ToLocal [5, 0], ToUpstream [5, 1, 0], ToUpstream req, ToLocal resp, Copy]) \<and>
     (\<forall>b. ToUpstream b \<in> set (fst (handleSOCKS env pool)) \<longrightarrow>
        b = [5, 1, 0] \<or> connect_request b \<and> (\<exists>rest. so_request env = Some (b @ rest)))"
  using exchange_sound [of env pool] exchange_complete [OF _ assms] upstream_sound [of _ env pool]
  by fastforce

text \<open>A request for a name, with a byte of data behind it.\<close>

definition name_request :: socks_env where
  "name_request = \<lparr>so_OpenStream = True, so_greeting = Some [5, 1, 0],
     so_request = Some ([5, 1, 0, 3, 1, 97, 0, 80] @ [42]), so_writeGreeting = True, so_auth = Some [5, 0],
     so_writeRequest = True, so_response = Some [5, 0, 0, 1, 0, 0, 0, 0, 0, 0]\<rparr>"

theorem socks_exact_witness:
  "fst (handleSOCKS name_request \<lparr>tp_tunnels = [bare_tunnel 1], tp_next = 0\<rparr>) =
     [ToLocal [5, 0], ToUpstream [5, 1, 0], ToUpstream [5, 1, 0, 3, 1, 97, 0, 80],
      ToLocal [5, 0, 0, 1, 0, 0, 0, 0, 0, 0], Copy]"
proof -
  have "connect_request [5, 1, 0, 3, 1, 97, 0, 80]"
    unfolding connect_request_def
    by (intro exI [of _ 0] exI [of _ "[97]"] exI [of _ "[0, 80]"] conjI disjI2 exI [of _ 1]) simp_all
  then have "good_exchange name_request [5, 1, 0, 3, 1, 97, 0, 80] [5, 0, 0, 1, 0, 0, 0, 0, 0, 0]"
    by (simp add: good_exchange_def name_request_def)
  with socks_exact [of "\<lparr>tp_tunnels = [bare_tunnel 1], tp_next = 0\<rparr>" name_request] show ?thesis by simp
qed

section \<open>Histories of the client\<close>

datatype client_op =
    OpStart start_env tunnel_options Config
  | OpStop
  | OpStartWithBestResolver start_env tunnel_options bytes Config

fun run_op :: "client_op \<Rightarrow> MobileClient \<Rightarrow> MobileClient" where
  "run_op (OpStart env opts cfg) c = snd (Start env opts cfg c)"
| "run_op OpStop c = Stop c"
| "run_op (OpStartWithBestResolver env opts best cfg) c = snd (StartWithBestResolver env opts best cfg c)"

text \<open>
  The client holds tunnels, a listener and a function to cancel exactly when it says that it is
  connected, and the callback has been told the state that it is in.
\<close>

definition client_inv :: "MobileClient \<Rightarrow> bool" where
  "client_inv c \<longleftrightarrow>
     (cl_state c = StateConnected \<longleftrightarrow> (\<exists>pool. cl_pool c = Some pool \<and> pool_Size pool > 0)) \<and>
     (cl_pool c \<noteq> None \<longleftrightarrow> cl_listener c \<noteq> None) \<and> (cl_pool c \<noteq> None \<longleftrightarrow> cl_cancel c) \<and>
     (cl_pool c \<noteq> None \<longrightarrow> cl_state c = StateConnected) \<and>
     (cl_told c = [] \<and> cl_state c = StateStopped \<or> cl_told c \<noteq> [] \<and> last (cl_told c) = cl_state c)"

lemma setState_simps [simp]:
  "cl_state (setState st c) = st" "cl_pool (setState st c) = cl_pool c" "cl_listener (setState st c) = cl_listener c"
  "cl_cancel (setState st c) = cl_cancel c" "cl_told (setState st c) = cl_told c @ [st]"
  by (simp_all add: setState_def)

lemma start_tunnels_size: "start_tunnels env opts cfg = Inr pool \<Longrightarrow> pool_Size pool > 0"
  by (auto simp: start_tunnels_def Let_def result_simps split: if_splits)

lemma Start_inv: "client_inv c \<Longrightarrow> client_inv (snd (Start env opts cfg c))"
  by (auto simp: Start_def start_begin_def start_end_def client_inv_def
      dest: start_tunnels_size split: sum.splits if_splits)

lemma Start_running:
  "cl_state c = StateConnecting \<or> cl_state c = StateConnected \<Longrightarrow> Start env opts cfg c = (Some Errorf, c)"
  by (auto simp: Start_def start_begin_def)

lemma StartWithBestResolver_result:
  "StartWithBestResolver env opts best cfg c =
     (Some Errorf,
      if cl_state c = StateConnecting \<or> cl_state c = StateConnected then c
      else if best = [] then setState StateError (setState StateConnecting c)
      else setState StateConnecting (setState StateConnecting c))"
  by (simp add: StartWithBestResolver_def Start_running Let_def)

lemma run_op_inv: "client_inv c \<Longrightarrow> client_inv (run_op op c)"
proof (cases op)
  case OpStop
  assume "client_inv c"
  with OpStop show ?thesis by (simp add: Stop_def client_inv_def)
next
  case (OpStartWithBestResolver env opts best cfg)
  assume "client_inv c"
  with OpStartWithBestResolver show ?thesis by (auto simp: StartWithBestResolver_result client_inv_def)
qed (simp add: Start_inv)


text \<open>An environment in which everything works, and a configuration for it.\<close>

definition working_env :: start_env where
  "working_env = \<lparr>st_casemap = \<lparr>uniLower = id, uniUpper = id\<rparr>, st_rand = id,
     st_create = \<lambda>_ _ _ _ _ _ _ _. Inr (bare_tunnel 1), st_Listen = \<lambda>_. True\<rparr>"

definition working_config :: Config where
  "working_config = NewConfig\<lparr>cf_pubkeyHex := hex_encode (replicate 32 1), cf_domain := [116], cf_tunnels := 1\<rparr>"

lemma working_tunnels:
  "start_tunnels working_env opts working_config = Inr \<lparr>tp_tunnels = [bare_tunnel 1], tp_next = 0\<rparr>"
proof -
  have "ParseName [116] = Inr [[116]]"
    by (simp add: ParseName_def trimSuffixByte_def valid_name_def valid_label_def name_octets_def)
  moreover have "client_mtu [[116]] = 142"
    by (simp add: client_mtu_def dnsNameCapacity_def quo_def numPadding_def Let_def)
  moreover have "DecodeKey (hex_encode (replicate 32 1)) = Inr (replicate 32 1)"
    by (simp add: DecodeKey_def KeyLen_def)
  ultimately show ?thesis
    by (simp add: start_tunnels_def working_config_def NewConfig_def parse_utls_def working_env_def
        pool_Size_def NewTunnelPool_def pool_Add_def Let_def)
qed


text \<open>
  \<open>StartWithBestResolver\<close> never connects.  It sets the state to \<open>StateConnecting\<close> and then calls
  \<open>Start\<close>, which refuses in that state.  So it always returns an error, and when it has found a working
  resolver it leaves the client in \<open>StateConnecting\<close>, where every further start is refused as well.
\<close>

theorem best_resolver_never_connects:
  "fst (StartWithBestResolver env opts best cfg c) = Some Errorf \<and>
   cl_pool (snd (StartWithBestResolver env opts best cfg c)) = cl_pool c \<and>
   cl_state (snd (StartWithBestResolver env opts best cfg c)) =
     (if cl_state c = StateConnecting \<or> cl_state c = StateConnected then cl_state c
      else if best = [] then StateError else StateConnecting) \<and>
   (cl_state (snd (StartWithBestResolver env opts best cfg c)) = StateConnecting \<longrightarrow>
      fst (Start env' opts' cfg' (snd (StartWithBestResolver env opts best cfg c))) = Some Errorf)"
  by (simp add: StartWithBestResolver_result Start_running)

theorem best_resolver_never_connects_witness:
  "fst (StartWithBestResolver working_env initial_options [57] working_config NewMobileClient) = Some Errorf \<and>
   cl_state (snd (StartWithBestResolver working_env initial_options [57] working_config NewMobileClient)) = StateConnecting \<and>
   fst (Start working_env initial_options working_config NewMobileClient) = None"
proof -
  have "fst (Start working_env initial_options working_config NewMobileClient) = None"
    by (simp add: Start_def start_begin_def NewMobileClient_def start_end_def working_tunnels)
      (simp add: working_env_def)
  moreover have "cl_state NewMobileClient = StateStopped" by (simp add: NewMobileClient_def)
  ultimately show ?thesis
    using best_resolver_never_connects [of working_env initial_options "[57]" working_config NewMobileClient] by simp
qed

end
