(* ===== verification/MobileStreams.thy ===== *)
theory MobileStreams
  imports Mobile
begin

text \<open>
  The connections of the mobile client (\<open>src/dnstt-client/mobile/mobile.go\<close>): the accept loop, the copying
  at the end of \<open>handleSOCKS\<close>, and the counters that \<open>statsReporter\<close> reports.
\<close>

section \<open>acceptLoop\<close>

text \<open>
  Each round first looks at the context and then calls \<open>Accept\<close>, which gives a connection or an error;
  after an error it looks at the context once more.  The two flags are what these looks see.
\<close>

fun accept_connections :: "(bool \<times> 'c option \<times> bool) list \<Rightarrow> 'c list \<times> bool" where
  "accept_connections [] = ([], False)"
| "accept_connections ((done1, conn, done2) # rs) =
     (if done1 then ([], True)
      else case conn of
          None \<Rightarrow> if done2 then ([], True) else accept_connections rs
        | Some c \<Rightarrow> (let (cs, b) = accept_connections rs in (c # cs, b)))"

section \<open>The copying of handleSOCKS\<close>

datatype mobile_action = ConnCloseRead | ConnCloseWrite | StreamClosed | ConnClosed

text \<open>
  \<open>Up\<close> is the copy from the local connection to the stream.  Neither goroutine closes the stream: the
  deferred functions do that, when both copies have ended or the context is cancelled.
\<close>

definition socks_code :: "bool \<Rightarrow> mobile_action relay_code" where
  "socks_code cancelled = \<lparr>rc_closes = case_side [ConnCloseRead] [ConnCloseWrite],
     rc_deferred = [StreamClosed, ConnClosed], rc_cancel = cancelled\<rparr>"

section \<open>The counters\<close>

text \<open>What a copy adds to its counter: all its bytes, when it has ended.\<close>

definition counted :: "'a relay \<Rightarrow> side \<Rightarrow> int" where
  "counted s d = (case rl_cp s d of Copying _ \<Rightarrow> 0 | Closing _ \<Rightarrow> int (length (rl_out s d)))"

text \<open>\<open>bytesIn\<close> and \<open>bytesOut\<close> since the start of the client, as \<open>statsReporter\<close> reports them.\<close>

definition reported :: "mobile_action relay list \<Rightarrow> int \<times> int" where
  "reported conns = (sum_list (map (\<lambda>s. counted s Down) conns), sum_list (map (\<lambda>s. counted s Up) conns))"

text \<open>\<open>activeStreams\<close>: the calls of \<open>handleSOCKS\<close> that have not returned.\<close>

definition activeStreams :: "mobile_action relay list \<Rightarrow> int" where
  "activeStreams conns = int (length (filter (\<lambda>s. \<not> rl_returned s) conns))"

section \<open>Lemmas\<close>

lemma not_returned_closings:
  assumes "relay_inv (socks_code False) input s" and "StreamClosed \<in> set (rl_closed s)"
  shows "rl_returned s"
proof (rule ccontr)
  assume "\<not> rl_returned s"
  then obtain zs where zs: "zs \<in> shuffles (has_closed (socks_code False) s Up) (has_closed (socks_code False) s Down)"
    "rl_closed s = zs"
    using assms(1) by (auto simp: relay_inv_def order_ok_def)
  have sub: "set (has_closed (socks_code False) s d) \<subseteq> {ConnCloseRead, ConnCloseWrite}" for d
    by (cases d) (auto simp: has_closed_def socks_code_def dest!: in_set_takeD split: copier.splits)
  have "set zs = set (has_closed (socks_code False) s Up) \<union> set (has_closed (socks_code False) s Down)"
    using zs(1) by (rule set_shuffles)
  with sub [of Up] sub [of Down] zs(2) assms(2) show False by auto
qed

text \<open>
  The end of the local data is not passed on.  As long as the client is not stopped, the stream
  of a connection is closed only after the copy from the stream has ended, too: a local program
  that has sent everything and closed its side, or that is gone, is not noticed at the other end of
  the stream, which keeps the connection counted as active until the other end closes it.  The bytes of a copy
  are reported only when it has ended.
\<close>

theorem local_end_not_forwarded:
  assumes "(relay_step (socks_code False))\<^sup>*\<^sup>* (new_relay input) s" and "rl_cp s Down = Copying cs"
  shows "StreamClosed \<notin> set (rl_closed s) \<and> \<not> rl_returned s \<and> activeStreams [s] = 1 \<and> fst (reported [s]) = 0 \<and>
     (rl_cp s Up = Closing [] \<longrightarrow> snd (reported [s]) \<le> int (length (concat (input Up))) \<and>
        (\<forall>t. relay_step (socks_code False) s t \<longrightarrow> rl_closed t = rl_closed s))"
proof -
  have inv: "relay_inv (socks_code False) input s" using relay.steps_inv [OF assms(1) new_relay_inv] .
  have ret: "\<not> rl_returned s"
  proof
    assume "rl_returned s"
    with inv have "rl_cp s Down = Closing []" by (simp add: relay_inv_def socks_code_def)
    with assms(2) show False by simp
  qed
  moreover have "StreamClosed \<notin> set (rl_closed s)" using not_returned_closings [OF inv] ret by blast
  moreover have "snd (reported [s]) \<le> int (length (concat (input Up)))"
  proof -
    have "data_ok (input Up) (rl_cp s Up) (rl_out s Up) (rl_err s Up)" using inv by (simp add: relay_inv_def)
    then have "length (rl_out s Up) \<le> length (concat (input Up))"
      by (auto simp: data_ok_def prefix_length_le dest!: arg_cong [where f = length] split: copier.splits)
    then show ?thesis by (simp add: reported_def counted_def split: copier.splits)
  qed
  moreover have "rl_closed t = rl_closed s" if "rl_cp s Up = Closing []" "relay_step (socks_code False) s t" for t
    using that(2)
  proof cases
    case (r_close d a as)
    then show ?thesis using that(1) assms(2) by (cases d) simp_all
  next
    case r_return
    then have "rl_cp s Down = Closing []" by (simp add: socks_code_def)
    with assms(2) show ?thesis by simp
  qed simp_all
  ultimately show ?thesis using assms(2) by (auto simp: activeStreams_def reported_def counted_def)
qed

text \<open>A local program that sends one byte and closes its side.\<close>

theorem local_end_not_forwarded_witness:
  "\<exists>s. (relay_step (socks_code False))\<^sup>*\<^sup>* (new_relay (case_side [[7]] [[1]])) s \<and> rl_cp s Up = Closing [] \<and>
     rl_out s Up = [7] \<and> StreamClosed \<notin> set (rl_closed s) \<and> activeStreams [s] = 1"
proof -
  let ?input = "case_side [[7 :: byte]] [[1]]" and ?code = "socks_code False"
  let ?s0 = "new_relay ?input :: mobile_action relay"
  define s1 where "s1 = ?s0\<lparr>rl_cp := (rl_cp ?s0)(Up := Copying []), rl_out := (rl_out ?s0)(Up := rl_out ?s0 Up @ [7])\<rparr>"
  define s2 where "s2 = s1\<lparr>rl_cp := (rl_cp s1)(Up := Closing (rc_closes ?code Up))\<rparr>"
  define s3 where "s3 = s2\<lparr>rl_cp := (rl_cp s2)(Up := Closing []), rl_closed := rl_closed s2 @ [ConnCloseRead]\<rparr>"
  have "relay_step ?code ?s0 s1" unfolding s1_def by (rule r_copy) (simp add: new_relay_def)
  moreover have "relay_step ?code s1 s2" unfolding s2_def by (rule r_eof) (simp add: s1_def)
  moreover have "relay_step ?code s2 s3" unfolding s3_def by (rule r_close) (simp add: s2_def socks_code_def)
  ultimately have run: "(relay_step ?code)\<^sup>*\<^sup>* ?s0 s3"
    by (meson converse_rtranclp_into_rtranclp rtranclp.rtrancl_refl)
  have "rl_cp s3 Down = Copying [[1]]" by (simp add: s3_def s2_def s1_def new_relay_def)
  from local_end_not_forwarded [OF run this] have "StreamClosed \<notin> set (rl_closed s3)" "activeStreams [s3] = 1"
    by simp_all
  moreover have "rl_cp s3 Up = Closing []" "rl_out s3 Up = [7]" by (simp_all add: s3_def s2_def s1_def new_relay_def)
  ultimately show ?thesis using run by blast
qed

end
