(* ===== verification/WorkerPool.thy ===== *)
theory WorkerPool
  imports Completion
begin

text \<open>
  The two worker pools of \<open>FindWorkingResolverTwoPhase\<close> (\<open>src/dnstt-client/mobile/mobile.go\<close>): a
  fixed number of goroutines take work from a channel that another goroutine fills and closes.  In
  the first phase they send a result for every item; in the second one they stop at the first item
  whose test succeeds.  The tests are parameters here.
\<close>

lemma sum_list_update_add:
  fixes f :: "'a \<Rightarrow> 'b :: comm_monoid_add"
  assumes "i < length xs"
  shows "sum_list (map f (xs[i := x])) + f (xs ! i) = sum_list (map f xs) + f x"
proof -
  have "xs[i := x] = take i xs @ x # drop (Suc i) xs" using assms by (rule upd_conv_take_nth_drop)
  moreover have "sum_list (map f xs) = sum_list (map f (take i xs @ xs ! i # drop (Suc i) xs))"
    using id_take_nth_drop [OF assms] by simp
  ultimately show ?thesis by (simp add: ac_simps)
qed

section \<open>Phase 1: all items are tested\<close>

datatype ('i, 'r) worker = WIdle | WTesting 'i | WSending 'r | WEnded

text \<open>
  What the feeding goroutine has left, the channel of the work, whether it is closed, the workers,
  the channel of the results, whether it is closed, and what the caller has collected.
\<close>

record ('i, 'r) workers =
  wk_todo :: "'i list"
  wk_workChan :: "'i list"
  wk_fed :: bool
  wk_ws :: "('i, 'r) worker list"
  wk_resultChan :: "'r list"
  wk_closed :: bool
  wk_results :: "'r list"

definition new_workers :: "nat \<Rightarrow> 'i list \<Rightarrow> ('i, 'r) workers" where
  "new_workers concurrency items =
     \<lparr>wk_todo = items, wk_workChan = [], wk_fed = False, wk_ws = replicate concurrency WIdle,
      wk_resultChan = [], wk_closed = False, wk_results = []\<rparr>"

text \<open>Both channels have the capacity \<open>capacity\<close>, the number of the items.\<close>

inductive worker_step :: "('i \<Rightarrow> 'r) \<Rightarrow> nat \<Rightarrow> ('i, 'r) workers \<Rightarrow> ('i, 'r) workers \<Rightarrow> bool"
  for test capacity where
  w_feed: "wk_todo s = x # xs \<Longrightarrow> length (wk_workChan s) < capacity \<Longrightarrow>
     worker_step test capacity s (s\<lparr>wk_todo := xs, wk_workChan := wk_workChan s @ [x]\<rparr>)"
| w_fed: "wk_todo s = [] \<Longrightarrow> \<not> wk_fed s \<Longrightarrow> worker_step test capacity s (s\<lparr>wk_fed := True\<rparr>)"
| w_take: "i < length (wk_ws s) \<Longrightarrow> wk_ws s ! i = WIdle \<Longrightarrow> wk_workChan s = x # xs \<Longrightarrow>
     worker_step test capacity s (s\<lparr>wk_ws := (wk_ws s)[i := WTesting x], wk_workChan := xs\<rparr>)"
| w_end: "i < length (wk_ws s) \<Longrightarrow> wk_ws s ! i = WIdle \<Longrightarrow> wk_workChan s = [] \<Longrightarrow> wk_fed s \<Longrightarrow>
     worker_step test capacity s (s\<lparr>wk_ws := (wk_ws s)[i := WEnded]\<rparr>)"
| w_test: "i < length (wk_ws s) \<Longrightarrow> wk_ws s ! i = WTesting x \<Longrightarrow>
     worker_step test capacity s (s\<lparr>wk_ws := (wk_ws s)[i := WSending (test x)]\<rparr>)"
| w_send: "i < length (wk_ws s) \<Longrightarrow> wk_ws s ! i = WSending r \<Longrightarrow> length (wk_resultChan s) < capacity \<Longrightarrow>
     worker_step test capacity s
       (s\<lparr>wk_ws := (wk_ws s)[i := WIdle], wk_resultChan := wk_resultChan s @ [r]\<rparr>)"
| w_close: "\<forall>w \<in> set (wk_ws s). w = WEnded \<Longrightarrow> \<not> wk_closed s \<Longrightarrow>
     worker_step test capacity s (s\<lparr>wk_closed := True\<rparr>)"
| w_collect: "wk_resultChan s = r # rs \<Longrightarrow>
     worker_step test capacity s (s\<lparr>wk_resultChan := rs, wk_results := wk_results s @ [r]\<rparr>)"

definition workers_final :: "('i, 'r) workers \<Rightarrow> bool" where
  "workers_final s \<longleftrightarrow> wk_closed s \<and> wk_resultChan s = []"

text \<open>What a worker holds, as the result that will come of it.\<close>

fun held :: "('i \<Rightarrow> 'r) \<Rightarrow> ('i, 'r) worker \<Rightarrow> 'r multiset" where
  "held test (WTesting x) = {#test x#}"
| "held test (WSending r) = {#r#}"
| "held test _ = {#}"

abbreviation accounted :: "('i \<Rightarrow> 'r) \<Rightarrow> ('i, 'r) workers \<Rightarrow> 'r multiset" where
  "accounted test s \<equiv> mset (map test (wk_todo s @ wk_workChan s)) + sum_list (map (held test) (wk_ws s)) +
     mset (wk_resultChan s @ wk_results s)"

definition workers_inv :: "('i \<Rightarrow> 'r) \<Rightarrow> 'i list \<Rightarrow> nat \<Rightarrow> ('i, 'r) workers \<Rightarrow> bool" where
  "workers_inv test items concurrency s \<longleftrightarrow>
     1 \<le> concurrency \<and> length (wk_ws s) = concurrency \<and>
     accounted test s = mset (map test items) \<and>
     (wk_fed s \<longrightarrow> wk_todo s = []) \<and>
     (WEnded \<in> set (wk_ws s) \<longrightarrow> wk_fed s \<and> wk_workChan s = []) \<and>
     (wk_closed s \<longrightarrow> set (wk_ws s) = {WEnded})"

fun worker_weight :: "('i, 'r) worker \<Rightarrow> nat" where
  "worker_weight WIdle = 1"
| "worker_weight (WTesting _) = 4"
| "worker_weight (WSending _) = 3"
| "worker_weight WEnded = 0"

definition workers_msr :: "('i, 'r) workers \<Rightarrow> nat" where
  "workers_msr s = 5 * length (wk_todo s) + 4 * length (wk_workChan s) + (if wk_fed s then 0 else 1) +
     sum_list (map worker_weight (wk_ws s)) + length (wk_resultChan s) + (if wk_closed s then 0 else 1)"

lemma worker_weight_update:
  "i < length ws \<Longrightarrow>
     sum_list (map worker_weight (ws[i := w])) + worker_weight (ws ! i) =
     sum_list (map worker_weight ws) + worker_weight w"
  by (rule sum_list_update_add)

lemma workers_msr_decreases: "worker_step test capacity s t \<Longrightarrow> workers_msr t < workers_msr s"
proof (induction rule: worker_step.induct)
  case (w_take i s x xs)
  then show ?case using worker_weight_update [of i "wk_ws s" "WTesting x"] by (simp add: workers_msr_def)
next
  case (w_end i s)
  then show ?case using worker_weight_update [of i "wk_ws s" WEnded] by (simp add: workers_msr_def)
next
  case (w_test i s x)
  then show ?case using worker_weight_update [of i "wk_ws s" "WSending (test x)"] by (simp add: workers_msr_def)
next
  case (w_send i s r)
  then show ?case using worker_weight_update [of i "wk_ws s" WIdle] by (simp add: workers_msr_def)
qed (simp_all add: workers_msr_def)

lemma held_update:
  "i < length ws \<Longrightarrow>
     sum_list (map (held test) (ws[i := w])) + held test (ws ! i) = sum_list (map (held test) ws) + held test w"
  by (rule sum_list_update_add)

lemma set_update_ended: "WEnded \<in> set (ws[i := w]) \<Longrightarrow> w \<noteq> WEnded \<Longrightarrow> WEnded \<in> set ws"
  using set_update_subset_insert [of ws i w] by auto

lemma all_ended:
  assumes "workers_inv test items concurrency s" and "\<forall>w \<in> set (wk_ws s). w = WEnded"
  shows "set (wk_ws s) = {WEnded}"
  using assms by (cases "wk_ws s") (auto simp: workers_inv_def)

lemma workers_inv_step:
  assumes "workers_inv test items concurrency s" and "worker_step test capacity s t"
  shows "workers_inv test items concurrency t"
  using assms(2,1)
proof cases
  case (w_take i x xs)
  have "WEnded \<notin> set ((wk_ws s)[i := WTesting x])"
    using w_take assms(1) set_update_ended [of "wk_ws s" i "WTesting x"] by (auto simp: workers_inv_def)
  moreover have "set (wk_ws s) \<noteq> {WEnded}" using w_take(2,3) nth_mem [of i "wk_ws s"] by auto
  ultimately show ?thesis
    using w_take assms(1) held_update [of i "wk_ws s" test "WTesting x"] by (simp add: workers_inv_def)
next
  case (w_end i)
  moreover have "set (wk_ws s) \<noteq> {WEnded}" using w_end(2,3) nth_mem [of i "wk_ws s"] by auto
  ultimately show ?thesis
    using assms(1) held_update [of i "wk_ws s" test WEnded] by (auto simp: workers_inv_def)
next
  case (w_test i x)
  moreover have "set (wk_ws s) \<noteq> {WEnded}" using w_test(2,3) nth_mem [of i "wk_ws s"] by auto
  ultimately show ?thesis
    using assms(1) held_update [of i "wk_ws s" test "WSending (test x)"]
      set_update_ended [of "wk_ws s" i "WSending (test x)"] by (auto simp: workers_inv_def)
next
  case (w_send i r)
  have "set (wk_ws s) \<noteq> {WEnded}" using w_send(2,3) nth_mem [of i "wk_ws s"] by auto
  moreover have "sum_list (map (held test) (wk_ws s)) = add_mset r (sum_list (map (held test) ((wk_ws s)[i := WIdle])))"
    using held_update [of i "wk_ws s" test WIdle] w_send(2,3) by simp
  ultimately show ?thesis
    using w_send assms(1) set_update_ended [of "wk_ws s" i WIdle] by (auto simp: workers_inv_def)
next
  case w_close
  have "set (wk_ws s) = {WEnded}" by (rule all_ended [OF assms(1) w_close(2)])
  moreover have "accounted test t = accounted test s" by (simp add: w_close(1))
  ultimately show ?thesis using assms(1) by (simp only: workers_inv_def w_close(1)) simp
qed (auto simp: workers_inv_def)

lemma held_member: "w \<in> set ws \<Longrightarrow> r \<in># held test w \<Longrightarrow> r \<in># sum_list (map (held test) ws)"
  by (induction ws) auto

lemma none_held: "\<forall>w \<in> set ws. held test w = {#} \<Longrightarrow> sum_list (map (held test) ws) = {#}"
  by (induction ws) simp_all

lemma no_more_held [simp]: "sum_list (replicate n {#}) = {#}"
  by (induction n) simp_all

lemma held_le: "w \<in> set ws \<Longrightarrow> size (held test w) \<le> size (sum_list (map (held test) ws))"
  by (induction ws) auto

lemma workers_room:
  assumes "workers_inv test items concurrency s"
  shows "length (wk_todo s) + length (wk_workChan s) + length (wk_resultChan s) +
     size (sum_list (map (held test) (wk_ws s))) \<le> length items"
proof -
  have "size (accounted test s) = length items" using assms by (simp add: workers_inv_def)
  then show ?thesis by simp
qed

lemma workers_progress:
  assumes inv: "workers_inv test items concurrency s" and "\<not> workers_final s"
  shows "\<exists>t. worker_step test (length items) s t"
proof (cases "wk_resultChan s")
  case (Cons r rs)
  then show ?thesis by (blast intro: w_collect)
next
  case none: Nil
  show ?thesis
  proof (cases "wk_fed s")
    case False
    then show ?thesis
    proof (cases "wk_todo s")
      case (Cons x xs)
      then have "length (wk_workChan s) < length items" using workers_room [OF inv] by simp
      with Cons show ?thesis by (blast intro: w_feed)
    qed (blast intro: w_fed)
  next
    case fed: True
    show ?thesis
    proof (cases "\<forall>w \<in> set (wk_ws s). w = WEnded")
      case True
      with none assms(2) show ?thesis by (auto simp: workers_final_def intro: w_close)
    next
      case False
      then obtain i where i: "i < length (wk_ws s)" "wk_ws s ! i \<noteq> WEnded" by (auto simp: in_set_conv_nth)
      show ?thesis
      proof (cases "wk_ws s ! i")
        case WIdle
        with i fed show ?thesis by (cases "wk_workChan s") (blast intro: w_end w_take)+
      next
        case (WTesting x)
        with i show ?thesis by (blast intro: w_test)
      next
        case (WSending r)
        have "length (wk_resultChan s) < length items"
          using workers_room [OF inv] held_le [of "wk_ws s ! i" "wk_ws s" test] nth_mem [OF i(1)] WSending by simp
        with i WSending show ?thesis by (blast intro: w_send)
      qed (use i in simp)
    qed
  qed
qed

interpretation worker_pool: completes "worker_step test (length items)" "workers_inv test items concurrency"
  workers_final workers_msr
  for test :: "'i \<Rightarrow> 'r" and items concurrency
  by unfold_locales (blast intro: workers_inv_step workers_msr_decreases workers_progress)+

lemma new_workers_inv: "1 \<le> concurrency \<Longrightarrow> workers_inv test items concurrency (new_workers concurrency items)"
  using none_held [of "replicate concurrency WIdle" test] by (simp add: workers_inv_def new_workers_def)

lemma workers_results:
  assumes "workers_inv test items concurrency s" and "workers_final s"
  shows "mset (wk_results s) = mset (map test items)"
proof -
  have ended: "set (wk_ws s) = {WEnded}" using assms by (simp add: workers_inv_def workers_final_def)
  then have "sum_list (map (held test) (wk_ws s)) = {#}" by (simp add: none_held)
  moreover have "wk_todo s = []" "wk_workChan s = []"
    using assms ended by (auto simp: workers_inv_def)
  ultimately show ?thesis using assms by (simp add: workers_inv_def workers_final_def)
qed

section \<open>Phase 2: the first success ends it\<close>

text \<open>
  A worker: at its select, in a test, before it sends what it has found, before it cancels the
  context, and ended.  The caller: at the channel, with a result, and returned, with the context
  cancelled.
\<close>

datatype 'i finder = FIdle | FTesting 'i | FFound 'i | FCancel | FEnded

datatype 'i waiter = Receiving | Decided "'i option" | Returning "'i option"

record 'i finders =
  fd_todo :: "'i list"
  fd_workChan :: "'i list"
  fd_fed :: bool
  fd_ws :: "'i finder list"
  fd_ctxDone :: bool
  fd_foundChan :: "'i option"
  fd_closed :: bool
  fd_main :: "'i waiter"

definition new_finders :: "nat \<Rightarrow> 'i list \<Rightarrow> 'i finders" where
  "new_finders concurrency items =
     \<lparr>fd_todo = items, fd_workChan = [], fd_fed = False, fd_ws = replicate concurrency FIdle,
      fd_ctxDone = False, fd_foundChan = None, fd_closed = False, fd_main = Receiving\<rparr>"

text \<open>
  The channel of the findings has room for one.  When the context is cancelled the feeding goroutine
  may drop an item, since its \<open>break\<close> leaves the \<open>select\<close> only, and a worker may still take one.
\<close>

inductive finder_step :: "('i \<Rightarrow> bool) \<Rightarrow> nat \<Rightarrow> 'i finders \<Rightarrow> 'i finders \<Rightarrow> bool"
  for works capacity where
  f_feed: "fd_todo s = x # xs \<Longrightarrow> length (fd_workChan s) < capacity \<Longrightarrow>
     finder_step works capacity s (s\<lparr>fd_todo := xs, fd_workChan := fd_workChan s @ [x]\<rparr>)"
| f_skip: "fd_todo s = x # xs \<Longrightarrow> fd_ctxDone s \<Longrightarrow> finder_step works capacity s (s\<lparr>fd_todo := xs\<rparr>)"
| f_fed: "fd_todo s = [] \<Longrightarrow> \<not> fd_fed s \<Longrightarrow> finder_step works capacity s (s\<lparr>fd_fed := True\<rparr>)"
| f_stop: "i < length (fd_ws s) \<Longrightarrow> fd_ws s ! i = FIdle \<Longrightarrow> fd_ctxDone s \<Longrightarrow>
     finder_step works capacity s (s\<lparr>fd_ws := (fd_ws s)[i := FEnded]\<rparr>)"
| f_take: "i < length (fd_ws s) \<Longrightarrow> fd_ws s ! i = FIdle \<Longrightarrow> fd_workChan s = x # xs \<Longrightarrow>
     finder_step works capacity s (s\<lparr>fd_ws := (fd_ws s)[i := FTesting x], fd_workChan := xs\<rparr>)"
| f_drained: "i < length (fd_ws s) \<Longrightarrow> fd_ws s ! i = FIdle \<Longrightarrow> fd_workChan s = [] \<Longrightarrow> fd_fed s \<Longrightarrow>
     finder_step works capacity s (s\<lparr>fd_ws := (fd_ws s)[i := FEnded]\<rparr>)"
| f_test: "i < length (fd_ws s) \<Longrightarrow> fd_ws s ! i = FTesting x \<Longrightarrow>
     finder_step works capacity s (s\<lparr>fd_ws := (fd_ws s)[i := (if works x then FFound x else FIdle)]\<rparr>)"
| f_publish: "i < length (fd_ws s) \<Longrightarrow> fd_ws s ! i = FFound x \<Longrightarrow> fd_foundChan s = None \<Longrightarrow>
     finder_step works capacity s (s\<lparr>fd_ws := (fd_ws s)[i := FCancel], fd_foundChan := Some x\<rparr>)"
| f_late: "i < length (fd_ws s) \<Longrightarrow> fd_ws s ! i = FFound x \<Longrightarrow> fd_foundChan s = Some y \<Longrightarrow>
     finder_step works capacity s (s\<lparr>fd_ws := (fd_ws s)[i := FEnded]\<rparr>)"
| f_cancel: "i < length (fd_ws s) \<Longrightarrow> fd_ws s ! i = FCancel \<Longrightarrow>
     finder_step works capacity s (s\<lparr>fd_ws := (fd_ws s)[i := FEnded], fd_ctxDone := True\<rparr>)"
| f_close: "\<forall>w \<in> set (fd_ws s). w = FEnded \<Longrightarrow> \<not> fd_closed s \<Longrightarrow>
     finder_step works capacity s (s\<lparr>fd_closed := True\<rparr>)"
| f_receive: "fd_main s = Receiving \<Longrightarrow> fd_foundChan s = Some x \<Longrightarrow>
     finder_step works capacity s (s\<lparr>fd_foundChan := None, fd_main := Decided (Some x)\<rparr>)"
| f_none: "fd_main s = Receiving \<Longrightarrow> fd_foundChan s = None \<Longrightarrow> fd_closed s \<Longrightarrow>
     finder_step works capacity s (s\<lparr>fd_main := Decided None\<rparr>)"
| f_return: "fd_main s = Decided r \<Longrightarrow>
     finder_step works capacity s (s\<lparr>fd_main := Returning r, fd_ctxDone := True\<rparr>)"

definition finders_final :: "'i finders \<Rightarrow> bool" where
  "finders_final s \<longleftrightarrow> (\<exists>r. fd_main s = Returning r)"

text \<open>Nothing has been found yet.\<close>

definition undecided :: "'i finders \<Rightarrow> bool" where
  "undecided s \<longleftrightarrow> \<not> fd_ctxDone s \<and> fd_foundChan s = None \<and> fd_main s = Receiving"

text \<open>As long as nothing has been found, every item that works is still to come or in the hands of a worker.\<close>

definition pending :: "'i finders \<Rightarrow> 'i set" where
  "pending s = set (fd_todo s) \<union> set (fd_workChan s) \<union> {x. FTesting x \<in> set (fd_ws s) \<or> FFound x \<in> set (fd_ws s)}"

definition good :: "('i \<Rightarrow> bool) \<Rightarrow> 'i list \<Rightarrow> 'i \<Rightarrow> bool" where
  "good works items x \<longleftrightarrow> x \<in> set items \<and> works x"

definition decision_ok :: "('i \<Rightarrow> bool) \<Rightarrow> 'i list \<Rightarrow> 'i option \<Rightarrow> bool" where
  "decision_ok works items r \<longleftrightarrow> (case r of None \<Rightarrow> \<forall>x. \<not> good works items x | Some x \<Rightarrow> good works items x)"

definition finders_inv :: "('i \<Rightarrow> bool) \<Rightarrow> 'i list \<Rightarrow> nat \<Rightarrow> 'i finders \<Rightarrow> bool" where
  "finders_inv works items concurrency s \<longleftrightarrow>
     1 \<le> concurrency \<and> length (fd_ws s) = concurrency \<and>
     length (fd_todo s) + length (fd_workChan s) \<le> length items \<and>
     pending s \<subseteq> set items \<and> (\<forall>x. FFound x \<in> set (fd_ws s) \<longrightarrow> works x) \<and>
     (\<forall>x. fd_foundChan s = Some x \<longrightarrow> good works items x) \<and>
     (fd_fed s \<longrightarrow> fd_todo s = []) \<and>
     (fd_closed s \<longrightarrow> set (fd_ws s) = {FEnded}) \<and>
     (undecided s \<longrightarrow> FCancel \<notin> set (fd_ws s) \<and> (FEnded \<in> set (fd_ws s) \<longrightarrow> fd_fed s \<and> fd_workChan s = []) \<and>
        (\<forall>x. good works items x \<longrightarrow> x \<in> pending s)) \<and>
     (\<not> undecided s \<and> fd_main s = Receiving \<longrightarrow> fd_foundChan s \<noteq> None) \<and>
     (case fd_main s of Receiving \<Rightarrow> True | Decided r \<Rightarrow> decision_ok works items r | Returning r \<Rightarrow> decision_ok works items r)"

fun finder_weight :: "'i finder \<Rightarrow> nat" where
  "finder_weight FIdle = 1"
| "finder_weight (FTesting _) = 4"
| "finder_weight (FFound _) = 3"
| "finder_weight FCancel = 1"
| "finder_weight FEnded = 0"

definition finders_msr :: "'i finders \<Rightarrow> nat" where
  "finders_msr s = 5 * length (fd_todo s) + 4 * length (fd_workChan s) + (if fd_fed s then 0 else 1) +
     sum_list (map finder_weight (fd_ws s)) + (if fd_foundChan s = None then 0 else 1) +
     (if fd_closed s then 0 else 1) + (case fd_main s of Receiving \<Rightarrow> 2 | Decided _ \<Rightarrow> 1 | Returning _ \<Rightarrow> 0)"

lemma finder_weight_update:
  "i < length ws \<Longrightarrow>
     sum_list (map finder_weight (ws[i := w])) + finder_weight (ws ! i) =
     sum_list (map finder_weight ws) + finder_weight w"
  by (rule sum_list_update_add)

lemma finders_msr_decreases: "finder_step works capacity s t \<Longrightarrow> finders_msr t < finders_msr s"
proof (induction rule: finder_step.induct)
  case (f_stop i s)
  then show ?case using finder_weight_update [of i "fd_ws s" FEnded] by (simp add: finders_msr_def)
next
  case (f_take i s x xs)
  then show ?case using finder_weight_update [of i "fd_ws s" "FTesting x"] by (simp add: finders_msr_def)
next
  case (f_drained i s)
  then show ?case using finder_weight_update [of i "fd_ws s" FEnded] by (simp add: finders_msr_def)
next
  case (f_test i s x)
  then show ?case
    using finder_weight_update [of i "fd_ws s" "if works x then FFound x else FIdle"]
    by (cases "works x") (simp_all add: finders_msr_def)
next
  case (f_publish i s x)
  then show ?case using finder_weight_update [of i "fd_ws s" FCancel] by (simp add: finders_msr_def)
next
  case (f_late i s x y)
  then show ?case using finder_weight_update [of i "fd_ws s" FEnded] by (simp add: finders_msr_def)
next
  case (f_cancel i s)
  then show ?case using finder_weight_update [of i "fd_ws s" FEnded] by (simp add: finders_msr_def)
qed (simp_all add: finders_msr_def)


text \<open>What an update of one worker does to the set of all.\<close>

lemma in_update:
  assumes "i < length ws"
  shows "w \<in> set (ws[i := w])" and "y \<in> set ws \<Longrightarrow> y \<noteq> ws ! i \<Longrightarrow> y \<in> set (ws[i := w])"
    and "y \<in> set (ws[i := w]) \<Longrightarrow> y = w \<or> y \<in> set ws" and "ws ! i \<in> set ws"
  using assms set_update_subset_insert [of ws i w] by (auto simp: set_update_memI in_set_conv_nth nth_list_update) metis

lemma pending_update:
  assumes "i < length ws" and "ws ! i = v"
  shows "{x. FTesting x \<in> set (ws[i := w]) \<or> FFound x \<in> set (ws[i := w])} \<subseteq>
       {x. FTesting x \<in> set ws \<or> FFound x \<in> set ws} \<union> {x. w = FTesting x \<or> w = FFound x}"
    and "{x. FTesting x \<in> set ws \<or> FFound x \<in> set ws} \<subseteq>
       {x. FTesting x \<in> set (ws[i := w]) \<or> FFound x \<in> set (ws[i := w])} \<union> {x. v = FTesting x \<or> v = FFound x}"
proof -
  show "{x. FTesting x \<in> set (ws[i := w]) \<or> FFound x \<in> set (ws[i := w])} \<subseteq>
       {x. FTesting x \<in> set ws \<or> FFound x \<in> set ws} \<union> {x. w = FTesting x \<or> w = FFound x}"
    by (auto dest: in_update(3) [OF assms(1)])
  have "FTesting x \<in> set (ws[i := w]) \<or> v = FTesting x" if "FTesting x \<in> set ws" for x
    using in_update(2) [OF assms(1) that, of w] assms(2) by auto
  moreover have "FFound x \<in> set (ws[i := w]) \<or> v = FFound x" if "FFound x \<in> set ws" for x
    using in_update(2) [OF assms(1) that, of w] assms(2) by auto
  ultimately show "{x. FTesting x \<in> set ws \<or> FFound x \<in> set ws} \<subseteq>
       {x. FTesting x \<in> set (ws[i := w]) \<or> FFound x \<in> set (ws[i := w])} \<union> {x. v = FTesting x \<or> v = FFound x}"
    by auto
qed

lemma not_closed:
  assumes "finders_inv works items concurrency s" and "i < length (fd_ws s)" and "fd_ws s ! i \<noteq> FEnded"
  shows "\<not> fd_closed s"
  using assms nth_mem [of i "fd_ws s"] by (auto simp: finders_inv_def)

text \<open>A step of one worker that changes no channel and not the context.\<close>

lemma finders_inv_worker:
  assumes inv: "finders_inv works items concurrency s" and i: "i < length (fd_ws s)"
    and v: "fd_ws s ! i = v" "v \<noteq> FEnded" and w: "w \<noteq> FCancel"
    and sub: "{x. w = FTesting x \<or> w = FFound x} \<subseteq> pending s" and ok: "\<forall>x. w = FFound x \<longrightarrow> works x"
    and lost: "undecided s \<Longrightarrow> {x. v = FTesting x \<or> v = FFound x} \<subseteq> {x. w = FTesting x \<or> w = FFound x} \<union> {x. \<not> works x}"
    and ended: "undecided s \<Longrightarrow> w = FEnded \<Longrightarrow> fd_fed s \<and> fd_workChan s = []"
  shows "finders_inv works items concurrency (s\<lparr>fd_ws := (fd_ws s)[i := w]\<rparr>)" (is "finders_inv _ _ _ ?t")
proof -
  have q: "undecided ?t = undecided s" by (simp add: undecided_def)
  have p: "pending ?t \<subseteq> pending s"
    using pending_update(1) [OF i v(1), of w] sub by (auto simp: pending_def)
  have p': "pending s \<subseteq> pending ?t \<union> {x. v = FTesting x \<or> v = FFound x}" "{x. w = FTesting x \<or> w = FFound x} \<subseteq> pending ?t"
    using pending_update(2) [OF i v(1), of w] in_update(1) [OF i, of w] by (auto simp: pending_def)
  have keep: "x \<in> pending ?t" if "undecided s" "good works items x" for x
  proof -
    have "x \<in> pending s" "works x" using that inv by (simp_all add: finders_inv_def good_def)
    with p' lost [OF that(1)] show ?thesis by blast
  qed
  have f: "works x" if "FFound x \<in> set ((fd_ws s)[i := w])" for x
    using in_update(3) [OF i that] ok inv by (auto simp: finders_inv_def)
  have c: "FCancel \<notin> set ((fd_ws s)[i := w])" if "undecided s"
    using in_update(3) [OF i, of FCancel w] that w inv by (auto simp: finders_inv_def)
  have e: "fd_fed s \<and> fd_workChan s = []" if "undecided s" "FEnded \<in> set ((fd_ws s)[i := w])"
    using in_update(3) [OF i, of FEnded w] that ended inv by (auto simp: finders_inv_def)
  show ?thesis
    using inv p keep f c e not_closed [OF inv i] v unfolding finders_inv_def q by auto
qed


lemma finders_inv_step:
  assumes inv: "finders_inv works items concurrency s" and "finder_step works capacity s t"
  shows "finders_inv works items concurrency t"
  using assms(2)
proof cases
  case (f_stop i)
  show ?thesis unfolding f_stop(1)
    using f_stop(4) by (intro finders_inv_worker [OF inv f_stop(2,3)]) (simp_all add: undecided_def)
next
  case (f_drained i)
  show ?thesis unfolding f_drained(1)
    using f_drained(4,5) by (intro finders_inv_worker [OF inv f_drained(2,3)]) simp_all
next
  case (f_test i x)
  have "x \<in> pending s" using f_test(2,3) in_update(4) [OF f_test(2)] by (auto simp: pending_def)
  then show ?thesis unfolding f_test(1)
    by (intro finders_inv_worker [OF inv f_test(2,3)]) (auto split: if_splits)
next
  case (f_late i x y)
  show ?thesis unfolding f_late(1)
    using f_late(4) by (intro finders_inv_worker [OF inv f_late(2,3)]) (simp_all add: undecided_def)
next
  case (f_take i x xs)
  let ?s = "s\<lparr>fd_ws := (fd_ws s)[i := FTesting x]\<rparr>"
  have "finders_inv works items concurrency ?s"
    using f_take(4) by (intro finders_inv_worker [OF inv f_take(2,3)]) (auto simp: pending_def)
  moreover have "FTesting x \<in> set ((fd_ws s)[i := FTesting x])" by (rule in_update(1) [OF f_take(2)])
  moreover from this have "pending t = pending ?s" by (auto simp: pending_def f_take(1,4))
  moreover have "undecided t = undecided ?s" by (simp add: undecided_def f_take(1))
  ultimately show ?thesis using f_take(4) by (auto simp: finders_inv_def f_take(1))
next
  case (f_publish i x)
  have x: "good works items x"
    using inv f_publish(3) in_update(4) [OF f_publish(2)] by (auto simp: finders_inv_def pending_def good_def)
  have "\<not> undecided t" by (simp add: undecided_def f_publish(1))
  moreover have "pending t \<subseteq> pending s" 
    using pending_update(1) [OF f_publish(2) refl, of FCancel] by (auto simp: pending_def f_publish(1))
  moreover have "works y" if "FFound y \<in> set (fd_ws t)" for y
    using that inv in_update(3) [OF f_publish(2), of "FFound y" FCancel] by (auto simp: f_publish(1) finders_inv_def)
  moreover have "\<not> fd_closed s" using not_closed [OF inv f_publish(2)] f_publish(3) by simp
  ultimately show ?thesis using inv x unfolding finders_inv_def by (auto simp: f_publish(1))
next
  case (f_cancel i)
  have "FCancel \<in> set (fd_ws s)" using f_cancel(3) in_update(4) [OF f_cancel(2)] by simp
  then have "\<not> undecided s" using inv by (auto simp: finders_inv_def)
  moreover have "\<not> undecided t" by (simp add: undecided_def f_cancel(1))
  moreover have "pending t \<subseteq> pending s" 
    using pending_update(1) [OF f_cancel(2) refl, of FEnded] by (auto simp: pending_def f_cancel(1))
  moreover have "works y" if "FFound y \<in> set (fd_ws t)" for y
    using that inv in_update(3) [OF f_cancel(2), of "FFound y" FEnded] by (auto simp: f_cancel(1) finders_inv_def)
  moreover have "\<not> fd_closed s" using not_closed [OF inv f_cancel(2)] f_cancel(3) by simp
  ultimately show ?thesis using inv unfolding finders_inv_def by (auto simp: f_cancel(1))
next
  case f_close
  have "set (fd_ws s) = {FEnded}"
    using inv f_close(2) by (cases "fd_ws s") (auto simp: finders_inv_def)
  moreover have "undecided t = undecided s" "pending t = pending s" by (simp_all add: undecided_def pending_def f_close(1))
  ultimately show ?thesis using inv unfolding finders_inv_def by (simp add: f_close(1))
next
  case (f_receive x)
  have "good works items x" using inv f_receive(3) by (simp add: finders_inv_def)
  moreover have "\<not> undecided t" "pending t = pending s" by (simp_all add: undecided_def pending_def f_receive(1))
  ultimately show ?thesis
    using inv unfolding finders_inv_def by (simp add: f_receive(1) decision_ok_def)
next
  case f_none
  have q: "undecided s" using inv f_none(2,3) by (auto simp: finders_inv_def)
  have "set (fd_ws s) = {FEnded}" using inv f_none(4) by (simp add: finders_inv_def)
  moreover from this have "fd_workChan s = []" "fd_todo s = []" using inv q by (simp_all add: finders_inv_def)
  ultimately have "pending s = {}" by (simp add: pending_def)
  then have "decision_ok works items None" using inv q by (simp add: finders_inv_def decision_ok_def)
  moreover have "\<not> undecided t" "pending t = pending s" by (simp_all add: undecided_def pending_def f_none(1))
  ultimately show ?thesis using inv unfolding finders_inv_def by (simp add: f_none(1))
next
  case (f_return r)
  have "\<not> undecided t" "pending t = pending s" by (simp_all add: undecided_def pending_def f_return(1))
  then show ?thesis using inv f_return(2) unfolding finders_inv_def by (simp add: f_return(1))
next
  case (f_feed x xs)
  have "undecided t = undecided s" "pending t = pending s" by (auto simp: undecided_def pending_def f_feed(1,2))
  then show ?thesis using inv f_feed(2) unfolding finders_inv_def by (auto simp: f_feed(1))
next
  case (f_skip x xs)
  have "\<not> undecided t" "\<not> undecided s" "pending t \<subseteq> pending s"
    using f_skip(3) by (auto simp: undecided_def pending_def f_skip(1,2))
  then show ?thesis using inv f_skip(2) unfolding finders_inv_def by (auto simp: f_skip(1))
next
  case f_fed
  have "undecided t = undecided s" "pending t = pending s" by (auto simp: undecided_def pending_def f_fed(1))
  then show ?thesis using inv f_fed(2) unfolding finders_inv_def by (simp add: f_fed(1))
qed

lemma finders_progress:
  assumes inv: "finders_inv works items concurrency s" and "\<not> finders_final s"
  shows "\<exists>t. finder_step works (length items) s t"
proof (cases "fd_main s")
  case (Decided r)
  then show ?thesis by (blast intro: f_return)
next
  case main: Receiving
  show ?thesis
  proof (cases "fd_foundChan s")
    case (Some x)
    with main show ?thesis by (blast intro: f_receive)
  next
    case none: None
    show ?thesis
    proof (cases "fd_fed s")
      case False
      show ?thesis
      proof (cases "fd_todo s")
        case (Cons x xs)
        then have "length (fd_workChan s) < length items" using inv by (simp add: finders_inv_def)
        with Cons show ?thesis by (blast intro: f_feed)
      qed (use False in \<open>blast intro: f_fed\<close>)
    next
      case fed: True
      show ?thesis
      proof (cases "\<forall>w \<in> set (fd_ws s). w = FEnded")
        case True
        with main none show ?thesis by (cases "fd_closed s") (blast intro: f_none f_close)+
      next
        case False
        then obtain i where i: "i < length (fd_ws s)" "fd_ws s ! i \<noteq> FEnded" by (auto simp: in_set_conv_nth)
        show ?thesis
        proof (cases "fd_ws s ! i")
          case FIdle
          with i fed show ?thesis by (cases "fd_workChan s") (blast intro: f_drained f_take)+
        next
          case (FTesting x)
          with i show ?thesis by (blast intro: f_test)
        next
          case (FFound x)
          with i none show ?thesis by (blast intro: f_publish)
        next
          case FCancel
          with i show ?thesis by (blast intro: f_cancel)
        qed (use i in simp)
      qed
    qed
  qed
qed (use assms(2) in \<open>simp add: finders_final_def\<close>)

interpretation finder_pool: completes "finder_step works (length items)" "finders_inv works items concurrency"
  finders_final finders_msr
  for works :: "'i \<Rightarrow> bool" and items concurrency
  by unfold_locales (blast intro: finders_inv_step finders_msr_decreases finders_progress)+

lemma new_finders_inv: "1 \<le> concurrency \<Longrightarrow> finders_inv works items concurrency (new_finders concurrency items)"
  by (auto simp: finders_inv_def new_finders_def pending_def undecided_def good_def)

lemma finders_outcome:
  "finders_inv works items concurrency s \<Longrightarrow> fd_main s = Returning r \<Longrightarrow> decision_ok works items r"
  by (simp add: finders_inv_def)


section \<open>Both phases end\<close>

text \<open>
  The two phases end.  With at least one worker, every schedule of the first phase stops after at
  most five steps for each item, one for each worker and two more, and one that cannot go on has
  collected the result of every item, each once.  Every schedule of the second phase stops after at
  most five steps for each item, one for each worker and four more, and one that cannot go on has
  returned: an item whose test succeeds, or nothing, and then all the tests fail.
\<close>

theorem two_phases_end:
  assumes "1 \<le> concurrency"
  shows "((worker_step test (length items) ^^ n) (new_workers concurrency items) s \<longrightarrow>
       n \<le> 5 * length items + concurrency + 2 \<and>
       ((\<nexists>t. worker_step test (length items) s t) \<longrightarrow>
          workers_final s \<and> mset (wk_results s) = mset (map test items))) \<and>
    ((finder_step works (length items) ^^ n) (new_finders concurrency items) f \<longrightarrow>
       n \<le> 5 * length items + concurrency + 4 \<and>
       ((\<nexists>t. finder_step works (length items) f t) \<longrightarrow>
          (\<exists>r. fd_main f = Returning r \<and>
             (case r of Some x \<Rightarrow> x \<in> set items \<and> works x | None \<Rightarrow> \<forall>x \<in> set items. \<not> works x))))"
proof (intro conjI impI)
  assume run: "(worker_step test (length items) ^^ n) (new_workers concurrency items) s"
  note inv = new_workers_inv [OF assms, of test items]
  note stuck = worker_pool.stuck_final [OF inv relpowp_imp_rtranclp [OF run]]
  show "n \<le> 5 * length items + concurrency + 2"
    using worker_pool.run_bounded [OF inv run] by (simp add: workers_msr_def new_workers_def sum_list_replicate)
  show "workers_final s" if "\<nexists>t. worker_step test (length items) s t" using stuck that by blast
  show "mset (wk_results s) = mset (map test items)" if "\<nexists>t. worker_step test (length items) s t"
    using stuck that workers_results by blast
next
  assume run: "(finder_step works (length items) ^^ n) (new_finders concurrency items) f"
  note inv = new_finders_inv [OF assms, of works items]
  show "n \<le> 5 * length items + concurrency + 4"
    using finder_pool.run_bounded [OF inv run] by (simp add: finders_msr_def new_finders_def sum_list_replicate)
  assume "\<nexists>t. finder_step works (length items) f t"
  then have "finders_inv works items concurrency f" "finders_final f"
    using finder_pool.stuck_final [OF inv relpowp_imp_rtranclp [OF run]] by blast+
  then show "\<exists>r. fd_main f = Returning r \<and>
      (case r of Some x \<Rightarrow> x \<in> set items \<and> works x | None \<Rightarrow> \<forall>x \<in> set items. \<not> works x)"
    using finders_outcome [of works items concurrency f]
    by (auto simp: finders_final_def decision_ok_def good_def split: option.splits)
qed

theorem two_phases_end_witness:
  "\<exists>n s. (finder_step (\<lambda>x. x > 2) 3 ^^ n) (new_finders 2 [1, 2, 3 :: nat]) s \<and> n \<le> 21 \<and>
     fd_main s = Returning (Some 3)"
proof -
  have inv: "finders_inv (\<lambda>x. x > 2) [1, 2, 3 :: nat] 2 (new_finders 2 [1, 2, 3 :: nat])"
    by (rule new_finders_inv) simp
  have len: "length [1, 2, 3 :: nat] = 3" by simp
  from finder_pool.reaches_final [OF inv] obtain s n where
    s: "(finder_step (\<lambda>x. x > 2) 3 ^^ n) (new_finders 2 [1, 2, 3 :: nat]) s" "finders_final s"
    "finders_inv (\<lambda>x. x > 2) [1, 2, 3 :: nat] 2 s"
    unfolding len by (auto simp: rtranclp_power)
  obtain r where r: "fd_main s = Returning r" using s(2) by (auto simp: finders_final_def)
  then have "decision_ok (\<lambda>x. x > 2) [1, 2, 3 :: nat] r" using finders_outcome s(3) by blast
  then have "r = Some 3" by (auto simp: decision_ok_def good_def split: option.splits)
  moreover have "n \<le> 5 * length [1, 2, 3 :: nat] + 2 + 4"
    using two_phases_end [where concurrency = 2 and items = "[1, 2, 3 :: nat]" and n = n and works = "\<lambda>x. x > 2" and f = s] s(1) unfolding len by auto
  ultimately show ?thesis using s(1) r by auto
qed

end
