(* ===== verification/MobileResolvers.thy ===== *)
theory MobileResolvers
  imports Mobile WorkerPool
begin

text \<open>
  The resolver tests of the library for mobile applications (\<open>src/dnstt-client/mobile/mobile.go\<close>):
  \<open>TestResolvers\<close>, \<open>TestResolversWithTunnel\<close>, the two-phase search and the sequential one.  The
  network, the random bytes and the results of \<open>createTunnel\<close> are parameters, as in the tests that
  the desktop client runs.
\<close>

section \<open>Arguments\<close>

text \<open>The lines of the argument \<open>resolvers\<close>.\<close>

definition resolver_list :: "(bytes \<Rightarrow> bytes) \<Rightarrow> bytes \<Rightarrow> bytes list" where
  "resolver_list uniTrim resolvers = resolver_lines uniTrim (splitOn 10 resolvers)"

text \<open>
  A time in milliseconds becomes a \<open>time.Duration\<close>; one below the least allowed value becomes the
  default.  A concurrency below one becomes its default, too.
\<close>

definition timeout_or :: "int \<Rightarrow> int \<Rightarrow> int \<Rightarrow> int" where
  "timeout_or least standard timeoutMs =
     (let timeout = duration_ms timeoutMs in if timeout < least * ms then standard * ms else timeout)"

definition positive_or :: "int \<Rightarrow> int \<Rightarrow> nat" where
  "positive_or standard n = nat (if n < 1 then standard else n)"

lemma positive_or_ge: "1 \<le> standard \<Longrightarrow> Suc 0 \<le> positive_or standard n"
  by (auto simp: positive_or_def)

section \<open>Lists of resolvers\<close>

record ResolverResult =
  rr_resolver :: bytes
  rr_success :: bool
  rr_latencyMs :: int
  rr_errorMsg :: "test_error option"

text \<open>A list, or \<open>nil\<close>.\<close>

type_synonym ResolverList = "ResolverResult list option"

definition list_Size :: "ResolverList \<Rightarrow> nat" where
  "list_Size l = (case l of None \<Rightarrow> 0 | Some rs \<Rightarrow> length rs)"

definition list_Get :: "ResolverList \<Rightarrow> int \<Rightarrow> ResolverResult option" where
  "list_Get l index =
     (case l of
        None \<Rightarrow> None
      | Some rs \<Rightarrow> if index < 0 \<or> index \<ge> int (length rs) then None else Some (rs ! nat index))"

definition list_GetBest :: "ResolverList \<Rightarrow> ResolverResult option" where
  "list_GetBest l = (case l of None \<Rightarrow> None | Some rs \<Rightarrow> find rr_success rs)"

section \<open>TestResolvers\<close>

text \<open>The order of the results: successes first, then by latency.\<close>

definition result_less :: "ResolverResult \<Rightarrow> ResolverResult \<Rightarrow> bool" where
  "result_less a b =
     (if rr_success a \<noteq> rr_success b then rr_success a else rr_latencyMs a < rr_latencyMs b)"

text \<open>\<open>time.Duration.Milliseconds\<close>\<close>

definition to_ms :: "int \<Rightarrow> int" where
  "to_ms d = quo d ms"

definition mobile_result :: "bytes \<Rightarrow> ResolverTestResult \<Rightarrow> ResolverResult" where
  "mobile_result res libResult =
     \<lparr>rr_resolver = res, rr_success = rt_Success libResult, rr_latencyMs = to_ms (rt_Latency libResult),
      rr_errorMsg = rt_Error libResult\<rparr>"

definition mobile_test :: "dns_net \<Rightarrow> int \<Rightarrow> Name \<Rightarrow> bytes \<times> bytes \<Rightarrow> err + ResolverResult" where
  "mobile_test net timeout domain = (\<lambda>(res, rand).
     map_sum id (mobile_result res) (TestDNSResolver net timeout domain (res, rand)))"

definition sorted_results :: "ResolverResult list \<Rightarrow> ResolverResult list \<Rightarrow> bool" where
  "sorted_results xs ys \<longleftrightarrow> mset ys = mset xs \<and> sorted_wrt (\<lambda>a b. \<not> result_less b a) ys"

inductive TestResolvers ::
  "dns_net \<Rightarrow> (bytes \<Rightarrow> bytes) \<Rightarrow> bytes \<Rightarrow> bytes \<Rightarrow> int \<Rightarrow> int \<Rightarrow> err + ResolverResult list \<Rightarrow> bool"
  for net uniTrim resolvers domain timeoutMs concurrency where
  empty_list: "resolver_list uniTrim resolvers = [] \<Longrightarrow>
     TestResolvers net uniTrim resolvers domain timeoutMs concurrency (Inr [])"
| invalid_domain: "resolver_list uniTrim resolvers \<noteq> [] \<Longrightarrow> ParseName domain = Inl e \<Longrightarrow>
     TestResolvers net uniTrim resolvers domain timeoutMs concurrency (Inr [])"
| a_test_panics: "resolver_list uniTrim resolvers = lines \<Longrightarrow> lines \<noteq> [] \<Longrightarrow> ParseName domain = Inr domainName \<Longrightarrow>
     length rands = length lines \<Longrightarrow> \<forall>r \<in> set rands. length r = 8 \<Longrightarrow>
     (pool_step (mobile_test net (timeout_or 500 2000 timeoutMs) domainName) (zip lines rands)
        (positive_or 50 concurrency))\<^sup>*\<^sup>* (new_pool (length lines)) s \<Longrightarrow>
     Sending (Inl Panic) \<in> set (pl_gs s) \<Longrightarrow>
     TestResolvers net uniTrim resolvers domain timeoutMs concurrency (Inl Panic)"
| all_tested: "resolver_list uniTrim resolvers = lines \<Longrightarrow> lines \<noteq> [] \<Longrightarrow> ParseName domain = Inr domainName \<Longrightarrow>
     length rands = length lines \<Longrightarrow> \<forall>r \<in> set rands. length r = 8 \<Longrightarrow>
     (pool_step (mobile_test net (timeout_or 500 2000 timeoutMs) domainName) (zip lines rands)
        (positive_or 50 concurrency))\<^sup>*\<^sup>* (new_pool (length lines)) s \<Longrightarrow>
     pool_final s \<Longrightarrow> pl_results s = map Inr results \<Longrightarrow> sorted_results results out \<Longrightarrow>
     TestResolvers net uniTrim resolvers domain timeoutMs concurrency (Inr out)"

section \<open>TestResolversWithTunnel\<close>

text \<open>
  The loop: at most 20 tunnel tests, none for latencies above 500 ms.  \<open>works k\<close> is whether test
  number \<open>k\<close> succeeds.
\<close>

fun first_tunnel :: "(nat \<Rightarrow> bytes \<Rightarrow> bool) \<Rightarrow> nat \<Rightarrow> ResolverResult list \<Rightarrow> bytes" where
  "first_tunnel works testedCount [] = []"
| "first_tunnel works testedCount (r # rs) =
     (if testedCount \<ge> 20 then []
      else if \<not> rr_success r then first_tunnel works testedCount rs
      else if rr_latencyMs r > 500 then first_tunnel works testedCount rs
      else if works testedCount (rr_resolver r) then rr_resolver r
      else first_tunnel works (Suc testedCount) rs)"

text \<open>The results of \<open>createTunnel\<close> over UDP: for a number of the test, fingerprint and key.\<close>

record tunnel_tests =
  tu_casemap :: casemap
  tu_rand :: "u64 \<Rightarrow> u64"
  tu_create :: "nat \<Rightarrow> string option \<Rightarrow> bytes \<Rightarrow> Name \<Rightarrow> int \<Rightarrow> bytes \<Rightarrow> int \<times> (err + Tunnel)"

definition tunnel_test :: "tunnel_tests \<Rightarrow> string option \<Rightarrow> bytes \<Rightarrow> bytes \<Rightarrow> int \<Rightarrow> nat \<Rightarrow> bytes \<Rightarrow> bool" where
  "tunnel_test tests utlsID pubkey domain timeout k resolver \<longleftrightarrow>
     TestTunnelConnection (tu_create tests k utlsID pubkey) resolver domain timeout = None"

definition chrome :: bytes where "chrome = map of_char ''Chrome''"

text \<open>An error gives the empty text; only a panic passes.\<close>

definition with_key_and_fingerprint ::
  "tunnel_tests \<Rightarrow> bytes \<Rightarrow> (bytes \<Rightarrow> string option \<Rightarrow> err + bytes) \<Rightarrow> err + bytes" where
  "with_key_and_fingerprint tests pubkeyHex k =
     (case DecodeKey pubkeyHex of
        Inl _ \<Rightarrow> Inr []
      | Inr pubkey \<Rightarrow>
          (case SampleUTLSDistribution (tu_casemap tests) (tu_rand tests) chrome of
             Inl e \<Rightarrow> if e = Panic then Inl Panic else Inr []
           | Inr utlsID \<Rightarrow> k pubkey utlsID))"

definition tunnel_stage :: "tunnel_tests \<Rightarrow> bytes \<Rightarrow> bytes \<Rightarrow> int \<Rightarrow> ResolverResult list \<Rightarrow> err + bytes" where
  "tunnel_stage tests domain pubkeyHex timeoutMs results =
     (if list_Size (Some results) = 0 then Inr []
      else with_key_and_fingerprint tests pubkeyHex (\<lambda>pubkey utlsID.
             Inr (first_tunnel (tunnel_test tests utlsID pubkey domain (timeout_or 2000 5000 timeoutMs)) 0 results)))"

inductive TestResolversWithTunnel ::
  "dns_net \<Rightarrow> tunnel_tests \<Rightarrow> (bytes \<Rightarrow> bytes) \<Rightarrow> bytes \<Rightarrow> bytes \<Rightarrow> bytes \<Rightarrow> int \<Rightarrow> int \<Rightarrow> err + bytes \<Rightarrow> bool"
  for net tests uniTrim resolvers domain pubkeyHex timeoutMs concurrency where
  "TestResolvers net uniTrim resolvers domain timeoutMs concurrency r \<Longrightarrow>
   TestResolversWithTunnel net tests uniTrim resolvers domain pubkeyHex timeoutMs concurrency
     (bindE r (tunnel_stage tests domain pubkeyHex timeoutMs))"

section \<open>FindFirstWorkingResolver\<close>

text \<open>A DNS test and then a tunnel test for each resolver in turn.\<close>

fun first_working ::
  "(nat \<Rightarrow> bytes \<Rightarrow> err + ResolverTestResult) \<Rightarrow> (nat \<Rightarrow> bytes \<Rightarrow> bool) \<Rightarrow> nat \<Rightarrow> bytes list \<Rightarrow> err + bytes" where
  "first_working dns_test works i [] = Inr []"
| "first_working dns_test works i (resolver # rs) =
     bindE (dns_test i resolver) (\<lambda>result.
       if \<not> rt_Success result then first_working dns_test works (Suc i) rs
       else if \<not> works i (with_port resolver) then first_working dns_test works (Suc i) rs
       else Inr (with_port resolver))"

definition FindFirstWorkingResolver ::
  "dns_net \<Rightarrow> tunnel_tests \<Rightarrow> (nat \<Rightarrow> bytes) \<Rightarrow> (bytes \<Rightarrow> bytes) \<Rightarrow> bytes \<Rightarrow> bytes \<Rightarrow> bytes \<Rightarrow> int \<Rightarrow> err + bytes" where
  "FindFirstWorkingResolver net tests rands uniTrim resolvers domain pubkeyHex timeoutMs =
     (let lines = resolver_list uniTrim resolvers
      in if lines = [] then Inr []
         else case ParseName domain of
             Inl _ \<Rightarrow> Inr []
           | Inr domainName \<Rightarrow>
               with_key_and_fingerprint tests pubkeyHex (\<lambda>pubkey utlsID.
                 let timeout = timeout_or 1000 3000 timeoutMs
                 in first_working (\<lambda>i r. TestDNSResolver net timeout domainName (r, rands i))
                      (tunnel_test tests utlsID pubkey domain timeout) 0 lines))"

section \<open>FindWorkingResolverTwoPhase\<close>

record TwoPhaseConfig =
  tc_phase1Concurrency :: int
  tc_phase1TimeoutMs :: int
  tc_phase2Concurrency :: int
  tc_phase2TimeoutMs :: int
  tc_phase2MaxToTest :: int
  tc_maxLatencyMs :: int

definition NewTwoPhaseConfig :: TwoPhaseConfig where
  "NewTwoPhaseConfig =
     \<lparr>tc_phase1Concurrency = 100, tc_phase1TimeoutMs = 2000, tc_phase2Concurrency = 20,
      tc_phase2TimeoutMs = 5000, tc_phase2MaxToTest = 30, tc_maxLatencyMs = 500\<rparr>"

datatype two_phase_setting =
    SetPhase1Concurrency int
  | SetPhase1TimeoutMs int
  | SetPhase2Concurrency int
  | SetPhase2TimeoutMs int
  | SetPhase2MaxToTest int
  | SetMaxLatencyMs int

fun set_two_phase :: "two_phase_setting \<Rightarrow> TwoPhaseConfig \<Rightarrow> TwoPhaseConfig" where
  "set_two_phase (SetPhase1Concurrency v) c = c\<lparr>tc_phase1Concurrency := v\<rparr>"
| "set_two_phase (SetPhase1TimeoutMs v) c = c\<lparr>tc_phase1TimeoutMs := v\<rparr>"
| "set_two_phase (SetPhase2Concurrency v) c = c\<lparr>tc_phase2Concurrency := v\<rparr>"
| "set_two_phase (SetPhase2TimeoutMs v) c = c\<lparr>tc_phase2TimeoutMs := v\<rparr>"
| "set_two_phase (SetPhase2MaxToTest v) c = c\<lparr>tc_phase2MaxToTest := v\<rparr>"
| "set_two_phase (SetMaxLatencyMs v) c = c\<lparr>tc_maxLatencyMs := v\<rparr>"

record dnsResult =
  dr_resolver :: bytes
  dr_latencyMs :: int
  dr_success :: bool

definition phase1_test :: "dns_net \<Rightarrow> int \<Rightarrow> Name \<Rightarrow> bytes \<times> bytes \<Rightarrow> err + dnsResult" where
  "phase1_test net timeout domain = (\<lambda>(res, rand).
     map_sum id (\<lambda>result. \<lparr>dr_resolver = res, dr_latencyMs = to_ms (rt_Latency result), dr_success = rt_Success result\<rparr>)
       (TestDNSResolver net timeout domain (res, rand)))"

definition sorted_phase1 :: "dnsResult list \<Rightarrow> dnsResult list \<Rightarrow> bool" where
  "sorted_phase1 xs ys \<longleftrightarrow> mset ys = mset xs \<and> sorted_wrt (\<lambda>a b. dr_latencyMs a \<le> dr_latencyMs b) ys"

text \<open>The first phase: the resolvers that pass, the fastest first.\<close>

inductive phase1 :: "dns_net \<Rightarrow> TwoPhaseConfig \<Rightarrow> Name \<Rightarrow> bytes list \<Rightarrow> err + dnsResult list \<Rightarrow> bool"
  for net config domainName lines where
  phase1_panics: "length rands = length lines \<Longrightarrow> \<forall>r \<in> set rands. length r = 8 \<Longrightarrow>
     (worker_step (phase1_test net (timeout_or 500 2000 (tc_phase1TimeoutMs config)) domainName) (length lines))\<^sup>*\<^sup>*
        (new_workers (positive_or 500 (tc_phase1Concurrency config)) (zip lines rands)) s \<Longrightarrow>
     WSending (Inl Panic) \<in> set (wk_ws s) \<Longrightarrow> phase1 net config domainName lines (Inl Panic)"
| phase1_done: "length rands = length lines \<Longrightarrow> \<forall>r \<in> set rands. length r = 8 \<Longrightarrow>
     (worker_step (phase1_test net (timeout_or 500 2000 (tc_phase1TimeoutMs config)) domainName) (length lines))\<^sup>*\<^sup>*
        (new_workers (positive_or 500 (tc_phase1Concurrency config)) (zip lines rands)) s \<Longrightarrow>
     workers_final s \<Longrightarrow> wk_results s = map Inr results \<Longrightarrow>
     sorted_phase1 (filter dr_success results) phase1Results \<Longrightarrow>
     phase1 net config domainName lines (Inr phase1Results)"

text \<open>The choice of the candidates: the loop, and what follows it when it has chosen none.\<close>

fun choose_fast :: "int \<Rightarrow> nat \<Rightarrow> dnsResult list \<Rightarrow> dnsResult list \<Rightarrow> dnsResult list" where
  "choose_fast maxLatency maxToTest cs [] = cs"
| "choose_fast maxLatency maxToTest cs (r # rs) =
     (if dr_latencyMs r \<le> maxLatency \<or> length cs = 0 then
        (if length (cs @ [r]) \<ge> maxToTest then cs @ [r] else choose_fast maxLatency maxToTest (cs @ [r]) rs)
      else choose_fast maxLatency maxToTest cs rs)"

definition phase2_candidates :: "TwoPhaseConfig \<Rightarrow> dnsResult list \<Rightarrow> dnsResult list" where
  "phase2_candidates config phase1Results =
     (let maxToTest = positive_or 30 (tc_phase2MaxToTest config);
          cs = choose_fast (tc_maxLatencyMs config) maxToTest [] phase1Results
      in if length cs = 0 \<and> length phase1Results > 0 then take maxToTest phase1Results else cs)"

text \<open>The second phase: a candidate with its number works if its tunnel test succeeds.\<close>

definition phase2_works :: "tunnel_tests \<Rightarrow> TwoPhaseConfig \<Rightarrow> bytes \<Rightarrow> bytes \<Rightarrow> nat \<times> dnsResult \<Rightarrow> bool" where
  "phase2_works tests config domain pubkey = (\<lambda>(i, c).
     tunnel_test tests None pubkey domain (timeout_or 2000 5000 (tc_phase2TimeoutMs config)) i
       (with_port (dr_resolver c)))"

text \<open>The caller takes no notice of an empty text from the channel, and \<open>with_port\<close> gives none.\<close>

inductive phase2 :: "tunnel_tests \<Rightarrow> TwoPhaseConfig \<Rightarrow> bytes \<Rightarrow> bytes \<Rightarrow> dnsResult list \<Rightarrow> bytes \<Rightarrow> bool"
  for tests config domain pubkey cs where
  "(finder_step (phase2_works tests config domain pubkey) (length cs))\<^sup>*\<^sup>*
     (new_finders (positive_or 30 (tc_phase2Concurrency config)) (enumerate 0 cs)) s \<Longrightarrow>
   fd_main s = Returning r \<Longrightarrow>
   phase2 tests config domain pubkey cs
     (case r of None \<Rightarrow> [] | Some (_, c) \<Rightarrow> with_port (dr_resolver c))"

text \<open>The inputs, if they are all usable.\<close>

definition two_phase_inputs :: "(bytes \<Rightarrow> bytes) \<Rightarrow> bytes \<Rightarrow> bytes \<Rightarrow> bytes \<Rightarrow> (bytes list \<times> Name \<times> bytes) option" where
  "two_phase_inputs uniTrim resolvers domain pubkeyHex =
     (let lines = resolver_list uniTrim resolvers
      in if lines = [] then None
         else case ParseName domain of
             Inl _ \<Rightarrow> None
           | Inr domainName \<Rightarrow>
               (case DecodeKey pubkeyHex of Inl _ \<Rightarrow> None | Inr pubkey \<Rightarrow> Some (lines, domainName, pubkey)))"

text \<open>A configuration of \<open>nil\<close> stands for the default.\<close>

definition config_or_default :: "TwoPhaseConfig option \<Rightarrow> TwoPhaseConfig" where
  "config_or_default config = (case config of None \<Rightarrow> NewTwoPhaseConfig | Some c \<Rightarrow> c)"

inductive FindWorkingResolverTwoPhase ::
  "dns_net \<Rightarrow> tunnel_tests \<Rightarrow> (bytes \<Rightarrow> bytes) \<Rightarrow> bytes \<Rightarrow> bytes \<Rightarrow> bytes \<Rightarrow> TwoPhaseConfig option \<Rightarrow>
     err + bytes \<Rightarrow> bool"
  for net tests uniTrim resolvers domain pubkeyHex config where
  unusable: "two_phase_inputs uniTrim resolvers domain pubkeyHex = None \<Longrightarrow>
     FindWorkingResolverTwoPhase net tests uniTrim resolvers domain pubkeyHex config (Inr [])"
| panics: "two_phase_inputs uniTrim resolvers domain pubkeyHex = Some (lines, domainName, pubkey) \<Longrightarrow>
     phase1 net (config_or_default config) domainName lines (Inl e) \<Longrightarrow>
     FindWorkingResolverTwoPhase net tests uniTrim resolvers domain pubkeyHex config (Inl e)"
| none_passed: "two_phase_inputs uniTrim resolvers domain pubkeyHex = Some (lines, domainName, pubkey) \<Longrightarrow>
     phase1 net (config_or_default config) domainName lines (Inr []) \<Longrightarrow>
     FindWorkingResolverTwoPhase net tests uniTrim resolvers domain pubkeyHex config (Inr [])"
| verified: "two_phase_inputs uniTrim resolvers domain pubkeyHex = Some (lines, domainName, pubkey) \<Longrightarrow>
     phase1 net (config_or_default config) domainName lines (Inr phase1Results) \<Longrightarrow> phase1Results \<noteq> [] \<Longrightarrow>
     phase2 tests (config_or_default config) domain pubkey
       (phase2_candidates (config_or_default config) phase1Results) result \<Longrightarrow>
     FindWorkingResolverTwoPhase net tests uniTrim resolvers domain pubkeyHex config (Inr result)"

section \<open>Properties of the tests\<close>

lemma all_Inr: "(\<And>x. x \<in> set xs \<Longrightarrow> \<exists>y. f x = Inr y) \<Longrightarrow> \<exists>ys. map f xs = map Inr ys"
proof (induction xs)
  case (Cons x xs)
  then obtain y ys where "f x = Inr y" "map f xs = map Inr ys" by (metis list.set_intros)
  then have "map f (x # xs) = map Inr (y # ys)" by simp
  then show ?case ..
qed simp

lemma map_Inr_inj: "map Inr xs = map Inr ys \<Longrightarrow> xs = ys"
  by (metis inj_map_eq_map inj_Inr)

text \<open>No test panics when the domain has been parsed.\<close>

lemma ParseName_labels: "ParseName domain = Inr domainName \<Longrightarrow> list_all valid_label domainName"
  by (auto simp: ParseName_def NewName_eq_Inr valid_name_def Let_def split: if_splits)

lemma test_Inr:
  assumes "ParseName domain = Inr domainName" and "x \<in> set (zip lines rands)" and "\<forall>r \<in> set rands. length r = 8"
  shows "\<exists>y. TestDNSResolver net timeout domainName x = Inr y"
proof -
  have "snd x \<in> set rands" using assms(2) set_zip_rightD [of "fst x" "snd x"] by simp
  then have "8 \<le> length (snd x)" using assms(3) by simp
  from TestDNSResolver_Inr [OF ParseName_labels [OF assms(1)] this] show ?thesis .
qed

lemma mobile_tests_Inr:
  assumes "ParseName domain = Inr domainName" and "\<forall>r \<in> set rands. length r = 8"
  shows "\<exists>results. map (mobile_test net timeout domainName) (zip lines rands) = map Inr results"
  using test_Inr [OF assms(1) _ assms(2), of _ lines net timeout]
  by (intro all_Inr) (fastforce simp: mobile_test_def)

lemma phase1_tests_Inr:
  assumes "ParseName domain = Inr domainName" and "\<forall>r \<in> set rands. length r = 8"
  shows "\<exists>results. map (phase1_test net timeout domainName) (zip lines rands) = map Inr results"
  using test_Inr [OF assms(1) _ assms(2), of _ lines net timeout]
  by (intro all_Inr) (fastforce simp: phase1_test_def)

lemma mset_map_Inr: "mset xs = mset (map Inr ys) \<Longrightarrow> \<exists>zs. xs = map Inr zs \<and> mset zs = mset ys"
proof -
  assume e: "mset xs = mset (map Inr ys)"
  have "\<exists>y. x = Inr y" if "x \<in> set xs" for x
  proof -
    have "x \<in> set (map Inr ys)" using e that by (metis set_mset_mset)
    then show ?thesis by auto
  qed
  then obtain zs where zs: "xs = map Inr zs" using all_Inr [of xs "\<lambda>x. x"] by auto
  have "mset zs = mset ys" using arg_cong [OF e, of "image_mset projr"] by (simp add: zs multiset.map_comp comp_def)
  with zs show ?thesis by blast
qed

text \<open>The order is one that \<open>sort.Slice\<close> can sort by.\<close>

lemma sorted_results_exists: "\<exists>ys. sorted_results xs ys"
proof -
  let ?p = "sort_key rr_latencyMs (filter rr_success xs)" and ?n = "sort_key rr_latencyMs (filter (\<lambda>r. \<not> rr_success r) xs)"
  have s: "sorted_wrt (\<lambda>a b. rr_latencyMs a \<le> rr_latencyMs b) (sort_key rr_latencyMs zs)" for zs
    using sorted_sort_key [of rr_latencyMs zs] by (simp add: sorted_map)
  have "sorted_wrt (\<lambda>a b. \<not> result_less b a) ?p" "sorted_wrt (\<lambda>a b. \<not> result_less b a) ?n"
    by (rule sorted_wrt_mono_rel [OF _ s]; auto simp: result_less_def)+
  then have "sorted_wrt (\<lambda>a b. \<not> result_less b a) (?p @ ?n)" by (auto simp: sorted_wrt_append result_less_def)
  moreover have "mset (?p @ ?n) = mset xs" by simp
  ultimately show ?thesis unfolding sorted_results_def by blast
qed

lemma sorted_phase1_exists: "\<exists>ys. sorted_phase1 xs ys"
proof -
  have "sorted_phase1 xs (sort_key dr_latencyMs xs)"
    unfolding sorted_phase1_def using sorted_sort_key [of dr_latencyMs xs] by (simp add: sorted_map)
  then show ?thesis ..
qed

text \<open>The best result of a sorted list is the fastest success.\<close>

definition is_best :: "ResolverResult list \<Rightarrow> ResolverResult option \<Rightarrow> bool" where
  "is_best rs best \<longleftrightarrow>
     (case best of
        None \<Rightarrow> \<forall>r \<in> set rs. \<not> rr_success r
      | Some b \<Rightarrow> b \<in> set rs \<and> rr_success b \<and> (\<forall>r \<in> set rs. rr_success r \<longrightarrow> rr_latencyMs b \<le> rr_latencyMs r))"

lemma GetBest_is_best:
  "sorted_wrt (\<lambda>a b. \<not> result_less b a) rs \<Longrightarrow> is_best rs (list_GetBest (Some rs))"
proof (induction rs)
  case (Cons r rs)
  show ?case
  proof (cases "rr_success r")
    case True
    have "rr_latencyMs r \<le> rr_latencyMs s" if "s \<in> set rs" "rr_success s" for s
    proof -
      have "\<not> result_less s r" using Cons.prems that(1) by simp
      with True that(2) show ?thesis by (simp add: result_less_def)
    qed
    with True show ?thesis by (simp add: list_GetBest_def is_best_def)
  next
    case False
    with Cons show ?thesis by (simp add: list_GetBest_def is_best_def split: option.splits)
  qed
qed (simp add: list_GetBest_def is_best_def)

lemma TestResolvers_result:
  assumes "TestResolvers net uniTrim resolvers domain timeoutMs concurrency r"
  shows "\<exists>out. r = Inr out \<and> sorted_wrt (\<lambda>a b. \<not> result_less b a) out \<and>
     (case ParseName domain of
        Inl _ \<Rightarrow> out = []
      | Inr domainName \<Rightarrow> \<exists>rands results.
          length rands = length (resolver_list uniTrim resolvers) \<and>
          map (mobile_test net (timeout_or 500 2000 timeoutMs) domainName)
            (zip (resolver_list uniTrim resolvers) rands) = map Inr results \<and> mset out = mset results)"
  using assms
proof cases
  case empty_list
  then show ?thesis by (auto split: sum.splits)
next
  case (a_test_panics lines domainName rands s)
  let ?test = "mobile_test net (timeout_or 500 2000 timeoutMs) domainName" and ?n = "positive_or 50 concurrency"
  obtain results where "map ?test (zip lines rands) = map Inr results"
    using mobile_tests_Inr a_test_panics(4,6) by blast
  moreover have "pool_inv ?test (zip lines rands) ?n (new_pool (length lines))"
    using new_pool_inv [of ?n ?test "zip lines rands"] positive_or_ge a_test_panics(5) by simp
  then have "pool_inv ?test (zip lines rands) ?n s" using resolver_pool.steps_inv a_test_panics(7) by blast
  ultimately have "Inl Panic \<in> set (map Inr results :: (err + ResolverResult) list)"
    using pool_sending a_test_panics(8) by metis
  then show ?thesis by auto
next
  case (all_tested lines domainName rands s results out)
  let ?test = "mobile_test net (timeout_or 500 2000 timeoutMs) domainName" and ?n = "positive_or 50 concurrency"
  obtain all where all: "map ?test (zip lines rands) = map Inr all"
    using mobile_tests_Inr all_tested(4,6) by blast
  have len: "length lines = length (zip lines rands)" using all_tested(5) by simp
  have inv: "pool_inv ?test (zip lines rands) ?n (new_pool (length (zip lines rands)))"
    by (rule new_pool_inv) (simp add: positive_or_ge)
  have "mset (map Inr results :: (err + ResolverResult) list) = mset (map Inr all)"
    using pool_results [OF inv all_tested(7) [unfolded len]] all_tested(8,9) unfolding all by simp
  then have "mset results = mset all" using mset_map_Inr [of "map Inr results" all] map_Inr_inj by metis
  then have "sorted_wrt (\<lambda>a b. \<not> result_less b a) out \<and> mset out = mset all"
    using all_tested(10) by (simp add: sorted_results_def)
  then show ?thesis unfolding all_tested(1,2,4) sum.case using all all_tested(5) by blast
qed auto


section \<open>The candidates of the second phase\<close>

lemma choose_fast_take:
  assumes "cs \<noteq> []" and "length cs < maxToTest"
  shows "choose_fast maxLatency maxToTest cs rs =
     take maxToTest (cs @ filter (\<lambda>r. dr_latencyMs r \<le> maxLatency) rs)"
  using assms
proof (induction maxLatency maxToTest cs rs rule: choose_fast.induct)
  case (2 maxLatency maxToTest cs r rs)
  show ?case
  proof (cases "dr_latencyMs r \<le> maxLatency")
    case True
    show ?thesis
    proof (cases "length (cs @ [r]) \<ge> maxToTest")
      case full: True
      with 2(4) have "maxToTest = Suc (length cs)" by simp
      with True show ?thesis by simp
    next
      case False
      with 2 True show ?thesis by simp
    qed
  next
    case False
    with 2 show ?thesis by simp
  qed
qed simp

text \<open>
  The candidates.  Of the resolvers that passed the first phase the first is always a candidate;
  the others are those within the limit of the latency, in their order, up to the maximal number.  So
  the fallback for the case that there are no candidates is never used: when even the fastest resolver
  is above the limit, it is tried alone, and not the first few as the comment on the fallback says.
\<close>

theorem phase2_candidates_exact:
  assumes "rs \<noteq> []"
  shows "phase2_candidates config rs =
       take (positive_or 30 (tc_phase2MaxToTest config))
         (hd rs # filter (\<lambda>r. dr_latencyMs r \<le> tc_maxLatencyMs config) (tl rs)) \<and>
     (sorted_wrt (\<lambda>a b. dr_latencyMs a \<le> dr_latencyMs b) rs \<and> dr_latencyMs (hd rs) > tc_maxLatencyMs config \<longrightarrow>
        phase2_candidates config rs = [hd rs])"
proof -
  obtain r rest where rs: "rs = r # rest" using assms by (cases rs) auto
  let ?n = "positive_or 30 (tc_phase2MaxToTest config)" and ?ok = "\<lambda>r. dr_latencyMs r \<le> tc_maxLatencyMs config"
  have n: "Suc 0 \<le> ?n" by (simp add: positive_or_ge)
  have main: "phase2_candidates config rs = take ?n (r # filter ?ok rest)"
  proof (cases "?n = 1")
    case True
    then show ?thesis by (simp add: phase2_candidates_def rs Let_def)
  next
    case False
    with n have "length [r] < ?n" by simp
    with choose_fast_take [of "[r]" ?n "tc_maxLatencyMs config" rest] have
      "choose_fast (tc_maxLatencyMs config) ?n [] rs = take ?n ([r] @ filter ?ok rest)"
      by (simp add: rs)
    moreover from \<open>length [r] < ?n\<close> have "take ?n ([r] @ filter ?ok rest) \<noteq> []" by simp
    ultimately show ?thesis by (simp add: phase2_candidates_def Let_def)
  qed
  moreover have "filter ?ok rest = []" if "sorted_wrt (\<lambda>a b. dr_latencyMs a \<le> dr_latencyMs b) rs" "\<not> ?ok r"
    using that by (fastforce simp: rs filter_empty_conv)
  ultimately show ?thesis using n by (auto simp: rs take_Cons split: nat.split)
qed

definition slow_results :: "dnsResult list" where
  "slow_results = [\<lparr>dr_resolver = [49], dr_latencyMs = 700, dr_success = True\<rparr>,
     \<lparr>dr_resolver = [50], dr_latencyMs = 800, dr_success = True\<rparr>]"

theorem phase2_candidates_exact_witness:
  "length slow_results = 2 \<and>
   phase2_candidates NewTwoPhaseConfig slow_results = [\<lparr>dr_resolver = [49], dr_latencyMs = 700, dr_success = True\<rparr>]"
proof -
  have "slow_results \<noteq> []" by (simp add: slow_results_def)
  from phase2_candidates_exact [OF this, of NewTwoPhaseConfig] show ?thesis
    by (simp add: slow_results_def NewTwoPhaseConfig_def positive_or_ge)
qed

section \<open>The outcome of the two-phase search\<close>

lemma phase1_result:
  assumes "ParseName domain = Inr domainName" and "phase1 net config domainName lines r"
  shows "\<exists>rands results passed. r = Inr passed \<and> length rands = length lines \<and>
     map (phase1_test net (timeout_or 500 2000 (tc_phase1TimeoutMs config)) domainName) (zip lines rands) =
       map Inr results \<and> sorted_phase1 (filter dr_success results) passed"
  using assms(2)
proof cases
  case (phase1_panics rands s)
  let ?test = "phase1_test net (timeout_or 500 2000 (tc_phase1TimeoutMs config)) domainName"
  let ?n = "positive_or 500 (tc_phase1Concurrency config)"
  obtain results where results: "map ?test (zip lines rands) = map Inr results"
    using phase1_tests_Inr assms(1) phase1_panics(3) by blast
  have len: "length lines = length (zip lines rands)" using phase1_panics(2) by simp
  have "workers_inv ?test (zip lines rands) ?n (new_workers ?n (zip lines rands))"
    by (rule new_workers_inv) (simp add: positive_or_ge)
  from worker_pool.steps_inv [OF phase1_panics(4) [unfolded len] this]
  have "accounted ?test s = mset (map Inr results)" by (simp add: workers_inv_def results)
  moreover have "Inl Panic \<in># sum_list (map (held ?test) (wk_ws s))"
    using phase1_panics(5) by (intro held_member) auto
  ultimately have "Inl Panic \<in> set (map Inr results :: (err + dnsResult) list)"
    by (metis set_mset_mset union_iff)
  then show ?thesis by auto
next
  case (phase1_done rands s results passed)
  let ?test = "phase1_test net (timeout_or 500 2000 (tc_phase1TimeoutMs config)) domainName"
  let ?n = "positive_or 500 (tc_phase1Concurrency config)"
  obtain all where all: "map ?test (zip lines rands) = map Inr all"
    using phase1_tests_Inr assms(1) phase1_done(3) by blast
  have len: "length lines = length (zip lines rands)" using phase1_done(2) by simp
  have "workers_inv ?test (zip lines rands) ?n (new_workers ?n (zip lines rands))"
    by (rule new_workers_inv) (simp add: positive_or_ge)
  from worker_pool.steps_inv [OF phase1_done(4) [unfolded len] this]
  have inv: "workers_inv ?test (zip lines rands) ?n s" .
  have "mset (map Inr results :: (err + dnsResult) list) = mset (map Inr all)"
    using workers_results [OF inv phase1_done(5)] unfolding all phase1_done(6) .
  then have "mset results = mset all" using mset_map_Inr map_Inr_inj by metis
  then have "mset (filter dr_success results) = mset (filter dr_success all)" by simp
  with phase1_done(1,2,7) all show ?thesis unfolding sorted_phase1_def by metis
qed

lemma phase1_exists:
  assumes "ParseName domain = Inr domainName"
  shows "\<exists>passed. phase1 net config domainName lines (Inr passed)"
proof -
  let ?test = "phase1_test net (timeout_or 500 2000 (tc_phase1TimeoutMs config)) domainName"
  let ?n = "positive_or 500 (tc_phase1Concurrency config)"
  let ?rands = "replicate (length lines) (replicate 8 (0 :: byte))"
  have len: "length (zip lines ?rands) = length lines" by simp
  have "workers_inv ?test (zip lines ?rands) ?n (new_workers ?n (zip lines ?rands))"
    by (rule new_workers_inv) (simp add: positive_or_ge)
  from worker_pool.reaches_final [OF this] obtain s where
    s: "(worker_step ?test (length lines))\<^sup>*\<^sup>* (new_workers ?n (zip lines ?rands)) s"
    "workers_inv ?test (zip lines ?rands) ?n s" "workers_final s"
    unfolding len by blast
  obtain all where "map ?test (zip lines ?rands) = map Inr all"
    using phase1_tests_Inr [OF assms, of ?rands net "timeout_or 500 2000 (tc_phase1TimeoutMs config)" lines] by auto
  with workers_results [OF s(2,3)] have "mset (wk_results s) = mset (map Inr all)" by simp
  then obtain results where "wk_results s = map Inr results" using mset_map_Inr by blast
  moreover obtain passed where "sorted_phase1 (filter dr_success results) passed" using sorted_phase1_exists by blast
  ultimately show ?thesis using phase1_done [OF _ _ s(1,3)] by auto
qed

lemma with_port_nonempty [simp]: "with_port r \<noteq> []"
  by (cases r) (auto simp: with_port_def)

lemma phase2_result:
  assumes "phase2 tests config domain pubkey cs r"
  shows "if r = [] then \<forall>i<length cs. \<not> phase2_works tests config domain pubkey (i, cs ! i)
     else \<exists>i<length cs. phase2_works tests config domain pubkey (i, cs ! i) \<and> r = with_port (dr_resolver (cs ! i))"
  using assms
proof cases
  case (1 s d)
  let ?works = "phase2_works tests config domain pubkey" and ?n = "positive_or 30 (tc_phase2Concurrency config)"
  have len: "length cs = length (enumerate 0 cs)" by simp
  have "finders_inv ?works (enumerate 0 cs) ?n (new_finders ?n (enumerate 0 cs))"
    by (rule new_finders_inv) (simp add: positive_or_ge)
  from finder_pool.steps_inv [OF 1(2) [unfolded len] this]
  have ok: "decision_ok ?works (enumerate 0 cs) d" using 1(3) by (rule finders_outcome)
  show ?thesis
  proof (cases d)
    case None
    with ok 1(1) show ?thesis by (auto simp: decision_ok_def good_def in_set_enumerate_eq)
  next
    case (Some x)
    then obtain i c where "d = Some (i, c)" by (cases x) auto
    with ok 1(1) show ?thesis by (auto simp: decision_ok_def good_def in_set_enumerate_eq)
  qed
qed

lemma phase2_exists: "\<exists>r. phase2 tests config domain pubkey cs r"
proof -
  let ?works = "phase2_works tests config domain pubkey" and ?n = "positive_or 30 (tc_phase2Concurrency config)"
  have len: "length (enumerate 0 cs) = length cs" by simp
  have "finders_inv ?works (enumerate 0 cs) ?n (new_finders ?n (enumerate 0 cs))"
    by (rule new_finders_inv) (simp add: positive_or_ge)
  from finder_pool.reaches_final [OF this] obtain s where
    "(finder_step ?works (length cs))\<^sup>*\<^sup>* (new_finders ?n (enumerate 0 cs)) s" "finders_final s"
    unfolding len by blast
  then show ?thesis unfolding finders_final_def by (blast intro: phase2.intros)
qed

text \<open>The first phase gives the results of the resolvers that pass, the fastest first.\<close>

definition phase1_ok :: "dns_net \<Rightarrow> TwoPhaseConfig \<Rightarrow> Name \<Rightarrow> bytes list \<Rightarrow> dnsResult list \<Rightarrow> bool" where
  "phase1_ok net config domainName lines passed \<longleftrightarrow>
     (\<exists>rands results. length rands = length lines \<and>
        map (phase1_test net (timeout_or 500 2000 (tc_phase1TimeoutMs config)) domainName) (zip lines rands) =
          map Inr results \<and> sorted_phase1 (filter dr_success results) passed)"

lemma two_phase_inputs_domain:
  "two_phase_inputs uniTrim resolvers domain pubkeyHex = Some (lines, domainName, pubkey) \<Longrightarrow>
     ParseName domain = Inr domainName"
  by (auto simp: two_phase_inputs_def Let_def split: if_splits sum.splits)


section \<open>The sequential search\<close>

text \<open>What one resolver gives: nothing, its address, or a panic.\<close>

definition passes_both ::
  "(nat \<Rightarrow> bytes \<Rightarrow> err + ResolverTestResult) \<Rightarrow> (nat \<Rightarrow> bytes \<Rightarrow> bool) \<Rightarrow> nat \<Rightarrow> bytes \<Rightarrow> bool" where
  "passes_both dns_test works i resolver \<longleftrightarrow>
     (\<exists>result. dns_test i resolver = Inr result \<and> rt_Success result) \<and> works i (with_port resolver)"

lemma first_working_find:
  assumes "\<forall>j<length rs. \<exists>result. dns_test (i + j) (rs ! j) = Inr result"
  shows "first_working dns_test works i rs =
     Inr (case find (\<lambda>j. passes_both dns_test works (i + j) (rs ! j)) [0..<length rs] of
            None \<Rightarrow> [] | Some j \<Rightarrow> with_port (rs ! j))"
  using assms
proof (induction rs arbitrary: i)
  case (Cons r rs)
  have "dns_test (Suc i + j) (rs ! j) = dns_test (i + Suc j) ((r # rs) ! Suc j)" for j by simp
  then have tests: "\<forall>j<length rs. \<exists>result. dns_test (Suc i + j) (rs ! j) = Inr result"
    using Cons.prems by (metis Suc_less_eq length_Cons)
  obtain result where result: "dns_test i r = Inr result" using Cons.prems by force
  have upt: "[0..<length (r # rs)] = 0 # map Suc [0..<length rs]" by (simp add: upt_conv_Cons map_Suc_upt del: upt_Suc)
  have map: "find (\<lambda>j. passes_both dns_test works (i + j) ((r # rs) ! j)) (map Suc js) =
      map_option Suc (find (\<lambda>j. passes_both dns_test works (Suc i + j) (rs ! j)) js)" for js
    by (induction js) auto
  show ?case
  proof (cases "passes_both dns_test works i r")
    case True
    then show ?thesis unfolding upt using result by (auto simp: passes_both_def)
  next
    case False
    then have "first_working dns_test works i (r # rs) = first_working dns_test works (Suc i) rs"
      using result by (auto simp: passes_both_def)
    with False Cons.IH [OF tests] show ?thesis
      unfolding upt using map [of "[0..<length rs]"] by (auto split: option.splits)
  qed
qed simp

text \<open>
  The sequential search.  With usable inputs \<open>FindFirstWorkingResolver\<close> never panics, and its
  result is the address, with a port, of the first resolver of the list that passes the DNS test and
  whose tunnel test succeeds, or the empty text if there is none.
\<close>

theorem FindFirstWorkingResolver_first:
  assumes "ParseName domain = Inr domainName" and "DecodeKey pubkeyHex = Inr pubkey"
    and "SampleUTLSDistribution (tu_casemap tests) (tu_rand tests) chrome = Inr utlsID"
    and "\<forall>i. length (rands i) = 8" and "lines = resolver_list uniTrim resolvers"
    and "timeout = timeout_or 1000 3000 timeoutMs"
    and "ok = passes_both (\<lambda>i r. TestDNSResolver net timeout domainName (r, rands i))
               (tunnel_test tests utlsID pubkey domain timeout)"
  shows "FindFirstWorkingResolver net tests rands uniTrim resolvers domain pubkeyHex timeoutMs =
     Inr (case find (\<lambda>i. ok i (lines ! i)) [0..<length lines] of None \<Rightarrow> [] | Some i \<Rightarrow> with_port (lines ! i))"
proof -
  have "\<forall>j<length lines. \<exists>result. TestDNSResolver net timeout domainName (lines ! j, rands (0 + j)) = Inr result"
    using TestDNSResolver_Inr [OF ParseName_labels [OF assms(1)]] assms(4) by simp
  from first_working_find [of lines "\<lambda>i r. TestDNSResolver net timeout domainName (r, rands i)", OF this]
  show ?thesis
    using assms(1-3) unfolding assms(5-7) [symmetric]
    by (simp add: FindFirstWorkingResolver_def with_key_and_fingerprint_def Let_def assms(5) [symmetric]
        assms(6) [symmetric] assms(7))
qed

section \<open>Examples\<close>

text \<open>A network that no resolver can be reached over, and tunnels that always work.\<close>

definition no_net :: dns_net where
  "no_net = \<lparr>dn_Dial = \<lambda>_ _. False, dn_Write = \<lambda>_ _ _. True, dn_Read = \<lambda>_ _ _. None\<rparr>"

definition all_tunnels :: tunnel_tests where
  "all_tunnels = \<lparr>tu_casemap = \<lparr>uniLower = id, uniUpper = id\<rparr>, tu_rand = id,
     tu_create = \<lambda>_ _ _ _ _ _. (0, Inr (bare_tunnel 1))\<rparr>"

lemma unreachable: "TestDNSResolver no_net timeout domain (r, rand) = Inr ((new_result r)\<lparr>rt_Error := Some DialError\<rparr>)"
  by (simp add: TestDNSResolver_def no_net_def Let_def)

lemma example_inputs:
  "resolver_list id [57] = [[57]]" "ParseName [116] = Inr [[116]]"
  "DecodeKey (hex_encode (replicate 32 1)) = Inr (replicate 32 1)"
  by (simp_all add: resolver_list_def resolver_lines_def TrimSpace_def asciiSpace_def ParseName_def
      trimSuffixByte_def valid_name_def valid_label_def name_octets_def DecodeKey_def KeyLen_def)



end
