(* ===== verification/KeyFiles.thy ===== *)
theory KeyFiles
  imports Noise
begin

text \<open>
  The key files of the server (\<open>generateKeypair\<close> and \<open>readKeyFromFile\<close> of
  \<open>src/dnstt-server/main.go\<close>) over a file system that maps names to contents.  Which calls of the
  operating system succeed is a parameter, the record \<open>file_env\<close>.
\<close>

section \<open>Files\<close>

type_synonym file_system = "bytes \<Rightarrow> bytes option"

text \<open>
  \<open>fe_room name\<close> bounds the bytes that can be written to a file; \<open>fe_Generate\<close> is the key made by
  \<open>noise.GeneratePrivkey\<close>.
\<close>

record file_env =
  fe_Open :: "bytes \<Rightarrow> bool"
  fe_room :: "bytes \<Rightarrow> nat option"
  fe_Close :: "bytes \<Rightarrow> bool"
  fe_Remove :: "bytes \<Rightarrow> bool"
  fe_Generate :: "err + bytes"

text \<open>
  Writing from the start of a file leaves what lies behind the bytes written.  A file opened with
  \<open>O_CREATE\<close> keeps its contents; \<open>os.Create\<close> truncates it.
\<close>

definition overwrite :: "bytes \<Rightarrow> bytes \<Rightarrow> bytes" where
  "overwrite new old = new @ drop (length new) old"

definition open_contents :: "bool \<Rightarrow> bytes option \<Rightarrow> bytes" where
  "open_contents trunc old = (case old of None \<Rightarrow> [] | Some s \<Rightarrow> if trunc then [] else s)"

lemma open_contents_trunc [simp]: "open_contents True old = []"
  by (simp add: open_contents_def split: option.splits)

text \<open>
  Opening a file, writing a key to it and closing it: the error, and the file system; before the
  file has been opened it does not change.
\<close>

definition write_key_file ::
  "file_env \<Rightarrow> bool \<Rightarrow> bytes \<Rightarrow> bytes \<Rightarrow> file_system \<Rightarrow> err option \<times> file_system" where
  "write_key_file env trunc name key fs =
     (let (e, w) = WriteKey key \<lparr>w_out = [], w_room = fe_room env name\<rparr>;
          fs = fs(name \<mapsto> overwrite (w_out w) (open_contents trunc (fs name)))
      in (if e = None \<and> \<not> fe_Close env name then Some Errorf else e, fs))"

section \<open>generateKeypair\<close>

text \<open>The deferred function, which removes the files in \<open>toDelete\<close>.\<close>

fun remove_files ::
  "file_env \<Rightarrow> bytes list \<Rightarrow> err option \<Rightarrow> file_system \<Rightarrow> err option \<times> file_system" where
  "remove_files env [] e fs = (e, fs)"
| "remove_files env (name # names) e fs =
     (if fe_Remove env name then remove_files env names e (fs(name := None))
      else remove_files env names (if e = None then Some Errorf else e) fs)"

text \<open>
  The body: the error, the files to delete, and the file system.  An empty name stands for the
  standard output.
\<close>

definition save_key ::
  "file_env \<Rightarrow> bool \<Rightarrow> bytes \<Rightarrow> bytes \<Rightarrow> bytes list \<times> file_system \<Rightarrow>
     err option \<times> bytes list \<times> file_system" where
  "save_key env trunc name key = (\<lambda>(toDelete, fs).
     if name = [] then (None, toDelete, fs)
     else if \<not> fe_Open env name then (Some Errorf, toDelete, fs)
     else case write_key_file env trunc name key fs of (e, fs) \<Rightarrow> (e, toDelete @ [name], fs))"

definition keypair_body ::
  "('h, 'k) noise_lib \<Rightarrow> file_env \<Rightarrow> bytes \<Rightarrow> bytes \<Rightarrow> file_system \<Rightarrow>
     err option \<times> bytes list \<times> file_system" where
  "keypair_body lib env privkeyFilename pubkeyFilename fs =
     (case fe_Generate env of
        Inl e \<Rightarrow> (Some e, [], fs)
      | Inr privkey \<Rightarrow>
          (case PubkeyFromPrivkey lib privkey of
             Inl e \<Rightarrow> (Some e, [], fs)
           | Inr pubkey \<Rightarrow>
               (case save_key env False privkeyFilename privkey ([], fs) of
                  (Some e, toDelete, fs) \<Rightarrow> (Some e, toDelete, fs)
                | (None, toDelete, fs) \<Rightarrow>
                    (case save_key env True pubkeyFilename pubkey (toDelete, fs) of
                       (Some e, toDelete, fs) \<Rightarrow> (Some e, toDelete, fs)
                     | (None, _, fs) \<Rightarrow> (None, [], fs)))))"

definition generateKeypair ::
  "('h, 'k) noise_lib \<Rightarrow> file_env \<Rightarrow> bytes \<Rightarrow> bytes \<Rightarrow> file_system \<Rightarrow> err option \<times> file_system" where
  "generateKeypair lib env privkeyFilename pubkeyFilename fs =
     (case keypair_body lib env privkeyFilename pubkeyFilename fs of
        (e, toDelete, fs) \<Rightarrow> remove_files env toDelete e fs)"

definition readKeyFromFile :: "bytes \<Rightarrow> file_system \<Rightarrow> err + bytes" where
  "readKeyFromFile filename fs = (case fs filename of None \<Rightarrow> Inl Errorf | Some s \<Rightarrow> ReadKey s)"

section \<open>Lemmas\<close>

lemma write_key_file_ok:
  "write_key_file env trunc name key fs = (None, fs') \<Longrightarrow>
     fs' = fs(name \<mapsto> overwrite (hex_encode key @ [10]) (open_contents trunc (fs name)))"
  by (auto simp: write_key_file_def WriteKey_def split: prod.splits if_splits dest!: w_Write_ok)

lemma write_key_file_other: "write_key_file env trunc name key fs = (e, fs') \<Longrightarrow> n \<noteq> name \<Longrightarrow> fs' n = fs n"
  by (auto simp: write_key_file_def Let_def split: prod.splits if_splits)

lemma keypair_body_ok:
  assumes "keypair_body lib env p q fs = (None, toDelete, fs')" and "p \<noteq> []" and "q \<noteq> []" and "p \<noteq> q"
    and "fe_Generate env = Inr privkey" and "PubkeyFromPrivkey lib privkey = Inr pubkey"
  shows "toDelete = [] \<and> fs' = fs(p \<mapsto> overwrite (hex_encode privkey @ [10]) (open_contents False (fs p)),
     q \<mapsto> hex_encode pubkey @ [10])"
  using assms
  by (auto simp: keypair_body_def save_key_def overwrite_def open_contents_def
      dest!: write_key_file_ok split: prod.splits if_splits option.splits)

lemma generateKeypair_ok:
  assumes "generateKeypair lib env p q fs = (None, fs')" and "p \<noteq> []" and "q \<noteq> []" and "p \<noteq> q"
    and "fe_Generate env = Inr privkey" and "PubkeyFromPrivkey lib privkey = Inr pubkey"
  shows "fs' = fs(p \<mapsto> overwrite (hex_encode privkey @ [10]) (open_contents False (fs p)),
     q \<mapsto> hex_encode pubkey @ [10])"
proof -
  have keep: "e \<noteq> None \<Longrightarrow> fst (remove_files env names e fs) \<noteq> None" for e names fs
    by (induction env names e fs rule: remove_files.induct) auto
  obtain e toDelete fs1 where b: "keypair_body lib env p q fs = (e, toDelete, fs1)"
    by (cases "keypair_body lib env p q fs") auto
  have r: "remove_files env toDelete e fs1 = (None, fs')" using assms(1) b by (simp add: generateKeypair_def)
  have "e = None"
  proof (rule ccontr)
    assume "e \<noteq> None"
    from keep [OF this, of toDelete fs1] r show False by simp
  qed
  with keypair_body_ok [OF b [unfolded \<open>e = None\<close>] assms(2-6)] r show ?thesis by simp
qed

text \<open>A line that a longer file has behind it is not read as a key.\<close>

lemma overwritten_key:
  assumes "length key = KeyLen"
  shows "ReadKey (overwrite (hex_encode key @ [10]) old) = Inr key \<longleftrightarrow> length old \<le> 65"
proof
  assume "length old \<le> 65"
  then have "overwrite (hex_encode key @ [10]) old = hex_encode key @ [10]"
    using assms by (simp add: overwrite_def KeyLen_def)
  then show "ReadKey (overwrite (hex_encode key @ [10]) old) = Inr key"
    using assms by (auto simp: ReadKey_exact)
next
  assume "ReadKey (overwrite (hex_encode key @ [10]) old) = Inr key"
  then obtain t where t: "overwrite (hex_encode key @ [10]) old = t \<or> overwrite (hex_encode key @ [10]) old = t @ [10]"
    "hex_decode t = Inr key" by (auto simp: ReadKey_exact)
  then have "length (overwrite (hex_encode key @ [10]) old) \<le> 65"
    using hex_decode_length [OF t(2)] assms by (auto simp: KeyLen_def)
  then show "length old \<le> 65" using assms by (simp add: overwrite_def KeyLen_def)
qed

section \<open>Properties\<close>

text \<open>
  C28: The key files.  When \<open>generateKeypair\<close> reports no error, the public key is read back from its
  file, and the private key from its own exactly if that file did not exist or was not longer than a
  key's line (65 bytes): the private key file is opened without truncation, so a longer file keeps
  its end and is then refused by \<open>readKeyFromFile\<close>.  No other file changes.
\<close>

theorem keypair_files:
  assumes "generateKeypair lib env p q fs = (None, fs')" and "p \<noteq> []" and "q \<noteq> []" and "p \<noteq> q"
    and "fe_Generate env = Inr privkey" and "PubkeyFromPrivkey lib privkey = Inr pubkey"
    and "length privkey = KeyLen" and "length pubkey = KeyLen"
  shows "readKeyFromFile q fs' = Inr pubkey \<and>
     (readKeyFromFile p fs' = Inr privkey \<longleftrightarrow> (\<forall>old. fs p = Some old \<longrightarrow> length old \<le> 65)) \<and>
     (\<forall>name. name \<noteq> p \<longrightarrow> name \<noteq> q \<longrightarrow> fs' name = fs name)"
proof -
  note fs' = generateKeypair_ok [OF assms(1-6)]
  have "ReadKey (hex_encode pubkey @ [10]) = Inr pubkey" using assms(8) by (auto simp: ReadKey_exact)
  then have "readKeyFromFile q fs' = Inr pubkey" by (simp add: readKeyFromFile_def fs')
  moreover have "readKeyFromFile p fs' = Inr privkey \<longleftrightarrow> (\<forall>old. fs p = Some old \<longrightarrow> length old \<le> 65)"
    using assms(4,7) by (auto simp: readKeyFromFile_def fs' overwritten_key open_contents_def split: option.splits)
  ultimately show ?thesis by (simp add: fs')
qed

definition working_files :: file_env where
  "working_files = \<lparr>fe_Open = \<lambda>_. True, fe_room = \<lambda>_. None, fe_Close = \<lambda>_. True, fe_Remove = \<lambda>_. True,
     fe_Generate = Inr (replicate 32 1)\<rparr>"

lemma working_keypair:
  "generateKeypair counting_lib working_files [112] [113] fs =
     (None, fs([112] \<mapsto> overwrite (hex_encode (replicate 32 1) @ [10]) (open_contents False (fs [112])),
       [113] \<mapsto> hex_encode (replicate 32 1) @ [10]))"
  by (simp add: generateKeypair_def keypair_body_def save_key_def write_key_file_def WriteKey_def w_Write_def
      PubkeyFromPrivkey_def counting_lib_def working_files_def overwrite_def)

theorem keypair_files_witness:
  "\<exists>fs'. generateKeypair counting_lib working_files [112] [113] [[112] \<mapsto> replicate 100 7] = (None, fs') \<and>
     readKeyFromFile [113] fs' = Inr (replicate 32 1) \<and> readKeyFromFile [112] fs' \<noteq> Inr (replicate 32 1)"
proof -
  let ?fs = "[[112 :: byte] \<mapsto> replicate 100 (7 :: byte)]"
  have "PubkeyFromPrivkey counting_lib (replicate 32 1) = Inr (replicate 32 1)"
    by (simp add: PubkeyFromPrivkey_def counting_lib_def)
  from keypair_files [OF working_keypair [of ?fs] _ _ _ _ this]
  have "readKeyFromFile [113] (snd (generateKeypair counting_lib working_files [112] [113] ?fs)) = Inr (replicate 32 1)"
    "readKeyFromFile [112] (snd (generateKeypair counting_lib working_files [112] [113] ?fs)) \<noteq> Inr (replicate 32 1)"
    unfolding working_keypair by (simp_all add: working_files_def KeyLen_def)
  then show ?thesis by (metis prod.collapse fst_conv working_keypair)
qed

end
