(* ===== verification/ResolverFiles.thy ===== *)
theory ResolverFiles
  imports ResolverTest KeyFiles
begin

text \<open>
  The file of working resolvers that the client writes (\<open>SaveWorkingResolvers\<close> of
  \<open>src/dnstt-client/lib/resolver_tester.go\<close>), and that it can be used as the file to test again.
\<close>

section \<open>SaveWorkingResolvers\<close>

text \<open>One write for each resolver; the error of a write ends the loop.\<close>

fun write_resolvers :: "ResolverTestResult list \<Rightarrow> wire \<Rightarrow> err option \<times> wire" where
  "write_resolvers [] w = (None, w)"
| "write_resolvers (r # rs) w =
     (case w_Write (rt_Resolver r @ [10]) w of
        (Some e, w') \<Rightarrow> (Some e, w')
      | (None, w') \<Rightarrow> write_resolvers rs w')"

definition SaveWorkingResolvers ::
  "file_env \<Rightarrow> ResolverTestResult list \<Rightarrow> bytes \<Rightarrow> file_system \<Rightarrow> err option \<times> file_system" where
  "SaveWorkingResolvers env results filename fs =
     (if \<not> fe_Open env filename then (Some Errorf, fs)
      else case write_resolvers results \<lparr>w_out = [], w_room = fe_room env filename\<rparr> of
          (e, w) \<Rightarrow> (e, fs(filename \<mapsto> w_out w)))"

section \<open>Lines\<close>

definition saved_text :: "bytes list \<Rightarrow> bytes" where
  "saved_text names = concat (map (\<lambda>name. name @ [10]) names)"

lemma write_resolvers_ok:
  "write_resolvers rs w = (None, w') \<Longrightarrow> w_out w' = w_out w @ saved_text (map rt_Resolver rs)"
  by (induction rs arbitrary: w) (auto simp: saved_text_def dest!: w_Write_ok split: prod.splits option.splits)

lemma splitOn_saved: "\<forall>n \<in> set names. 10 \<notin> set n \<Longrightarrow> splitOn 10 (saved_text names) = names @ [[]]"
  by (induction names) (simp_all add: saved_text_def splitOn_append)

text \<open>A line that is read back as it is.\<close>

definition plain_line :: "(bytes \<Rightarrow> bytes) \<Rightarrow> bytes \<Rightarrow> bool" where
  "plain_line uniTrim l \<longleftrightarrow>
     l \<noteq> [] \<and> hd l \<noteq> 35 \<and> 10 \<notin> set l \<and> last l \<noteq> 13 \<and> length l < 65536 \<and> TrimSpace uniTrim l = l"

lemma read_saved:
  assumes "names \<noteq> []" and "\<forall>l \<in> set names. plain_line uniTrim l"
  shows "read_resolvers uniTrim (saved_text names) = Inr names"
proof -
  have trim: "map (trimSuffixByte 13) names = names" "map (TrimSpace uniTrim) names = names"
    using assms(2) by (auto simp: plain_line_def trimSuffixByte_def intro!: map_idI)
  have "splitOn 10 (saved_text names) = names @ [[]]"
    using assms(2) by (intro splitOn_saved) (simp add: plain_line_def)
  moreover have "\<not> (\<exists>l \<in> set names. 65536 \<le> length l)" using assms(2) by (auto simp: plain_line_def)
  ultimately have "scan_lines (saved_text names) = Inr names" by (simp add: scan_lines_def trim)
  moreover have "resolver_lines uniTrim names = names"
    using assms(2) by (simp add: resolver_lines_def trim filter_id_conv plain_line_def)
  ultimately show ?thesis using assms(1) by (simp add: read_resolvers_def)
qed

text \<open>Lines of ASCII text do not depend on the Unicode tables.\<close>

lemma trim_ascii:
  assumes "\<forall>b \<in> set s. b < 0x80"
  shows "TrimSpace uniTrim s = rev (dropWhile asciiSpace (rev (dropWhile asciiSpace s)))"
proof -
  have a: "\<not> 0x80 \<le> hd t" if "t \<noteq> []" "set t \<subseteq> set s" for t
    using assms that by (cases t) (auto simp: not_le)
  have sub: "set (dropWhile asciiSpace s) \<subseteq> set s" by (auto dest: set_dropWhileD)
  moreover have "set (dropWhile asciiSpace (rev (dropWhile asciiSpace s))) \<subseteq> set s"
    using sub by (auto dest!: set_dropWhileD)
  ultimately have "\<not> (dropWhile asciiSpace s \<noteq> [] \<and> 0x80 \<le> hd (dropWhile asciiSpace s))"
    "\<not> (dropWhile asciiSpace (rev (dropWhile asciiSpace s)) \<noteq> [] \<and>
        0x80 \<le> hd (dropWhile asciiSpace (rev (dropWhile asciiSpace s))))"
    using a by blast+
  then show ?thesis unfolding TrimSpace_def Let_def by (simp only: if_False)
qed

lemma dropWhile_hd: "dropWhile P xs = xs \<longleftrightarrow> xs = [] \<or> \<not> P (hd xs)"
  by (simp add: dropWhile_eq_self_iff)

lemma trim_trimmed:
  fixes s :: bytes
  defines "t \<equiv> rev (dropWhile asciiSpace (rev (dropWhile asciiSpace s)))"
  shows "t = [] \<or> \<not> asciiSpace (hd t) \<and> \<not> asciiSpace (last t)"
proof (cases "t = []")
  case False
  let ?d = "dropWhile asciiSpace s"
  have l: "last t = hd (dropWhile asciiSpace (rev ?d))" by (simp add: t_def last_rev)
  have "dropWhile asciiSpace (rev ?d) \<noteq> []" using False by (simp add: t_def)
  then have "\<not> asciiSpace (last t)" unfolding l by (rule hd_dropWhile)
  moreover have "hd t = hd ?d"
  proof -
    have "rev (dropWhile asciiSpace (rev ?d)) @ rev (takeWhile asciiSpace (rev ?d)) = ?d"
      by (metis rev_append rev_rev_ident takeWhile_dropWhile_id)
    then have e: "t @ rev (takeWhile asciiSpace (rev ?d)) = ?d" by (simp add: t_def)
    have "hd (t @ rev (takeWhile asciiSpace (rev ?d))) = hd t" using False by simp
    then show ?thesis unfolding e by simp
  qed
  moreover have "?d \<noteq> []"
  proof
    assume "?d = []"
    with False show False unfolding t_def by simp
  qed
  then have "\<not> asciiSpace (hd ?d)" by (rule hd_dropWhile)
  ultimately show ?thesis by simp
qed simp

lemma trim_plain:
  assumes "\<forall>b \<in> set s. b < 0x80" and "10 \<notin> set s" and "length s < 65536"
    and "t = TrimSpace uniTrim s" and "t \<noteq> []" and "hd t \<noteq> 35"
  shows "plain_line uniTrim t"
proof -
  have t: "t = rev (dropWhile asciiSpace (rev (dropWhile asciiSpace s)))" using trim_ascii assms(1,4) by simp
  have sub: "set t \<subseteq> set s" unfolding t by (auto dest!: set_dropWhileD)
  have "length (dropWhile asciiSpace (rev (dropWhile asciiSpace s))) \<le> length s"
    by (rule le_trans [OF length_dropWhile_le]) (simp add: length_dropWhile_le)
  then have len: "length t < 65536" using assms(3) by (simp add: t)
  have ends: "\<not> asciiSpace (hd t)" "\<not> asciiSpace (last t)" using trim_trimmed [of s] assms(5) unfolding t by blast+
  then have "dropWhile asciiSpace t = t" "dropWhile asciiSpace (rev t) = rev t"
    using assms(5) by (simp_all add: dropWhile_hd hd_rev)
  moreover have "\<forall>b \<in> set t. b < 0x80" using sub assms(1) by blast
  ultimately have "TrimSpace uniTrim t = t" by (simp add: trim_ascii)
  moreover have "last t \<noteq> 13" using ends(2) by (auto simp: asciiSpace_def)
  ultimately show ?thesis using assms(2,5,6) sub len by (auto simp: plain_line_def)
qed

lemma splitOn_pieces: "p \<in> set (splitOn c s) \<Longrightarrow> c \<notin> set p \<and> set p \<subseteq> set s"
  by (induction c s arbitrary: p rule: splitOn.induct) (fastforce split: list.splits if_splits)+

lemma read_resolvers_plain:
  assumes "\<forall>b \<in> set content. b < 0x80" and "read_resolvers uniTrim content = Inr resolvers"
  shows "\<forall>l \<in> set resolvers. plain_line uniTrim l"
proof
  fix l
  assume l: "l \<in> set resolvers"
  obtain ls where ls: "scan_lines content = Inr ls" "resolvers = resolver_lines uniTrim ls"
    using assms(2) by (auto simp: read_resolvers_def result_simps Let_def split: if_splits)
  obtain s where s: "s \<in> set ls" "l = TrimSpace uniTrim s" "l \<noteq> []" "hd l \<noteq> 35"
    using l ls(2) by (auto simp: resolver_lines_def)
  obtain p where p: "p \<in> set (splitOn 10 content)" "s = trimSuffixByte 13 p" "length p < 65536"
    using s(1) ls(1) in_set_butlastD [of _ "splitOn 10 content"]
    by (fastforce simp: scan_lines_def Let_def not_le split: if_splits)
  have "set s \<subseteq> set p" "length s \<le> length p" by (auto simp: p(2) trimSuffixByte_def dest: in_set_butlastD)
  then have "\<forall>b \<in> set s. b < 0x80" "10 \<notin> set s" "length s < 65536"
    using splitOn_pieces [OF p(1)] assms(1) p(3) by auto
  from trim_plain [OF this s(2-4)] show "plain_line uniTrim l" .
qed

section \<open>The round trip\<close>

lemma TestDNSResolver_resolver: "TestDNSResolver net timeout domain (r, rand) = Inr x \<Longrightarrow> rt_Resolver x = r"
  by (auto simp: TestDNSResolver_def new_result_def Let_def split: sum.splits if_splits option.splits)

lemma tested_names:
  assumes "map (TestDNSResolver net timeout domain) (zip resolvers rands) = map Inr results"
    and "x \<in> set results"
  shows "rt_Resolver x \<in> set resolvers"
proof -
  have "Inr x \<in> set (map (TestDNSResolver net timeout domain) (zip resolvers rands))" using assms by simp
  then obtain r rand where "(r, rand) \<in> set (zip resolvers rands)" "TestDNSResolver net timeout domain (r, rand) = Inr x"
    by auto
  then show ?thesis using TestDNSResolver_resolver set_zip_leftD by metis
qed

text \<open>
  C31: The file of working resolvers.  When the test of a file of ASCII text finds working resolvers
  and the client saves them without an error, the file that it writes is one that the client reads:
  as a file to test it gives exactly the working resolvers, in the order of their latency.
\<close>

theorem saved_resolvers_reread:
  assumes "1 \<le> concurrency" and "\<forall>b \<in> set content. b < 0x80"
    and "TestResolversFromFile net uniTrim (Some content) domain timeout concurrency (Inr out)" and "out \<noteq> []"
    and "SaveWorkingResolvers env out filename fs = (None, fs')"
  shows "\<exists>saved. fs' filename = Some saved \<and> read_resolvers uniTrim saved = Inr (map rt_Resolver out)"
proof -
  obtain domainName resolvers rands results where r:
    "before_tests uniTrim (Some content) domain = Inr (domainName, resolvers)"
    "map (TestDNSResolver net timeout domainName) (zip resolvers rands) = map Inr results"
    "mset out = mset (filter rt_Success results)"
    using file_outcome [OF assms(1,3)] unfolding file_outcome_ok_def by (auto split: sum.splits)
  have "read_resolvers uniTrim content = Inr resolvers"
    using r(1) by (auto simp: before_tests_def result_simps)
  note plain = read_resolvers_plain [OF assms(2) this]
  have "\<forall>l \<in> set (map rt_Resolver out). plain_line uniTrim l"
  proof
    fix l
    assume "l \<in> set (map rt_Resolver out)"
    then obtain x where x: "x \<in> set out" "l = rt_Resolver x" by auto
    then have "x \<in> set results" using r(3) by (metis filter_is_subset set_mset_mset subsetD)
    from tested_names [OF r(2) this] show "plain_line uniTrim l" using plain x(2) by blast
  qed
  then have "read_resolvers uniTrim (saved_text (map rt_Resolver out)) = Inr (map rt_Resolver out)"
    using assms(4) by (intro read_saved) simp_all
  moreover have "fs' filename = Some (saved_text (map rt_Resolver out))"
    using assms(5) by (auto simp: SaveWorkingResolvers_def split: if_splits prod.splits dest!: write_resolvers_ok)
  ultimately show ?thesis by blast
qed


text \<open>
  A resolver that answers the test: the answer is a response with the code of a name that does not
  exist and without records.
\<close>

definition name_error :: bytes where
  "name_error = [18, 52, 129, 3, 0, 0, 0, 0, 0, 0, 0, 0]"

definition answering_net :: dns_net where
  "answering_net = \<lparr>dn_Dial = \<lambda>_ _. True, dn_Write = \<lambda>_ _ _. True, dn_Read = \<lambda>_ _ _. Some (name_error, 5)\<rparr>"

lemma name_error_passes:
  "MessageFromWireFormat name_error = Inr \<lparr>msg_ID = 0x1234, msg_Flags = 0x8103, msg_Question = [],
     msg_Answer = [], msg_Authority = [], msg_Additional = []\<rparr>"
  "check_response \<lparr>msg_ID = 0x1234, msg_Flags = 0x8103, msg_Question = [],
     msg_Answer = [], msg_Authority = [], msg_Additional = []\<rparr> = None"
  by code_simp+

lemma answering_test:
  "TestDNSResolver answering_net timeout [[116]] ([57], replicate 8 0) =
     Inr \<lparr>rt_Resolver = [57], rt_Success = True, rt_Latency = 5, rt_Error = None, rt_ResponseLen = 12\<rparr>"
proof -
  have "hex_encode (replicate 8 (0 :: byte)) \<noteq> []" by (simp add: hex_encode_def hex_byte_def)
  then have "\<exists>query. WireFormat (test_query (replicate 8 0) [[116]]) = Inr query"
    using one_question_wire [of "generateRandomSubdomain (replicate 8 0) # [[116]]" "test_query (replicate 8 0) [[116]]"]
    by (auto simp: test_query_def generateRandomSubdomain_def valid_name_def valid_label_def name_octets_def)
  moreover have "take 4096 name_error = name_error" "length name_error = 12" by (simp_all add: name_error_def)
  ultimately show ?thesis
    by (auto simp: TestDNSResolver_def answering_net_def name_error_passes new_result_def Let_def)
qed

theorem saved_resolvers_reread_witness:
  "\<exists>out fs' saved. TestResolversFromFile answering_net id (Some [57, 10]) [116] 3 2 (Inr out) \<and>
     SaveWorkingResolvers working_files out [102] Map.empty = (None, fs') \<and> fs' [102] = Some saved \<and>
     read_resolvers id saved = Inr [[57]]"
proof -
  have b: "before_tests id (Some [57, 10]) [116] = Inr ([[116]], [[57]])"
    by (simp add: before_tests_def ParseName_def trimSuffixByte_def read_resolvers_def scan_lines_def
        resolver_lines_def TrimSpace_def asciiSpace_def valid_name_def valid_label_def name_octets_def)
  have one: "(1 :: int) \<le> 2" by simp
  from file_test_with [OF one b, of "[replicate 8 0]" answering_net 3] obtain out where
    out: "TestResolversFromFile answering_net id (Some [57, 10]) [116] 3 2 (Inr out)" "map rt_Resolver out = [[57]]"
    by (auto simp: answering_test successful_def)
  then have "out \<noteq> []" by auto
  moreover obtain fs' where fs': "SaveWorkingResolvers working_files out [102] Map.empty = (None, fs')"
  proof -
    have "fst (write_resolvers rs \<lparr>w_out = s, w_room = None\<rparr>) = None" for rs s
      by (induction rs arbitrary: s) (simp_all add: w_Write_def)
    then have "fst (SaveWorkingResolvers working_files out [102] Map.empty) = None"
      by (auto simp: SaveWorkingResolvers_def working_files_def split: prod.splits) (metis fst_conv)
    then show ?thesis using that by (metis prod.collapse)
  qed
  ultimately show ?thesis
    using saved_resolvers_reread [OF one _ out(1) _ fs'] out by auto
qed

end
