(* ===== verification/ClientMain.thy ===== *)
theory ClientMain
  imports ResolverFiles TunnelSearch Failover Utls
begin

text \<open>
  The command line of the client (\<open>src/dnstt-client/main.go\<close>): what its flags and arguments make it
  run.  The flags have been parsed; the outcome is how the program goes on, or that it exits with an
  error.  The files, the network and the results of \<open>createTunnel\<close> are parameters.
\<close>

section \<open>Flags\<close>

record client_flags =
  fl_doh :: bytes
  fl_dot :: bytes
  fl_udp :: bytes
  fl_pubkeyFile :: bytes
  fl_pubkey :: bytes
  fl_utls :: bytes
  fl_tunnels :: int
  fl_testResolvers :: bytes
  fl_testTimeout :: int
  fl_testConcurrency :: int
  fl_testOutput :: bytes
  fl_autoConnect :: bool
  fl_zstd :: bool
  fl_parallel :: int

definition default_flags :: client_flags where
  "default_flags =
     \<lparr>fl_doh = [], fl_dot = [], fl_udp = [], fl_pubkeyFile = [], fl_pubkey = [],
      fl_utls = map of_char ''3*Firefox_65,1*Firefox_63,1*iOS_12_1'', fl_tunnels = 8,
      fl_testResolvers = [], fl_testTimeout = 2000, fl_testConcurrency = 500, fl_testOutput = [],
      fl_autoConnect = False, fl_zstd = False, fl_parallel = 1\<rparr>"

text \<open>
  What the program runs in: \<open>ce_pt\<close> is whether \<open>TOR_PT_MANAGED_TRANSPORT_VER\<close> is set, and
  \<open>ce_create\<close> gives \<open>createTunnel\<close> for the test of a candidate, with the time that it takes.
\<close>

record client_env =
  ce_net :: dns_net
  ce_uniTrim :: "bytes \<Rightarrow> bytes"
  ce_casemap :: casemap
  ce_rand :: "u64 \<Rightarrow> u64"
  ce_files :: file_env
  ce_pt :: bool
  ce_create :: "string option \<Rightarrow> bytes \<Rightarrow> nat \<Rightarrow> Name \<Rightarrow> int \<Rightarrow> bytes \<Rightarrow> int \<times> (err + Tunnel)"

section \<open>Outcomes\<close>

text \<open>\<open>ResolverConfig\<close> of the library.\<close>

record ResolverConfig =
  rc_Resolvers :: "bytes list"
  rc_Domain :: bytes
  rc_Pubkey :: bytes
  rc_UTLS :: "string option"
  rc_NumTunnels :: int
  rc_ListenAddr :: bytes

record standalone_run =
  sr_listenAddr :: bytes
  sr_utls :: "string option"
  sr_numTunnels :: int
  sr_transport :: "bytes \<times> bytes"
  sr_pubkey :: bytes
  sr_domain :: bytes

text \<open>
  How the program goes on: it exits with status 1, returns, or calls \<open>Start\<close>, \<open>StartStandalone\<close> or
  \<open>StartWithResolverFallback\<close>, these two with the global variables set.
\<close>

datatype client_outcome =
    ExitFailure
  | Finished
  | RunTransport "string option" int
  | RunStandalone tunnel_options standalone_run
  | RunFallback tunnel_options ResolverConfig

text \<open>Every error is printed and ends the program; only a panic is something else.\<close>

definition or_exit :: "err + 'a \<Rightarrow> ('a \<Rightarrow> err + client_outcome) \<Rightarrow> err + client_outcome" where
  "or_exit r k = (case r of Inl e \<Rightarrow> if e = Panic then Inl Panic else Inr ExitFailure | Inr x \<Rightarrow> k x)"

section \<open>Standalone mode\<close>

text \<open>The public key: exactly one of the two flags.\<close>

definition flag_pubkey :: "client_env \<Rightarrow> client_flags \<Rightarrow> file_system \<Rightarrow> err + bytes" where
  "flag_pubkey env flags fs =
     (if fl_pubkeyFile flags \<noteq> [] \<and> fl_pubkey flags \<noteq> [] then Inl Errorf
      else if fl_pubkeyFile flags = [] \<and> fl_pubkey flags = [] then Inl Errorf
      else if fl_pubkeyFile flags \<noteq> [] then
        (case fs (fl_pubkeyFile flags) of
           None \<Rightarrow> Inl Errorf
         | Some data \<Rightarrow> DecodeKey (TrimSpace (ce_uniTrim env) data))
      else DecodeKey (fl_pubkey flags))"

text \<open>The transport: exactly one of the three flags.\<close>

definition flag_transport :: "client_flags \<Rightarrow> err + bytes \<times> bytes" where
  "flag_transport flags =
     (let given = (if fl_doh flags \<noteq> [] then [(doh, fl_doh flags)] else []) @
                  (if fl_dot flags \<noteq> [] then [(dot, fl_dot flags)] else []) @
                  (if fl_udp flags \<noteq> [] then [(udp, fl_udp flags)] else []);
          numTransports = length given
      in if numTransports = 0 then Inl Errorf
         else if numTransports > 1 then Inl Errorf
         else Inr (last given))"

definition flag_utls :: "client_env \<Rightarrow> client_flags \<Rightarrow> err + string option" where
  "flag_utls env flags = SampleUTLSDistribution (ce_casemap env) (ce_rand env) (fl_utls flags)"

definition flag_options :: "client_flags \<Rightarrow> tunnel_options" where
  "flag_options flags =
     (let opts = initial_options\<lparr>to_UseCompression := fl_zstd flags\<rparr>
      in if fl_parallel flags > 0 then opts\<lparr>to_NumDNSSenders := fl_parallel flags\<rparr> else opts)"

definition standalone_main :: "client_env \<Rightarrow> client_flags \<Rightarrow> bytes list \<Rightarrow> file_system \<Rightarrow> err + client_outcome" where
  "standalone_main env flags args fs =
     (if length args \<noteq> 2 then Inr ExitFailure
      else or_exit (flag_transport flags) (\<lambda>transport.
           or_exit (flag_pubkey env flags fs) (\<lambda>pubkey.
             if fl_tunnels flags < 1 then Inr ExitFailure
             else or_exit (flag_utls env flags) (\<lambda>utlsID.
               Inr (RunStandalone (flag_options flags)
                 \<lparr>sr_listenAddr = args ! 1, sr_utls = utlsID, sr_numTunnels = fl_tunnels flags,
                  sr_transport = transport, sr_pubkey = pubkey, sr_domain = args ! 0\<rparr>)))))"

section \<open>Testing resolvers\<close>

text \<open>Domain and listening address; without \<open>-auto-connect\<close> the second one does not matter.\<close>

definition test_arguments :: "client_flags \<Rightarrow> bytes list \<Rightarrow> (bytes \<times> bytes) option" where
  "test_arguments flags args =
     (if fl_autoConnect flags then (if length args \<noteq> 2 then None else Some (args ! 0, args ! 1))
      else (if length args < 1 then None else Some (args ! 0, [])))"

definition save_results ::
  "client_env \<Rightarrow> client_flags \<Rightarrow> ResolverTestResult list \<Rightarrow> file_system \<Rightarrow> err option \<times> file_system" where
  "save_results env flags results fs =
     (if fl_testOutput flags = [] then (None, fs)
      else SaveWorkingResolvers (ce_files env) results (fl_testOutput flags) fs)"

text \<open>What \<open>-auto-connect\<close> needs before the search: key, fingerprint and the number of tunnels.\<close>

definition connect_inputs ::
  "client_env \<Rightarrow> client_flags \<Rightarrow> ResolverTestResult list \<Rightarrow> file_system \<Rightarrow> err + bytes \<times> int \<times> string option" where
  "connect_inputs env flags results fs =
     (if length results = 0 then Inl Errorf
      else bindE (flag_pubkey env flags fs) (\<lambda>pubkey.
           let numTunnels = (if fl_tunnels flags < 1 then 1 else fl_tunnels flags)
           in bindE (flag_utls env flags) (\<lambda>utlsID. Inr (pubkey, numTunnels, utlsID))))"

text \<open>The verified resolver first, then the other candidates.\<close>

definition fallback_list :: "bytes \<Rightarrow> ResolverTestResult list \<Rightarrow> bytes list" where
  "fallback_list workingResolver cs =
     workingResolver # filter (\<lambda>r. r \<noteq> workingResolver) (map rt_Resolver cs)"

inductive auto_connect ::
  "client_env \<Rightarrow> client_flags \<Rightarrow> bytes \<Rightarrow> bytes \<Rightarrow> ResolverTestResult list \<Rightarrow> file_system \<Rightarrow>
     err + client_outcome \<Rightarrow> bool"
  for env flags domain listenAddr results fs where
  unusable: "connect_inputs env flags results fs = Inl e \<Longrightarrow>
     auto_connect env flags domain listenAddr results fs (or_exit (Inl e) Inr)"
| not_found: "connect_inputs env flags results fs = Inr (pubkey, numTunnels, utlsID) \<Longrightarrow>
     TestAndConnectWithResolver (ce_create env utlsID pubkey) (candidates results) domain (5000 * ms) (Inl e) \<Longrightarrow>
     auto_connect env flags domain listenAddr results fs (Inr ExitFailure)"
| found: "connect_inputs env flags results fs = Inr (pubkey, numTunnels, utlsID) \<Longrightarrow>
     TestAndConnectWithResolver (ce_create env utlsID pubkey) (candidates results) domain (5000 * ms) (Inr w) \<Longrightarrow>
     auto_connect env flags domain listenAddr results fs
       (Inr (RunFallback (flag_options flags)
          \<lparr>rc_Resolvers = fallback_list w (candidates results), rc_Domain = domain, rc_Pubkey = pubkey,
           rc_UTLS = utlsID, rc_NumTunnels = numTunnels, rc_ListenAddr = listenAddr\<rparr>))"

section \<open>main\<close>

text \<open>The outcome, and the files afterwards.\<close>

inductive client_main ::
  "client_env \<Rightarrow> client_flags \<Rightarrow> bytes list \<Rightarrow> file_system \<Rightarrow> err + client_outcome \<Rightarrow> file_system \<Rightarrow> bool"
  for env flags args fs where
  test_usage: "fl_testResolvers flags \<noteq> [] \<Longrightarrow> test_arguments flags args = None \<Longrightarrow>
     client_main env flags args fs (Inr ExitFailure) fs"
| test_error: "fl_testResolvers flags \<noteq> [] \<Longrightarrow> test_arguments flags args = Some (domain, listenAddr) \<Longrightarrow>
     TestResolversFromFile (ce_net env) (ce_uniTrim env) (fs (fl_testResolvers flags)) domain
       (duration_ms (fl_testTimeout flags)) (fl_testConcurrency flags) (Inl e) \<Longrightarrow>
     client_main env flags args fs (or_exit (Inl e) Inr) fs"
| save_error: "fl_testResolvers flags \<noteq> [] \<Longrightarrow> test_arguments flags args = Some (domain, listenAddr) \<Longrightarrow>
     TestResolversFromFile (ce_net env) (ce_uniTrim env) (fs (fl_testResolvers flags)) domain
       (duration_ms (fl_testTimeout flags)) (fl_testConcurrency flags) (Inr results) \<Longrightarrow>
     save_results env flags results fs = (Some e, fs') \<Longrightarrow>
     client_main env flags args fs (Inr ExitFailure) fs'"
| tests_only: "fl_testResolvers flags \<noteq> [] \<Longrightarrow> test_arguments flags args = Some (domain, listenAddr) \<Longrightarrow>
     TestResolversFromFile (ce_net env) (ce_uniTrim env) (fs (fl_testResolvers flags)) domain
       (duration_ms (fl_testTimeout flags)) (fl_testConcurrency flags) (Inr results) \<Longrightarrow>
     save_results env flags results fs = (None, fs') \<Longrightarrow> \<not> fl_autoConnect flags \<Longrightarrow>
     client_main env flags args fs (Inr Finished) fs'"
| connects: "fl_testResolvers flags \<noteq> [] \<Longrightarrow> test_arguments flags args = Some (domain, listenAddr) \<Longrightarrow>
     TestResolversFromFile (ce_net env) (ce_uniTrim env) (fs (fl_testResolvers flags)) domain
       (duration_ms (fl_testTimeout flags)) (fl_testConcurrency flags) (Inr results) \<Longrightarrow>
     save_results env flags results fs = (None, fs') \<Longrightarrow> fl_autoConnect flags \<Longrightarrow>
     auto_connect env flags domain listenAddr results fs' r \<Longrightarrow> client_main env flags args fs r fs'"
| transport: "fl_testResolvers flags = [] \<Longrightarrow> ce_pt env \<Longrightarrow>
     client_main env flags args fs
       (or_exit (flag_utls env flags) (\<lambda>utlsID. Inr (RunTransport utlsID (fl_tunnels flags)))) fs"
| standalone: "fl_testResolvers flags = [] \<Longrightarrow> \<not> ce_pt env \<Longrightarrow>
     client_main env flags args fs (standalone_main env flags args fs) fs"

inductive_cases client_main_fallback: "client_main env flags args fs (Inr (RunFallback opts cfg)) fs'"
inductive_cases auto_connect_fallback: "auto_connect env flags domain listenAddr results fs (Inr (RunFallback opts cfg))"

text \<open>\<open>StartWithResolverFallback\<close> of a configuration.\<close>

definition start_fallback ::
  "(Name \<Rightarrow> int \<Rightarrow> nat \<Rightarrow> attempt) \<Rightarrow> bool \<Rightarrow> ResolverConfig \<Rightarrow> err + failover" where
  "start_fallback att listen config =
     fallback_setup att listen (rc_Resolvers config) (rc_NumTunnels config) (rc_Domain config)"

section \<open>What auto-connect starts with\<close>

lemma fill_pool_size: "pool_Size p \<le> pool_Size (fill_pool create i n p)"
proof (induction create i n p rule: fill_pool.induct)
  case (2 create i n p)
  have "pool_Size p \<le> pool_Size (pool_Add t p)" for t by (simp add: pool_Size_def pool_Add_def)
  with 2 show ?case by (cases "create i") (auto intro: le_trans)
qed simp

lemma fill_pool_first:
  assumes "create 0 = Inr t" and "0 < n"
  shows "0 < pool_Size (fill_pool create 0 n NewTunnelPool)"
proof -
  obtain m where "n = Suc m" using assms(2) by (cases n) auto
  then have "fill_pool create 0 n NewTunnelPool = fill_pool create 1 m (pool_Add t NewTunnelPool)"
    using assms(1) by simp
  moreover have "pool_Size (pool_Add t NewTunnelPool) = 1" by (simp add: pool_Size_def pool_Add_def NewTunnelPool_def)
  ultimately show ?thesis using fill_pool_size [of "pool_Add t NewTunnelPool" create 1 m] by simp
qed

lemma tunnel_test_domain:
  "TestTunnelConnection create resolver domain timeout = None \<Longrightarrow>
     \<exists>domainName. ParseName domain = Inr domainName \<and> 80 \<le> client_mtu domainName"
  by (auto simp: TestTunnelConnection_def Let_def not_less split: sum.splits if_splits)

lemma first_attempt:
  assumes "TestTunnelConnection create resolver domain timeout = None" and "rc_Domain cfg = domain"
    and "rc_Resolvers cfg = w # rest" and "\<And>d m. snd (att d m 0) (with_port w) 0 = Inr t"
  shows "\<exists>s. start_fallback att True cfg = Inr s \<and> fo_resolverIndex s = 0"
proof -
  obtain d where d: "ParseName domain = Inr d" "80 \<le> client_mtu d" using tunnel_test_domain [OF assms(1)] by blast
  define n where "n = nat (if rc_NumTunnels cfg < 1 then 1 else rc_NumTunnels cfg)"
  have "0 < n" by (auto simp: n_def)
  then have "0 < pool_Size (fill_pool (snd (att d (client_mtu d) 0) (with_port w)) 0 n NewTunnelPool)"
    using fill_pool_first assms(4) by blast
  then obtain pool where c: "connectWithResolver (snd (att d (client_mtu d) 0)) (w # rest) n 0 = Inr pool"
    by (simp add: connectWithResolver_def Let_def)
  have "try_resolvers (\<lambda>k. (False, snd (att d (client_mtu d) k))) (w # rest) n 0 0 = (Connected pool, 1, 0)"
    by (subst try_resolvers.simps) (simp add: c)
  then show ?thesis
    using d unfolding start_fallback_def fallback_setup_def assms(2,3) n_def [symmetric]
    by (simp add: initial_connection_def n_def [symmetric])
qed

text \<open>A resolver that passes the DNS test with some random subdomain.\<close>

definition passes_test :: "dns_net \<Rightarrow> int \<Rightarrow> bytes \<Rightarrow> bytes \<Rightarrow> bool" where
  "passes_test net timeout domain r \<longleftrightarrow>
     (\<exists>domainName rand result. ParseName domain = Inr domainName \<and>
        TestDNSResolver net timeout domainName (r, rand) = Inr result \<and> rt_Success result)"

lemma tested_passes:
  assumes "1 \<le> concurrency"
    and "TestResolversFromFile net uniTrim contents domain timeout concurrency (Inr results)" and "x \<in> set results"
  shows "passes_test net timeout domain (rt_Resolver x)"
proof -
  obtain domainName resolvers rands all where r:
    "before_tests uniTrim contents domain = Inr (domainName, resolvers)"
    "map (TestDNSResolver net timeout domainName) (zip resolvers rands) = map Inr all"
    "mset results = mset (filter rt_Success all)"
    using file_outcome [OF assms(1,2)] unfolding file_outcome_ok_def by (auto split: sum.splits)
  have "x \<in> set (filter rt_Success all)" using r(3) assms(3) by (metis set_mset_mset)
  then have x: "x \<in> set all" "rt_Success x" by simp_all
  then have "Inr x \<in> set (map (TestDNSResolver net timeout domainName) (zip resolvers rands))" using r(2) by simp
  then obtain l rand where l: "TestDNSResolver net timeout domainName (l, rand) = Inr x" by auto
  then have "l = rt_Resolver x" using TestDNSResolver_resolver by simp
  moreover have "ParseName domain = Inr domainName"
    using r(1) by (auto simp: before_tests_def result_simps split: option.splits)
  ultimately show ?thesis unfolding passes_test_def using l x(2) by blast
qed

lemma candidates_subset: "set (candidates results) \<subseteq> set results"
  by (auto simp: candidates_def Let_def)

text \<open>
  C34: Auto-connect, from the file of resolvers to the first connection.  When \<open>-auto-connect\<close> goes on
  to \<open>StartWithResolverFallback\<close>, every resolver of the configuration has passed the DNS test, the first
  is one whose tunnel test has succeeded, and it is not repeated.  The client starts connected through
  this one if its first tunnel comes up again, so the search is not in vain.
\<close>

theorem auto_connect_starts_verified:
  assumes "client_main env flags args fs (Inr (RunFallback opts cfg)) fs'" and "1 \<le> fl_testConcurrency flags"
  shows "\<exists>w rest k. rc_Resolvers cfg = w # rest \<and> w \<notin> set rest \<and> 1 \<le> rc_NumTunnels cfg \<and>
     (\<forall>r \<in> set (w # rest). passes_test (ce_net env) (duration_ms (fl_testTimeout flags)) (rc_Domain cfg) r) \<and>
     TestTunnelConnection (ce_create env (rc_UTLS cfg) (rc_Pubkey cfg) k) w (rc_Domain cfg) (5000 * ms) = None \<and>
     (\<forall>att t. (\<forall>d m. snd (att d m 0) (with_port w) 0 = Inr t) \<longrightarrow>
        (\<exists>s. start_fallback att True cfg = Inr s \<and> fo_resolverIndex s = 0))"
proof -
  obtain domain listenAddr results where run:
    "TestResolversFromFile (ce_net env) (ce_uniTrim env) (fs (fl_testResolvers flags)) domain
       (duration_ms (fl_testTimeout flags)) (fl_testConcurrency flags) (Inr results)"
    "auto_connect env flags domain listenAddr results fs' (Inr (RunFallback opts cfg))"
    using assms(1)
    by (cases rule: client_main_fallback) (auto simp: or_exit_def standalone_main_def Let_def split: if_splits sum.splits)
  obtain pubkey numTunnels utlsID w where c:
    "connect_inputs env flags results fs' = Inr (pubkey, numTunnels, utlsID)"
    "TestAndConnectWithResolver (ce_create env utlsID pubkey) (candidates results) domain (5000 * ms) (Inr w)"
    "cfg = \<lparr>rc_Resolvers = fallback_list w (candidates results), rc_Domain = domain, rc_Pubkey = pubkey,
       rc_UTLS = utlsID, rc_NumTunnels = numTunnels, rc_ListenAddr = listenAddr\<rparr>"
    using run(2) by (cases rule: auto_connect_fallback) (auto simp: or_exit_def split: if_splits)
  have "results \<noteq> []" using c(1) by (auto simp: connect_inputs_def)
  then have ne: "candidates results \<noteq> []" by (auto simp: candidates_def Let_def)
  from search_returned [OF ne c(2) refl] obtain i where
    i: "i < length (candidate_names (candidates results))" "w = candidate_names (candidates results) ! i"
    "TestTunnelConnection (ce_create env utlsID pubkey i) w domain (5000 * ms) = None"
    by (auto simp: tunnel_works_def)
  have "w \<in> set (candidate_names (candidates results))" using i(1,2) by simp
  then have w: "w \<in> rt_Resolver ` set results"
    using candidates_subset [of results] candidates_subset [of "candidates results"]
    by (auto simp: candidate_names_def)
  have "passes_test (ce_net env) (duration_ms (fl_testTimeout flags)) domain r"
    if "r \<in> set (fallback_list w (candidates results))" for r
    using that w tested_passes [OF assms(2) run(1)] candidates_subset [of results]
    by (auto simp: fallback_list_def)
  moreover have "1 \<le> numTunnels" using c(1) by (auto simp: connect_inputs_def result_simps Let_def split: if_splits)
  moreover have "\<exists>s. start_fallback att True cfg = Inr s \<and> fo_resolverIndex s = 0"
    if "\<forall>d m. snd (att d m 0) (with_port w) 0 = Inr t" for att t
    using first_attempt [OF i(3), of cfg w _ att t] that by (simp add: c(3) fallback_list_def)
  ultimately show ?thesis using i(3) by (intro exI [of _ w]) (auto simp: c(3) fallback_list_def)
qed

text \<open>A run in which the only resolver of the file answers the test and carries a tunnel.\<close>

definition working_client :: client_env where
  "working_client = \<lparr>ce_net = answering_net, ce_uniTrim = id, ce_casemap = \<lparr>uniLower = id, uniUpper = id\<rparr>,
     ce_rand = \<lambda>_. 0, ce_files = working_files, ce_pt = False,
     ce_create = \<lambda>_ _ _ _ _ _. (0, Inr (bare_tunnel 1))\<rparr>"

definition connect_flags :: client_flags where
  "connect_flags = default_flags\<lparr>fl_utls := map of_char ''none'', fl_testResolvers := [102],
     fl_pubkey := hex_encode (replicate 32 1), fl_autoConnect := True\<rparr>"

lemma connect_flags_simps [simp]:
  "fl_testResolvers connect_flags = [102]" "fl_autoConnect connect_flags" "fl_testOutput connect_flags = []"
  "fl_testConcurrency connect_flags = 500" "fl_pubkeyFile connect_flags = []"
  "fl_pubkey connect_flags = hex_encode (replicate 32 1)" "fl_tunnels connect_flags = 8"
  by (simp_all add: connect_flags_def default_flags_def)

lemma none_alone: "parseWeightedList (map of_char ''none'') = Inr ([1], [map of_char ''none''])"
proof -
  have "nextToken [110, 111, 110, 101] = Inr (kindText [110, 111, 110, 101], [])" by (simp add: nextToken_def)
  then have "parse_loop stateBeginEntry [110, 111, 110, 101] [] [] [] [] =
      parse_loop stateEndEntry [] [] [] [49] [110, 111, 110, 101]"
    by (rule begin_text(1) [where u = kindEOF]) (simp_all add: peekToken_def)
  also have "\<dots> = Inr ([1], [[110, 111, 110, 101]])" by (simp add: end_entry(1) [of _ 1])
  finally show ?thesis by (simp add: parseWeightedList_def)
qed

lemma no_fingerprint: "flag_utls working_client connect_flags = Inr None"
proof -
  have "fl_utls connect_flags = map of_char ''none''" "ce_rand working_client = (\<lambda>_. 0)"
    by (simp_all add: connect_flags_def default_flags_def working_client_def)
  then show ?thesis
    using none_alone by (simp add: flag_utls_def SampleUTLSDistribution_def sampleWeighted_def)
qed

lemma working_client_simps [simp]:
  "ce_net working_client = answering_net" "ce_uniTrim working_client = id"
  "ce_create working_client utlsID pubkey = (\<lambda>_ _ _ _. (0, Inr (bare_tunnel 1)))"
  by (simp_all add: working_client_def)

lemma working_connect:
  "\<exists>opts cfg. client_main working_client connect_flags [[116], [57]] [[102] \<mapsto> [57, 10]] (Inr (RunFallback opts cfg))
     [[102] \<mapsto> [57, 10]] \<and> rc_Resolvers cfg = [[57]]"
proof -
  let ?fs = "[[102 :: byte] \<mapsto> [57 :: byte, 10]]" and ?timeout = "duration_ms (fl_testTimeout connect_flags)"
  let ?create = "ce_create working_client None (replicate 32 1)"
  have b: "before_tests id (Some [57, 10]) [116] = Inr ([[116]], [[57]])"
    by (simp add: before_tests_def ParseName_def trimSuffixByte_def read_resolvers_def scan_lines_def
        resolver_lines_def TrimSpace_def asciiSpace_def valid_name_def valid_label_def name_octets_def)
  have "(1 :: int) \<le> 500" by simp
  from file_test_with [OF this b, of "[replicate 8 0]" answering_net ?timeout] obtain results where
    t: "TestResolversFromFile answering_net id (Some [57, 10]) [116] ?timeout 500 (Inr results)"
    "results = [\<lparr>rt_Resolver = [57], rt_Success = True, rt_Latency = 5, rt_Error = None, rt_ResponseLen = 12\<rparr>]"
    by (auto simp: answering_test successful_def)
  have cs: "candidates results = results" by (simp add: t(2) candidates_def ms_def)
  have key: "DecodeKey (hex_encode (replicate 32 1)) = Inr (replicate 32 1)" by (simp add: DecodeKey_def KeyLen_def)
  have given: "hex_encode (replicate 32 (1 :: byte)) \<noteq> []" by (simp add: hex_encode_def hex_byte_def numeral_eq_Suc)
  have inputs: "connect_inputs working_client connect_flags results ?fs = Inr (replicate 32 1, 8, None)"
    by (simp add: connect_inputs_def flag_pubkey_def key given no_fingerprint t(2))
  have "results \<noteq> []" by (simp add: t(2))
  from search_returns [OF this, of ?create "[116]" "5000 * ms"] obtain r where
    r: "TestAndConnectWithResolver ?create results [116] (5000 * ms) r" by blast
  have "ParseName [116] = Inr [[116]]"
    by (simp add: ParseName_def trimSuffixByte_def valid_name_def valid_label_def name_octets_def)
  moreover have "client_mtu [[116]] = 142"
    by (simp add: client_mtu_def dnsNameCapacity_def quo_def numPadding_def Let_def)
  ultimately have works: "tunnel_works ?create [[57]] [116] (5000 * ms) 0"
    by (simp add: tunnel_works_def TestTunnelConnection_def ms_def)
  have names: "candidate_names results = [[57]]" unfolding candidate_names_def cs by (simp add: t(2))
  from search_returned [OF \<open>results \<noteq> []\<close> r refl] works have "r = Inr [57]"
    unfolding names by (auto split: sum.splits)
  with r have "TestAndConnectWithResolver ?create (candidates results) [116] (5000 * ms) (Inr [57])" by (simp add: cs)
  note f = found [OF inputs this, of "[57]"]
  have "client_main working_client connect_flags [[116], [57]] ?fs
      (Inr (RunFallback (flag_options connect_flags)
         \<lparr>rc_Resolvers = fallback_list [57] (candidates results), rc_Domain = [116], rc_Pubkey = replicate 32 1,
          rc_UTLS = None, rc_NumTunnels = 8, rc_ListenAddr = [57]\<rparr>)) ?fs"
    by (rule connects [OF _ _ _ _ _ f]) (simp_all add: test_arguments_def save_results_def t(1))
  moreover have "fallback_list [57] (candidates results) = [[57]]" unfolding cs by (simp add: fallback_list_def t(2))
  ultimately show ?thesis by fastforce
qed

theorem auto_connect_starts_verified_witness:
  "\<exists>opts cfg. client_main working_client connect_flags [[116], [57]] [[102] \<mapsto> [57, 10]] (Inr (RunFallback opts cfg))
     [[102] \<mapsto> [57, 10]] \<and>
     (\<exists>s. start_fallback (\<lambda>_ _ _. (False, \<lambda>_ _. Inr (bare_tunnel 1))) True cfg = Inr s \<and> fo_resolverIndex s = 0)"
proof -
  obtain opts cfg where m: "client_main working_client connect_flags [[116], [57]] [[102] \<mapsto> [57, 10]]
      (Inr (RunFallback opts cfg)) [[102] \<mapsto> [57, 10]]"
    using working_connect by blast
  have "1 \<le> fl_testConcurrency connect_flags" by simp
  from auto_connect_starts_verified [OF m this] obtain w where
    "\<forall>att t. (\<forall>d m. snd (att d m 0) (with_port w) 0 = Inr t) \<longrightarrow>
       (\<exists>s. start_fallback att True cfg = Inr s \<and> fo_resolverIndex s = 0)"
    by blast
  then have "\<exists>s. start_fallback (\<lambda>_ _ _. (False, \<lambda>_ _. Inr (bare_tunnel 1))) True cfg = Inr s \<and> fo_resolverIndex s = 0"
    by (metis snd_conv)
  with m show ?thesis by blast
qed

end
