(* ===== verification/ServerStreams.thy ===== *)
theory ServerStreams
  imports ServerPayload Tunnel Noise
begin

text \<open>
  The sessions and streams of the server (\<open>src/dnstt-server/main.go\<close>): \<open>handleStream\<close> connects a
  stream with the upstream address, \<open>acceptStreams\<close> puts Noise, compression and smux on a KCP session
  and accepts its streams, \<open>acceptSessions\<close> configures and accepts the KCP sessions, and \<open>run\<close> sets the
  server up.  KCP, smux and zstd are parameters: whether their calls succeed, and what they accept.
\<close>

section \<open>handleStream\<close>

definition upstreamDialTimeout :: int where
  "upstreamDialTimeout = 30 * 1000 * ms"

datatype server_action = UpstreamCloseRead | UpstreamCloseWrite | UpstreamClose | StreamShut

text \<open>Here \<open>Up\<close> is the copy from the stream to the upstream connection.\<close>

definition handleStream_code :: "server_action relay_code" where
  "handleStream_code = \<lparr>rc_closes = case_side [UpstreamCloseWrite] [UpstreamCloseRead, StreamShut],
     rc_deferred = [UpstreamClose], rc_cancel = False\<rparr>"

text \<open>
  Whether the upstream address is reached within the timeout, and how many closings of the goroutine
  that copies to the stream come before that of the other.
\<close>

definition handleStream :: "bool \<Rightarrow> nat \<Rightarrow> err option \<times> server_action list" where
  "handleStream dialed k =
     (if \<not> dialed then (Some Errorf, [])
      else
        let down = [UpstreamCloseRead, StreamShut]; up = [UpstreamCloseWrite]
        in (None, take k down @ up @ drop k down @ [UpstreamClose]))"

section \<open>acceptStreams\<close>

text \<open>The goroutine of a stream.\<close>

definition serve_stream :: "bool \<times> nat \<Rightarrow> server_action list" where
  "serve_stream = (\<lambda>(dialed, k). snd (handleStream dialed k) @ [StreamShut])"

text \<open>The settings of smux; those that the code does not set are the library's defaults.\<close>

definition server_smux :: "smux_config \<Rightarrow> smux_config" where
  "server_smux defaults =
     defaults\<lparr>sm_Version := 2, sm_KeepAliveTimeout := idleTimeout, sm_MaxStreamBuffer := 1 * 1024 * 1024\<rparr>"

text \<open>
  What the layers of a session answer; the Noise handshake is \<open>NewServer\<close> on what arrives.
  \<open>smux.Session.Close\<close> closes what is below it, as in \<open>Tunnel.Close\<close>.
\<close>

record session_env =
  se_incoming :: bytes
  se_wire :: wire
  se_zstd :: bool
  se_smux :: "smux_config \<Rightarrow> bool"
  se_defaults :: smux_config

definition session_close :: "bool \<Rightarrow> action list" where
  "session_close compressed =
     [Shut SmuxL] @ (if compressed then [Shut CompressionL] else []) @ [Shut NoiseL, Shut KCPL]"

definition acceptStreams ::
  "('h, 'k) noise_lib \<Rightarrow> bytes \<Rightarrow> bool \<Rightarrow> session_env \<Rightarrow> (bool \<times> nat) accept list \<Rightarrow>
     action list \<times> server_action list list \<times> err option" where
  "acceptStreams lib privkey useCompression env streams =
     (case fst (NewServer lib privkey (se_incoming env) (se_wire env)) of
        Inl e \<Rightarrow> ([], [], Some e)
      | Inr _ \<Rightarrow>
          let as = [Open NoiseL]
          in if useCompression \<and> \<not> se_zstd env then (as, [], Some Errorf)
             else
               let as = (if useCompression then as @ [Open CompressionL] else as)
               in if \<not> se_smux env (server_smux (se_defaults env)) then (as, [], Some Errorf)
                  else
                    let (xs, e) = accept_loop streams
                    in (as @ [Open SmuxL] @ (if e = None then [] else session_close useCompression),
                        map serve_stream xs, e))"

section \<open>acceptSessions\<close>

record kcp_session =
  ks_conv :: u32
  ks_streamMode :: bool
  ks_noDelay :: "int \<times> int \<times> int \<times> int"
  ks_window :: "nat \<times> nat"
  ks_mtu :: int

text \<open>\<open>SetMtu\<close> is whether KCP accepts a packet size.\<close>

definition configure_session :: "(int \<Rightarrow> bool) \<Rightarrow> int \<Rightarrow> u32 \<Rightarrow> err + kcp_session" where
  "configure_session SetMtu mtu conv =
     (if \<not> SetMtu mtu then Inl Panic
      else Inr \<lparr>ks_conv = conv, ks_streamMode = True, ks_noDelay = (0, 0, 0, 1),
                ks_window = (QueueSize div 2, QueueSize div 2), ks_mtu = mtu\<rparr>)"

fun acceptSessions :: "(int \<Rightarrow> bool) \<Rightarrow> int \<Rightarrow> u32 accept list \<Rightarrow> err + kcp_session list \<times> err option" where
  "acceptSessions SetMtu mtu [] = Inr ([], None)"
| "acceptSessions SetMtu mtu (Accepted conv # rs) =
     bindE (configure_session SetMtu mtu conv) (\<lambda>s.
     bindE (acceptSessions SetMtu mtu rs) (\<lambda>(ss, e). Inr (s # ss, e)))"
| "acceptSessions SetMtu mtu (Temporary # rs) = acceptSessions SetMtu mtu rs"
| "acceptSessions SetMtu mtu (Failed e # rs) = Inr ([], Some e)"

text \<open>The goroutine of a session.\<close>

definition serve_session ::
  "('h, 'k) noise_lib \<Rightarrow> bytes \<Rightarrow> bool \<Rightarrow> session_env \<Rightarrow> (bool \<times> nat) accept list \<Rightarrow> action list" where
  "serve_session lib privkey useCompression env streams =
     (case acceptStreams lib privkey useCompression env streams of
        (as, _, e) \<Rightarrow> [Open KCPL] @ as @ (if e = None then [] else [Shut KCPL]))"

section \<open>run\<close>

text \<open>What \<open>run\<close> gives to its three loops: the MTU, the largest payload, and the connection and channel.\<close>

record server_run =
  ru_mtu :: int
  ru_maxEncodedPayload :: nat
  ru_server :: server

definition run :: "('h, 'k) noise_lib \<Rightarrow> casemap \<Rightarrow> bool \<Rightarrow> int \<Rightarrow> bytes \<Rightarrow> err + server_run" where
  "run lib u serveConn maxUDPPayload privkey =
     bindE (PubkeyFromPrivkey lib privkey) (\<lambda>_.
     bindE (computeMaxEncodedPayload u maxUDPPayload maxUDPPayload) (\<lambda>maxEncodedPayload.
       let mtu = int maxEncodedPayload - 2
       in if mtu < 80 then Inl Errorf
          else if \<not> serveConn then Inl Errorf
          else Inr \<lparr>ru_mtu = mtu, ru_maxEncodedPayload = maxEncodedPayload,
                    ru_server = \<lparr>sv_conn = NewQueuePacketConn DummyAddr, sv_ch = []\<rparr>\<rparr>))"

section \<open>A stream from end to end\<close>

lemma handleStream_orders:
  assumes "(relay_step handleStream_code)\<^sup>*\<^sup>* (new_relay input) s" and "relay_final s"
  shows "\<exists>k. rl_closed s = snd (handleStream True k)"
proof -
  obtain zs where zs: "zs \<in> shuffles [UpstreamCloseWrite] [UpstreamCloseRead, StreamShut]"
    "rl_closed s = zs @ [UpstreamClose]"
    using relay_ended(3) [OF assms] unfolding handleStream_code_def relay_code.simps side.case if_False by blast
  have "shuffles [UpstreamCloseWrite] [UpstreamCloseRead, StreamShut] =
      {[UpstreamCloseRead, StreamShut, UpstreamCloseWrite], [UpstreamCloseRead, UpstreamCloseWrite, StreamShut],
       [UpstreamCloseWrite, UpstreamCloseRead, StreamShut]}"
    by (simp add: insert_commute)
  with zs(1) have "zs @ [UpstreamClose] = snd (handleStream True 0) \<or> zs @ [UpstreamClose] = snd (handleStream True 1) \<or>
      zs @ [UpstreamClose] = snd (handleStream True 2)"
    by (auto simp: handleStream_def)
  with zs(2) show ?thesis by (elim disjE) (rule exI, simp)+
qed

text \<open>
  A stream that the client's \<open>handle\<close> and the server's \<open>handleStream\<close> have at its two ends: what is
  read from it is a beginning of what has been written at the other end.
\<close>

definition joined :: "(side \<Rightarrow> bytes list) \<Rightarrow> stream_action relay \<Rightarrow> (side \<Rightarrow> bytes list) \<Rightarrow> server_action relay \<Rightarrow> bool" where
  "joined localIn c streamIn v \<longleftrightarrow>
     prefix (concat (streamIn Up)) (rl_out c Up) \<and> prefix (concat (localIn Down)) (rl_out v Down)"

text \<open>At any moment a direction has delivered a beginning of its input.\<close>

lemma relay_prefix:
  assumes "(relay_step code)\<^sup>*\<^sup>* (new_relay input) s"
  shows "prefix (rl_out s d) (concat (input d))"
proof -
  have "data_ok (input d) (rl_cp s d) (rl_out s d) (rl_err s d)"
    using relay.steps_inv [OF assms new_relay_inv] by (simp add: relay_inv_def)
  then show ?thesis by (auto simp: data_ok_def prefix_def split: copier.splits) metis
qed



section \<open>The packet size\<close>

lemma payload_range:
  "\<exists>n. computeMaxEncodedPayload u maxUDPPayload maxUDPPayload = Inr n \<and> (82 \<le> n \<longleftrightarrow> 377 \<le> maxUDPPayload) \<and>
     (1503 \<le> n \<longleftrightarrow> 1803 \<le> maxUDPPayload)"
proof -
  obtain n where n: "computeMaxEncodedPayload u maxUDPPayload maxUDPPayload = Inr n"
    "\<forall>m. 0 < m \<longrightarrow> m < 32768 \<longrightarrow> (m \<le> n \<longleftrightarrow> int (max_response_length m) \<le> maxUDPPayload)"
    using computeMaxEncodedPayload_exact by blast
  moreover have "max_response_length 82 = 377" "max_response_length 1503 = 1803"
    by (simp_all add: max_response_length_def)
  ultimately show ?thesis using n(2) [rule_format, of 82] n(2) [rule_format, of 1503] by simp
qed

lemma acceptSessions_good: "SetMtu mtu \<Longrightarrow> \<exists>ss e. acceptSessions SetMtu mtu rs = Inr (ss, e)"
  by (induction SetMtu mtu rs rule: acceptSessions.induct) (auto simp: configure_session_def)

lemma acceptSessions_bad:
  "\<not> SetMtu mtu \<Longrightarrow> (\<forall>r \<in> set before. r = Temporary) \<Longrightarrow>
     acceptSessions SetMtu mtu (before @ Accepted conv # rs) = Inl Panic"
  by (induction before) (auto simp: configure_session_def)

text \<open>
  C37: The range of \<open>-mtu\<close>.  Below 377 \<open>run\<close> gives up.  From there on it serves; but KCP accepts packet
  sizes up to 1500 bytes only, so from 1803 on, which \<open>run\<close> does not refuse, \<open>acceptSessions\<close> panics
  with the first session, and with it the whole server.  In between it never does.
\<close>

theorem mtu_range:
  assumes "\<And>m. SetMtu m \<longleftrightarrow> m \<le> 1500" and "PubkeyFromPrivkey lib privkey = Inr pubkey"
  shows "(maxUDPPayload < 377 \<longrightarrow> run lib u True maxUDPPayload privkey = Inl Errorf) \<and>
     (377 \<le> maxUDPPayload \<longrightarrow> (\<exists>r. run lib u True maxUDPPayload privkey = Inr r \<and> 80 \<le> ru_mtu r \<and>
        (if maxUDPPayload < 1803 then \<forall>rs. \<exists>ss e. acceptSessions SetMtu (ru_mtu r) rs = Inr (ss, e)
         else \<forall>before conv rs. (\<forall>a \<in> set before. a = Temporary) \<longrightarrow>
           acceptSessions SetMtu (ru_mtu r) (before @ Accepted conv # rs) = Inl Panic)))"
proof -
  obtain n where n: "computeMaxEncodedPayload u maxUDPPayload maxUDPPayload = Inr n" "82 \<le> n \<longleftrightarrow> 377 \<le> maxUDPPayload"
    "1503 \<le> n \<longleftrightarrow> 1803 \<le> maxUDPPayload"
    using payload_range by blast
  show ?thesis
  proof (cases "377 \<le> maxUDPPayload")
    case True
    then obtain r where r: "run lib u True maxUDPPayload privkey = Inr r" "ru_mtu r = int n - 2"
      using n(1,2) assms(2) by (auto simp: run_def Let_def)
    have "SetMtu (ru_mtu r) \<longleftrightarrow> maxUDPPayload < 1803" using n(3) r(2) assms(1) by auto
    with True r n(2) show ?thesis using acceptSessions_good acceptSessions_bad by auto
  next
    case False
    with n(1,2) assms(2) show ?thesis by (auto simp: run_def Let_def)
  qed
qed

theorem mtu_range_witness:
  "\<exists>r. run counting_lib \<lparr>uniLower = id, uniUpper = id\<rparr> True 4096 (replicate 32 1) = Inr r \<and>
     acceptSessions (\<lambda>m. m \<le> 1500) (ru_mtu r) [Temporary, Accepted 7] = Inl Panic"
proof -
  have "PubkeyFromPrivkey counting_lib (replicate 32 1) = Inr (replicate 32 1)"
    by (simp add: PubkeyFromPrivkey_def counting_lib_def)
  from mtu_range [of "\<lambda>m. m \<le> 1500", OF refl this, of 4096 "\<lparr>uniLower = id, uniUpper = id\<rparr>"] obtain r where
    "run counting_lib \<lparr>uniLower = id, uniUpper = id\<rparr> True 4096 (replicate 32 1) = Inr r"
    "\<forall>before conv rs. (\<forall>a \<in> set before. a = Temporary) \<longrightarrow>
       acceptSessions (\<lambda>m. m \<le> 1500) (ru_mtu r) (before @ Accepted conv # rs) = Inl Panic"
    by auto
  moreover from this(2) [rule_format, of "[Temporary]" 7 "[]"]
  have "acceptSessions (\<lambda>m. m \<le> 1500) (ru_mtu r) [Temporary, Accepted 7] = Inl Panic" by simp
  ultimately show ?thesis by blast
qed

end
