(* ===== verification/ServerMain.thy ===== *)
theory ServerMain
  imports ServerStreams KeyFiles
begin

text \<open>
  The command line of the server (\<open>main\<close> of \<open>src/dnstt-server/main.go\<close>): key generation, the server on
  a UDP address, and the server as a pluggable transport.  The flags have been parsed; the outcome is
  how the program goes on.  Files, listeners, name resolution and the pluggable transport library are
  parameters.
\<close>

section \<open>Flags and environment\<close>

record server_flags =
  sf_genKey :: bool
  sf_mtu :: int
  sf_privkey :: bytes
  sf_privkeyFile :: bytes
  sf_pubkeyFile :: bytes
  sf_udp :: bytes
  sf_zstd :: bool

definition default_server_flags :: server_flags where
  "default_server_flags = \<lparr>sf_genKey = False, sf_mtu = 1280 - 40 - 8, sf_privkey = [], sf_privkeyFile = [],
     sf_pubkeyFile = [], sf_udp = [], sf_zstd = False\<rparr>"

text \<open>How a host name resolves; the empty one resolves to no address.\<close>

datatype resolved = ResolveError | NoAddress | Address

record bindaddr =
  ba_MethodName :: bytes
  ba_Port :: int
  ba_Addr :: bytes

text \<open>
  \<open>sn_SplitHostPort\<close> gives the host; \<open>sn_ServerSetup\<close> the address of the bridge and the addresses to
  bind, unless the setup fails.
\<close>

record server_env =
  sn_files :: file_env
  sn_SplitHostPort :: "bytes \<Rightarrow> bytes option"
  sn_ResolveIPAddr :: "bytes \<Rightarrow> resolved"
  sn_ListenPacket :: "bytes \<Rightarrow> bool"
  sn_ServerSetup :: "(bytes \<times> bindaddr list) option"

section \<open>Upstream address and key\<close>

definition upstream_ok :: "server_env \<Rightarrow> bytes \<Rightarrow> bool" where
  "upstream_ok env upstream =
     (case sn_SplitHostPort env upstream of
        None \<Rightarrow> False
      | Some upstreamHost \<Rightarrow>
          (case sn_ResolveIPAddr env upstreamHost of ResolveError \<Rightarrow> True | NoAddress \<Rightarrow> False | Address \<Rightarrow> True))"

text \<open>The private key: of a file, of the flag, or a temporary one.\<close>

definition given_key :: "server_flags \<Rightarrow> file_system \<Rightarrow> err + bytes" where
  "given_key flags fs =
     (if sf_privkeyFile flags \<noteq> [] \<and> sf_privkey flags \<noteq> [] then Inl Errorf
      else if sf_privkeyFile flags \<noteq> [] then readKeyFromFile (sf_privkeyFile flags) fs
      else if sf_privkey flags \<noteq> [] then DecodeKey (sf_privkey flags)
      else Inr [])"

definition server_privkey :: "server_env \<Rightarrow> server_flags \<Rightarrow> file_system \<Rightarrow> err + bytes" where
  "server_privkey env flags fs =
     bindE (given_key flags fs) (\<lambda>privkey.
       if length privkey = 0 then fe_Generate (sn_files env) else Inr privkey)"

section \<open>The pluggable transport\<close>

definition ptMethodName :: bytes where
  "ptMethodName = map of_char ''dnstt''"

text \<open>What the parent process is told.\<close>

datatype pt_report = Smethod bytes bytes | SmethodError bytes | SmethodsDone

text \<open>The loop over the addresses: the reports, and the addresses listened on.\<close>

fun bind_all :: "server_env \<Rightarrow> bindaddr list \<Rightarrow> pt_report list \<times> bytes list" where
  "bind_all env [] = ([], [])"
| "bind_all env (b # bs) =
     (let (reports, addrs) = bind_all env bs
      in if ba_MethodName b \<noteq> ptMethodName then (SmethodError (ba_MethodName b) # reports, addrs)
         else if ba_Port b = 0 then (SmethodError (ba_MethodName b) # reports, addrs)
         else if \<not> sn_ListenPacket env (ba_Addr b) then (SmethodError (ba_MethodName b) # reports, addrs)
         else (Smethod (ba_MethodName b) (ba_Addr b) # reports, ba_Addr b # addrs))"

section \<open>main\<close>

text \<open>
  What is run, once for each of the addresses, until a signal comes.  An error of \<open>run\<close> is only
  logged.
\<close>

record service =
  svc_privkey :: bytes
  svc_domain :: Name
  svc_upstream :: bytes
  svc_maxUDPPayload :: int
  svc_useCompression :: bool
  svc_addrs :: "bytes list"

text \<open>
  The program exits with status 1, returns, or runs the service as a standalone server or with these
  reports to its parent process.
\<close>

datatype server_outcome =
    ServerFailure
  | KeysGenerated
  | Standalone service
  | Transport "pt_report list" service

text \<open>The checks that both server modes make in this order: the upstream address, the flags, the key.\<close>

definition prepare ::
  "server_env \<Rightarrow> server_flags \<Rightarrow> bytes \<Rightarrow> file_system \<Rightarrow> err + bytes" where
  "prepare env flags upstream fs =
     (if \<not> upstream_ok env upstream then Inl Errorf
      else if sf_pubkeyFile flags \<noteq> [] then Inl Errorf
      else server_privkey env flags fs)"

definition udp_main :: "server_env \<Rightarrow> server_flags \<Rightarrow> bytes list \<Rightarrow> file_system \<Rightarrow> server_outcome" where
  "udp_main env flags args fs =
     (if length args \<noteq> 2 then ServerFailure
      else case ParseName (args ! 0) of
          Inl _ \<Rightarrow> ServerFailure
        | Inr domain \<Rightarrow>
            (case prepare env flags (args ! 1) fs of
               Inl _ \<Rightarrow> ServerFailure
             | Inr privkey \<Rightarrow>
                 if \<not> sn_ListenPacket env (sf_udp flags) then ServerFailure
                 else Standalone \<lparr>svc_privkey = privkey, svc_domain = domain, svc_upstream = args ! 1,
                        svc_maxUDPPayload = sf_mtu flags, svc_useCompression = sf_zstd flags,
                        svc_addrs = [sf_udp flags]\<rparr>))"

definition pt_main :: "server_env \<Rightarrow> server_flags \<Rightarrow> bytes list \<Rightarrow> file_system \<Rightarrow> server_outcome" where
  "pt_main env flags args fs =
     (if length args \<noteq> 1 then ServerFailure
      else case ParseName (args ! 0) of
          Inl _ \<Rightarrow> ServerFailure
        | Inr domain \<Rightarrow>
            (case sn_ServerSetup env of
               None \<Rightarrow> ServerFailure
             | Some (orAddr, bindaddrs) \<Rightarrow>
                 (case prepare env flags orAddr fs of
                    Inl _ \<Rightarrow> ServerFailure
                  | Inr privkey \<Rightarrow>
                      let (reports, addrs) = bind_all env bindaddrs
                      in Transport (reports @ [SmethodsDone])
                           \<lparr>svc_privkey = privkey, svc_domain = domain, svc_upstream = orAddr,
                            svc_maxUDPPayload = sf_mtu flags, svc_useCompression = sf_zstd flags,
                            svc_addrs = addrs\<rparr>)))"

definition server_main ::
  "('h, 'k) noise_lib \<Rightarrow> server_env \<Rightarrow> server_flags \<Rightarrow> bytes list \<Rightarrow> file_system \<Rightarrow>
     err + server_outcome \<times> file_system" where
  "server_main lib env flags args fs =
     (if sf_genKey flags then
        (if length args \<noteq> 0 \<or> sf_privkey flags \<noteq> [] then Inr (ServerFailure, fs)
         else case generateKeypair lib (sn_files env) (sf_privkeyFile flags) (sf_pubkeyFile flags) fs of
             (None, fs') \<Rightarrow> Inr (KeysGenerated, fs')
           | (Some e, fs') \<Rightarrow> if e = Panic then Inl Panic else Inr (ServerFailure, fs'))
      else if sf_udp flags \<noteq> [] then Inr (udp_main env flags args fs, fs)
      else Inr (pt_main env flags args fs, fs))"

text \<open>The service of an outcome.\<close>

fun service_of :: "server_outcome \<Rightarrow> service option" where
  "service_of (Standalone s) = Some s"
| "service_of (Transport _ s) = Some s"
| "service_of _ = None"

text \<open>\<open>run\<close> of a service.\<close>

definition run_service ::
  "('h, 'k) noise_lib \<Rightarrow> casemap \<Rightarrow> bool \<Rightarrow> service \<Rightarrow> err + server_run" where
  "run_service lib u serveConn s = run lib u serveConn (svc_maxUDPPayload s) (svc_privkey s)"

section \<open>What the server serves\<close>

lemma ReadKey_length: "ReadKey s = Inr key \<Longrightarrow> length key = KeyLen"
  by (auto simp: ReadKey_exact)

lemma DecodeKey_length: "DecodeKey s = Inr key \<Longrightarrow> length key = KeyLen"
  by (auto simp: DecodeKey_def result_simps split: if_splits)

text \<open>Which of the addresses are served, and what is reported of each.\<close>

definition servable :: "server_env \<Rightarrow> bindaddr \<Rightarrow> bool" where
  "servable env b \<longleftrightarrow> ba_MethodName b = ptMethodName \<and> ba_Port b \<noteq> 0 \<and> sn_ListenPacket env (ba_Addr b)"

lemma bind_all_spec:
  "bind_all env bs =
     (map (\<lambda>b. if servable env b then Smethod ptMethodName (ba_Addr b) else SmethodError (ba_MethodName b)) bs,
      map ba_Addr (filter (servable env) bs))"
  by (induction bs) (simp_all add: servable_def split_beta)

lemma given_key_cases:
  assumes "server_privkey env flags fs = Inr key"
  shows "if sf_privkeyFile flags \<noteq> [] then sf_privkey flags = [] \<and> readKeyFromFile (sf_privkeyFile flags) fs = Inr key \<and> length key = KeyLen
     else if sf_privkey flags \<noteq> [] then DecodeKey (sf_privkey flags) = Inr key \<and> length key = KeyLen
     else fe_Generate (sn_files env) = Inr key"
proof -
  have "length k = KeyLen" if "readKeyFromFile f fs = Inr k" for f k
    using that by (auto simp: readKeyFromFile_def ReadKey_length split: option.splits)
  moreover from this have "readKeyFromFile f fs \<noteq> Inr []" for f by (force simp: KeyLen_def)
  moreover have "DecodeKey s \<noteq> Inr []" for s using DecodeKey_length [of s "[]"] by (auto simp: KeyLen_def)
  ultimately show ?thesis using assms
    by (auto simp: server_privkey_def given_key_def result_simps DecodeKey_length split: if_splits)
qed

lemma service_prepared:
  assumes "server_main lib env flags args fs = Inr (outcome, fs')" and "service_of outcome = Some s"
  shows "fs' = fs \<and> ParseName (args ! 0) = Inr (svc_domain s) \<and>
     prepare env flags (svc_upstream s) fs = Inr (svc_privkey s) \<and>
     svc_maxUDPPayload s = sf_mtu flags \<and> svc_useCompression s = sf_zstd flags"
  using assms
  by (auto simp: server_main_def udp_main_def pt_main_def Let_def
      split: if_splits sum.splits option.splits prod.splits)

text \<open>
  C38: What the server serves.  Whenever \<open>main\<close> comes to serve, it has changed no file, its domain and
  its upstream address are valid, and its key is the one that was given, of 32 bytes, by exactly one
  of the two flags, or a temporary one if neither was; \<open>-pubkey-file\<close> was not given.  A standalone
  server listens on the address of \<open>-udp\<close>.  A pluggable transport listens on exactly the addresses
  that it can serve, reports each address of the parent process once, in order, and then the end.
\<close>

theorem server_main_serves:
  assumes "server_main lib env flags args fs = Inr (outcome, fs')" and "service_of outcome = Some s"
  shows "fs' = fs \<and> ParseName (args ! 0) = Inr (svc_domain s) \<and> upstream_ok env (svc_upstream s) \<and>
     sf_pubkeyFile flags = [] \<and>
     (if sf_privkeyFile flags \<noteq> [] then
        sf_privkey flags = [] \<and> readKeyFromFile (sf_privkeyFile flags) fs = Inr (svc_privkey s) \<and>
        length (svc_privkey s) = KeyLen
      else if sf_privkey flags \<noteq> [] then DecodeKey (sf_privkey flags) = Inr (svc_privkey s) \<and> length (svc_privkey s) = KeyLen
      else fe_Generate (sn_files env) = Inr (svc_privkey s)) \<and>
     (outcome = Standalone s \<longrightarrow> svc_upstream s = args ! 1 \<and> svc_addrs s = [sf_udp flags] \<and> sn_ListenPacket env (sf_udp flags)) \<and>
     (\<forall>reports. outcome = Transport reports s \<longrightarrow>
        (\<exists>bindaddrs. sn_ServerSetup env = Some (svc_upstream s, bindaddrs) \<and>
           svc_addrs s = map ba_Addr (filter (servable env) bindaddrs) \<and>
           reports = map (\<lambda>b. if servable env b then Smethod ptMethodName (ba_Addr b) else SmethodError (ba_MethodName b))
             bindaddrs @ [SmethodsDone]))"
proof -
  note p = service_prepared [OF assms]
  have key: "server_privkey env flags fs = Inr (svc_privkey s)" and ok: "upstream_ok env (svc_upstream s)"
    "sf_pubkeyFile flags = []"
    using p by (auto simp: prepare_def split: if_splits)
  have "outcome = Standalone s \<longrightarrow> svc_upstream s = args ! 1 \<and> svc_addrs s = [sf_udp flags] \<and> sn_ListenPacket env (sf_udp flags)"
    using assms(1)
    by (auto simp: server_main_def udp_main_def pt_main_def Let_def split: if_splits sum.splits option.splits prod.splits)
  moreover have "\<forall>reports. outcome = Transport reports s \<longrightarrow>
        (\<exists>bindaddrs. sn_ServerSetup env = Some (svc_upstream s, bindaddrs) \<and>
           svc_addrs s = map ba_Addr (filter (servable env) bindaddrs) \<and>
           reports = map (\<lambda>b. if servable env b then Smethod ptMethodName (ba_Addr b) else SmethodError (ba_MethodName b))
             bindaddrs @ [SmethodsDone])"
    using assms(1)
    by (auto simp: server_main_def udp_main_def pt_main_def Let_def bind_all_spec
        split: if_splits sum.splits option.splits prod.splits)
  ultimately show ?thesis using p ok given_key_cases [OF key] by simp
qed

text \<open>A pluggable transport with an address of another method, one without a port, and a good one.\<close>

definition bridge :: server_env where
  "bridge = \<lparr>sn_files = working_files, sn_SplitHostPort = \<lambda>a. Some [97], sn_ResolveIPAddr = \<lambda>_. Address,
     sn_ListenPacket = \<lambda>_. True,
     sn_ServerSetup = Some ([97, 58, 57],
       [\<lparr>ba_MethodName = [120], ba_Port = 53, ba_Addr = [1]\<rparr>, \<lparr>ba_MethodName = ptMethodName, ba_Port = 0, ba_Addr = [2]\<rparr>,
        \<lparr>ba_MethodName = ptMethodName, ba_Port = 53, ba_Addr = [3]\<rparr>])\<rparr>"

lemma bridge_runs:
  "\<exists>reports s. server_main counting_lib bridge default_server_flags [[116]] Map.empty = Inr (Transport reports s, Map.empty)"
proof -
  have "ParseName [116] = Inr [[116]]"
    by (simp add: ParseName_def trimSuffixByte_def valid_name_def valid_label_def name_octets_def)
  moreover have "prepare bridge default_server_flags [97, 58, 57] Map.empty = Inr (replicate 32 1)"
    by (simp add: prepare_def upstream_ok_def server_privkey_def given_key_def bridge_def default_server_flags_def
        working_files_def)
  moreover have "sn_ServerSetup bridge \<noteq> None" "\<exists>bs. sn_ServerSetup bridge = Some ([97, 58, 57], bs)"
    by (simp_all add: bridge_def)
  ultimately show ?thesis
    by (auto simp: server_main_def pt_main_def default_server_flags_def split: prod.splits)
qed

theorem server_main_serves_witness:
  "\<exists>reports s. server_main counting_lib bridge default_server_flags [[116]] Map.empty = Inr (Transport reports s, Map.empty) \<and>
     svc_addrs s = [[3]] \<and> svc_privkey s = replicate 32 1 \<and>
     reports = [SmethodError [120], SmethodError ptMethodName, Smethod ptMethodName [3], SmethodsDone]"
proof -
  obtain reports s where m:
    "server_main counting_lib bridge default_server_flags [[116]] Map.empty = Inr (Transport reports s, Map.empty)"
    using bridge_runs by blast
  have "[120] \<noteq> ptMethodName" by (simp add: ptMethodName_def)
  with server_main_serves [OF m, of s] m show ?thesis
    by (auto simp: bridge_def default_server_flags_def servable_def working_files_def)
qed

end
