(* ===== verification/Spec2Isabelle.thy ===== *)
theory Spec2Isabelle
  imports Channel Tls Http Compression Transport FailoverRuns MobileStreams MobileResolvers ClientMain ServerMain
begin

text \<open>
  A model of dnstt, a tunnel through DNS resolvers, and what it is proved to do.

  The client (\<open>src/dnstt-client\<close>) accepts local TCP connections and carries each as a smux stream over
  zstd (optionally), a Noise channel and a KCP session, whose packets it encodes into the names of DNS
  queries.  A resolver, reached over UDP, TLS or HTTPS, passes the queries on to the server
  (\<open>src/dnstt-server\<close>), which puts the packets for the client into the TXT records of its responses, and
  connects each stream with an upstream address.  Both sides hand packets to KCP through the queues of
  \<open>src/turbotunnel\<close>.  A second client, \<open>src/dnstt-client/mobile\<close>, is a library for mobile applications.

  Every definition is translated from the code that it is named after; functions keep their names,
  with a suffix where a name is taken.  A panic is the error \<open>Panic\<close>, a call that blocks is \<open>None\<close>, and what
  the code does in several goroutines is a step relation with all interleavings.  Machine integers
  keep their width where it matters, \<open>time.Duration\<close> is an integer number of nanoseconds.

  \<^bold>\<open>Shared.\<close>  \<open>Prelude\<close>: errors, results, the simplification rules for them.  \<open>GoStd\<close>: what is used of Go's
  library (cases, splitting, hexadecimal, decimal).  \<open>Base32\<close>, \<open>Framing\<close> (the contract of a format with
  a length prefix, the locale \<open>framing\<close>), \<open>GoHeap\<close> (\<open>container/heap\<close>, the locale of a heap order),
  \<open>Completion\<close> (the locale \<open>completes\<close>: goroutines that always come to an end).

  \<^bold>\<open>DNS messages\<close> (\<open>src/dns/dns.go\<close>, \<open>fuzz.go\<close>).  \<open>DnsName\<close>, \<open>DnsMessage\<close>, \<open>DnsTxt\<close>: names, parser, builder,
  TXT data.  \<open>DnsRoundtrip\<close> and \<open>DnsLimits\<close>: what is built is parsed back, the limits of names, the parser
  never panics, what it accepts can be built again.

  \<^bold>\<open>Queues\<close> (\<open>src/turbotunnel\<close>).  \<open>ClientID\<close>; \<open>RemoteMap\<close>: the heap and map of peers, its invariant, and that
  expiry removes exactly the expired peers; \<open>QueueConn\<close>: the queues of \<open>QueuePacketConn\<close> are the mailboxes
  of each peer; \<open>Compression\<close>: \<open>compress.go\<close>, over any zstd library that decodes what it has flushed.

  \<^bold>\<open>Client channel\<close> (\<open>src/dnstt-client/lib\<close>).  \<open>Client\<close>: \<open>dns.go\<close>, queries and responses; \<open>ClientPoll\<close>: its sending
  loop with polling and pacing; \<open>Tls\<close>, \<open>Http\<close>: the transports of \<open>tls.go\<close> and \<open>http.go\<close>; \<open>Utls\<close> and
  \<open>WeightedList\<close>: fingerprints and their distribution.

  \<^bold>\<open>Server channel\<close> (\<open>src/dnstt-server/main.go\<close>).  \<open>Server\<close>: \<open>responseFor\<close>, \<open>recvLoop\<close>, \<open>sendLoop\<close>;
  \<open>ServerPayload\<close>: the binary search for the payload limit; \<open>ServerBundle\<close>: the bundling loop.
  \<open>Channel\<close> joins client and server, and this theory states the delivery in both directions.

  \<^bold>\<open>Noise\<close> (\<open>src/noise/noise.go\<close>).  \<open>Noise\<close>: framing, handshake, socket, keys, over any Noise library with
  matching states; \<open>KeyFiles\<close>: the key files of the server.

  \<^bold>\<open>Streams and tunnels.\<close>  \<open>Relay\<close>: the two copying goroutines of a stream, as they stand in \<open>handle\<close>,
  \<open>handleStream\<close> and \<open>handleSOCKS\<close>; \<open>Tunnel\<close>: \<open>createTunnel\<close>, pools and \<open>StartStandalone\<close> of \<open>client.go\<close>;
  \<open>Failover\<close>: \<open>StartWithResolverFallback\<close>, one call after the other, and \<open>FailoverRuns\<close>: its goroutines
  side by side; \<open>SocksPools\<close> and \<open>Transport\<close>: \<open>Start\<close> and \<open>acceptLoop\<close>;
  \<open>ServerStreams\<close>: sessions and streams of the server; \<open>ServerMain\<close> and \<open>ClientMain\<close>: the command lines.

  \<^bold>\<open>Resolver tests\<close> (\<open>resolver_tester.go\<close>).  \<open>ResolverPool\<close>, \<open>ResolverTest\<close>: the concurrent DNS tests, which
  end with the result of each resolver; \<open>ResolverFiles\<close>: the file of working resolvers; \<open>TunnelSearch\<close>:
  the search for a resolver that carries a tunnel.

  \<^bold>\<open>Mobile client\<close> (\<open>mobile.go\<close>).  \<open>Mobile\<close>: configuration, start and stop, the SOCKS exchange;
  \<open>MobileStreams\<close>: copying, accept loop, counters; \<open>WorkerPool\<close>, \<open>MobileResolvers\<close>: its resolver tests.

  \<^bold>\<open>Termination.\<close>  No definition uses fuel: loops over data have a measure, and each system of
  goroutines is an instance of \<open>completes\<close>, whose measure bounds the length of every run.  Endless loops
  (\<open>recvLoop\<close>, \<open>sendLoop\<close>, accepting) are the function of one round and runs of it.

  \<^bold>\<open>Parameters.\<close>  KCP, smux, zstd, the Noise library, uTLS, \<open>net\<close>, \<open>net/http\<close>, the pluggable transport library,
  random numbers, time and the file system's failures.  Their laws, where a theorem needs any, are
  named predicates among its hypotheses: \<open>handshake\<close>, \<open>in_step\<close>, \<open>genuine\<close>, \<open>flushes\<close>, the bound on
  \<open>SetMtu\<close>.  A theorem about them has an example in which they hold.

  \<^bold>\<open>Not modelled.\<close>  Log messages, the usage texts and the printed table of results, which have no effect on
  the rest; the parsing of flags (library); the callbacks of the mobile client, which only report;
  \<open>TestTunnelConnection\<close>'s goroutine after its timeout, which is a finding of its own; \<open>SetDeadline\<close> and
  similar methods, which return \<open>errNotImplemented\<close>; the Java application under \<open>src/android-app\<close>.
\<close>

section \<open>Properties that span components\<close>

text \<open>A client of the zone \<open>t.ex\<close>, the example for the witnesses.\<close>

definition example_casemap :: casemap where
  "example_casemap = \<lparr>uniLower = id, uniUpper = id\<rparr>"

definition example_client :: DNSPacketConn where
  "example_client = \<lparr>dc_clientID = [1, 2, 3, 4, 5, 6, 7, 8], dc_domain = [[116], [101, 120]],
     dc_pollChan = 0, dc_conn = NewQueuePacketConn DummyAddr\<rparr>"

definition example_server :: server where
  "example_server = \<lparr>sv_conn = NewQueuePacketConn DummyAddr, sv_ch = []\<rparr>"

lemma example_client_ok:
  "valid_name (dc_domain example_client)" "client_mtu (dc_domain example_client) = 140"
  "length (dc_clientID example_client) = 8"
  by (simp_all add: example_client_def valid_name_def valid_label_def name_octets_def client_mtu_def
      dnsNameCapacity_def quo_def numPadding_def Let_def)

text \<open>
  C13: Upstream delivery, end to end.  For a domain that passes the client's own MTU check, every
  packet up to that MTU (the empty poll included) is encoded into a query that fits the limits of
  DNS.  Any query for that name which a resolver makes of it (in any mixture of letter cases, with
  any ID and flags, with its own OPT record), serialized in any way, makes the server put exactly
  this packet into its incoming queue under the client's ID and queue one record for the response.
\<close>

theorem upstream_end_to_end:
  assumes "valid_name (dc_domain c)" and "80 \<le> client_mtu (dc_domain c)"
    and "int (length p) \<le> client_mtu (dc_domain c)" and "length (dc_clientID c) = 8"
    and "numPaddingForPoll \<le> length rand" and "maxUDPPayload \<le> 4096"
  shows "\<exists>buf name. send u qid rand p c = Some (Inr buf) \<and> length buf \<le> 282 \<and>
     MessageFromWireFormat buf = Inr (query_for qid name) \<and>
     relayed u maxUDPPayload name (query_for qid name) \<and>
     (\<forall>query datagram addr s. relayed u maxUDPPayload name query \<longrightarrow>
        MessageFromWireFormat (take 4096 datagram) = Inr query \<longrightarrow>
        server_recv u maxUDPPayload (dc_domain c) datagram addr s =
          after_query (dc_clientID c) p query addr s)"
  by (rule upstream_delivery [OF assms])

theorem upstream_end_to_end_witness:
  "\<exists>buf name. send example_casemap 7 (replicate 8 0) [1, 2, 3] example_client = Some (Inr buf) \<and>
     server_recv example_casemap 1232 (dc_domain example_client) buf DummyAddr example_server =
       after_query [1, 2, 3, 4, 5, 6, 7, 8] [1, 2, 3] (query_for 7 name) DummyAddr example_server"
proof -
  have "\<exists>buf name. send example_casemap 7 (replicate 8 0) [1, 2, 3] example_client = Some (Inr buf) \<and>
     length buf \<le> 282 \<and> MessageFromWireFormat buf = Inr (query_for 7 name) \<and>
     relayed example_casemap 1232 name (query_for 7 name) \<and>
     (\<forall>query datagram addr s. relayed example_casemap 1232 name query \<longrightarrow>
        MessageFromWireFormat (take 4096 datagram) = Inr query \<longrightarrow>
        server_recv example_casemap 1232 (dc_domain example_client) datagram addr s =
          after_query (dc_clientID example_client) [1, 2, 3] query addr s)"
    by (rule upstream_end_to_end) (simp_all add: example_client_ok numPaddingForPoll_def)
  then obtain buf name where b: "send example_casemap 7 (replicate 8 0) [1, 2, 3] example_client = Some (Inr buf)"
    "length buf \<le> 282" "MessageFromWireFormat buf = Inr (query_for 7 name)"
    "relayed example_casemap 1232 name (query_for 7 name)"
    "\<And>datagram addr s. MessageFromWireFormat (take 4096 datagram) = Inr (query_for 7 name) \<Longrightarrow>
        server_recv example_casemap 1232 (dc_domain example_client) datagram addr s =
          after_query (dc_clientID example_client) [1, 2, 3] (query_for 7 name) addr s"
    by blast
  have "take 4096 buf = buf" using b(2) by simp
  then have "server_recv example_casemap 1232 (dc_domain example_client) buf DummyAddr example_server =
      after_query (dc_clientID example_client) [1, 2, 3] (query_for 7 name) DummyAddr example_server"
    using b(3,5) by simp
  moreover have "dc_clientID example_client = [1, 2, 3, 4, 5, 6, 7, 8]" by (simp add: example_client_def)
  ultimately show ?thesis using b(1) by auto
qed


text \<open>An acceptable query of the example client, and one packet waiting for it.\<close>

lemma example_mtu:
  "computeMaxEncodedPayload u 1232 1232 = Inr 934" "server_mtu u 1232 = Inr 932"
proof -
  obtain n where n: "computeMaxEncodedPayload u 1232 1232 = Inr n"
    "\<forall>m. 0 < m \<longrightarrow> m < 32768 \<longrightarrow> (m \<le> n \<longleftrightarrow> int (max_response_length m) \<le> 1232)"
    using computeMaxEncodedPayload_exact by blast
  have "934 \<le> n" "\<not> 935 \<le> n"
    using n(2)[rule_format, of 934] n(2)[rule_format, of 935] by (simp_all add: max_response_length_def)
  then show "computeMaxEncodedPayload u 1232 1232 = Inr 934" using n(1) by simp
  then show "server_mtu u 1232 = Inr 932" by (simp add: server_mtu_def)
qed

lemma example_query:
  "\<exists>query payload. valid_message query \<and> acceptable u 1232 (dc_domain example_client) query payload"
proof -
  obtain buf labels decoded where
    "valid_name (labels @ dc_domain example_client)" "concat labels = ToLower u (b32_encode decoded)"
    using send_ok [of example_client "[]" "replicate 8 0" u 0] example_client_ok
    by (auto simp: numPaddingForPoll_def)
  moreover have "relayed u 1232 (labels @ dc_domain example_client)
      (query_for 0 (labels @ dc_domain example_client))"
    by (simp add: relayed_def query_for_def Opcode_def OPT_records_def EDNS_version_def
        requester_size_def case_variant_def list_all2_refl)
  ultimately show ?thesis using relayed_acceptable query_valid by blast
qed

lemma example_waiting:
  "\<exists>c. put_outgoing 0 (ClientAddr cid) [1, 2] (NewQueuePacketConn DummyAddr) = Inr c \<and>
     conn_inv c \<and> qc_closed c = None \<and> waiting c (ClientAddr cid) = [[1, 2]]"
proof -
  let ?c = "NewQueuePacketConn DummyAddr"
  obtain c where "WriteTo [1, 2] (ClientAddr cid) 0 ?c = Inr (length [1, 2], c)" "conn_inv c" "qc_closed c = None"
    "outgoing c = (outgoing ?c)(ClientAddr cid := take QueueSize (outgoing ?c (ClientAddr cid) @ [[1, 2]]))"
    "stashed c = stashed ?c"
    using WriteTo_ok [of ?c "[1, 2]" "ClientAddr cid" 0] by auto
  moreover have "outgoing ?c b = []" "stashed ?c b = []" for b
    by (simp_all add: outgoing_def sendq_def stashed_def stashq_def NewQueuePacketConn_def
        NewRemoteMap_def peer_def)
  ultimately show ?thesis by (auto simp: put_outgoing_def waiting_def QueueSize_def)
qed


text \<open>The line that holds a key, as the client reads it.\<close>

lemma trim_key_line: "TrimSpace uniTrim (hex_encode key @ [10]) = hex_encode key"
proof -
  have ascii: "\<forall>b \<in> set (hex_encode key @ [10]). b < 0x80" using hex_encode_chars [of key] by auto
  have none: "\<not> asciiSpace b" if "b \<in> set (hex_encode key)" for b
    using hex_encode_chars [of key] that by (auto simp: asciiSpace_def)
  have keep: "dropWhile asciiSpace xs = xs" if "set xs \<subseteq> set (hex_encode key)" for xs
    using that none by (cases xs) auto
  show ?thesis
  proof (cases "hex_encode key")
    case Nil
    then show ?thesis using trim_ascii [OF ascii, of uniTrim] by (simp add: asciiSpace_def)
  next
    case (Cons b r)
    have "\<not> asciiSpace b" using none [of b] Cons by simp
    then have "dropWhile asciiSpace (hex_encode key @ [10]) = hex_encode key @ [10]" using Cons by simp
    moreover have "dropWhile asciiSpace (rev (hex_encode key @ [10])) = rev (hex_encode key)"
      using keep [of "rev (hex_encode key)"] by (simp add: asciiSpace_def)
    ultimately show ?thesis using trim_ascii [OF ascii, of uniTrim] by simp
  qed
qed

text \<open>
  C35: The key pair connects client and server.  After \<open>dnstt-server -gen-key\<close> with two files, the
  first new or not longer than a key's line, a server that is started with \<open>-privkey-file\<close> serves with
  the private key, a client with \<open>-pubkey-file\<close> uses its public key, and when the Noise library can
  complete the handshake for such a pair, \<open>NewClient\<close> and \<open>NewServer\<close> do so with each other's message.
\<close>

theorem generated_keys_connect:
  assumes "server_main lib genv gflags [] fs = Inr (KeysGenerated, fs')" and "sf_genKey gflags"
    and "sf_privkeyFile gflags = p" and "sf_pubkeyFile gflags = q" and "p \<noteq> []" and "q \<noteq> []" and "p \<noteq> q"
    and "\<forall>old. fs p = Some old \<longrightarrow> length old \<le> 65"
    and "fe_Generate (sn_files genv) = Inr privkey" and "length privkey = KeyLen" and "length pubkey = KeyLen"
    and "handshake lib privkey pubkey m1 m2"
    and "server_main lib env flags args fs' = Inr (outcome, fs'')" and "service_of outcome = Some s"
    and "sf_privkeyFile flags = p" and "fl_pubkeyFile cflags = q" and "fl_pubkey cflags = []"
  shows "svc_privkey s = privkey \<and> flag_pubkey cenv cflags fs' = Inr pubkey \<and>
     (\<exists>sv. NewServer lib (svc_privkey s) (frame16 m1 @ y) \<lparr>w_out = [], w_room = None\<rparr> =
        (Inr (sv, y), \<lparr>w_out = frame16 m2, w_room = None\<rparr>)) \<and>
     (\<exists>key cl. flag_pubkey cenv cflags fs' = Inr key \<and>
        NewClient lib key (frame16 m2 @ x) \<lparr>w_out = [], w_room = None\<rparr> =
          (Inr (cl, x), \<lparr>w_out = frame16 m1, w_room = None\<rparr>))"
proof -
  have pub: "PubkeyFromPrivkey lib privkey = Inr pubkey"
    using assms(12) by (simp add: handshake_def PubkeyFromPrivkey_def)
  have "generateKeypair lib (sn_files genv) p q fs = (None, fs')"
    using assms(1-4) by (auto simp: server_main_def split: if_splits prod.splits option.splits)
  note fs' = generateKeypair_ok [OF this assms(5-7) assms(9) pub]
  have "readKeyFromFile p fs' = Inr privkey"
    using assms(7,8,10) by (auto simp: readKeyFromFile_def fs' overwritten_key open_contents_def split: option.splits)
  moreover have "prepare env flags (svc_upstream s) fs' = Inr (svc_privkey s)"
    using service_prepared [OF assms(13,14)] by simp
  then have "server_privkey env flags fs' = Inr (svc_privkey s)" by (auto simp: prepare_def split: if_splits)
  ultimately have sk: "svc_privkey s = privkey" using given_key_cases assms(5,15) by fastforce
  have "DecodeKey (hex_encode pubkey) = Inr pubkey" using assms(11) by (simp add: DecodeKey_def)
  then have ck: "flag_pubkey cenv cflags fs' = Inr pubkey"
    using assms(6,16,17) trim_key_line by (simp add: flag_pubkey_def fs')
  show ?thesis using handshake_sockets [OF assms(12), of x y] sk ck by auto
qed

text \<open>With the files \<open>p\<close> and \<open>q\<close>.\<close>

definition gen_flags :: server_flags where
  "gen_flags = default_server_flags\<lparr>sf_genKey := True, sf_privkeyFile := [112], sf_pubkeyFile := [113]\<rparr>"

definition file_flags :: server_flags where
  "file_flags = default_server_flags\<lparr>sf_privkeyFile := [112], sf_udp := [58, 53]\<rparr>"

definition file_client :: client_flags where
  "file_client = default_flags\<lparr>fl_pubkeyFile := [113]\<rparr>"

lemma counting_pair: "handshake counting_lib k (rev k) [1] [4]"
  unfolding handshake_def
  using counting_in_step [of 100] counting_in_step [of 200]
  by (auto simp: counting_lib_def)

theorem generated_keys_connect_witness:
  "\<exists>fs'. server_main counting_lib bridge gen_flags [] Map.empty = Inr (KeysGenerated, fs') \<and>
     flag_pubkey working_client file_client fs' = Inr (replicate 32 1) \<and>
     (\<exists>s. server_main counting_lib bridge file_flags [[116], [97, 58, 57]] fs' = Inr (Standalone s, fs') \<and>
        svc_privkey s = replicate 32 1)"
proof -
  let ?key = "replicate 32 (1 :: byte)" and ?line = "hex_encode (replicate 32 1) @ [10]"
  define fs' :: file_system where "fs' = [[112] \<mapsto> ?line, [113] \<mapsto> ?line]"
  have "generateKeypair counting_lib (sn_files bridge) [112] [113] Map.empty = (None, fs')"
    using working_keypair [of Map.empty] by (simp add: bridge_def fs'_def overwrite_def open_contents_def)
  then have g: "server_main counting_lib bridge gen_flags [] Map.empty = Inr (KeysGenerated, fs')"
    by (simp add: server_main_def gen_flags_def default_server_flags_def)
  have "ParseName [116] = Inr [[116]]"
    by (simp add: ParseName_def trimSuffixByte_def valid_name_def valid_label_def name_octets_def)
  moreover have "readKeyFromFile [112] fs' = Inr ?key"
    by (auto simp: readKeyFromFile_def fs'_def ReadKey_exact KeyLen_def intro: exI [of _ "hex_encode (replicate 32 1)"])
  then have "prepare bridge file_flags [97, 58, 57] fs' = Inr ?key"
    by (simp add: prepare_def upstream_ok_def server_privkey_def given_key_def bridge_def default_server_flags_def
        file_flags_def)
  ultimately obtain s where s: "server_main counting_lib bridge file_flags [[116], [97, 58, 57]] fs' = Inr (Standalone s, fs')"
    by (auto simp: server_main_def udp_main_def file_flags_def default_server_flags_def bridge_def)
  have "svc_privkey s = ?key \<and> flag_pubkey working_client file_client fs' = Inr ?key"
    using generated_keys_connect [OF g _ _ _ _ _ _ _ _ _ _ counting_pair [of ?key] s, of "[112]" "[113]" s file_client
        working_client]
    by (simp add: gen_flags_def file_flags_def file_client_def default_server_flags_def default_flags_def bridge_def
        working_files_def KeyLen_def)
  with g s show ?thesis by blast
qed

end
